(* ===== verification/Go_Prelude.thy ===== *)
theory Go_Prelude
  imports Main "HOL-Library.Char_ord" "HOL-Library.List_Lexorder" "HOL-Library.Sublist"
begin

text \<open>
  Shared vocabulary of the development: the part of the Go language and of its standard
  library that the modelled code uses.  A Go string is a list of bytes (a HOL \<^typ>\<open>string\<close>);
  \<^verbatim>\<open>int64\<close> and \<^verbatim>\<open>int\<close> values are integers with the two's complement wrap-around written
  out where the code computes with them; a Go call that returns \<^verbatim>\<open>(value, error)\<close> is a sum
  whose left side is the error; a handler that writes an HTTP response returns a value of
  the type \<open>response\<close>.  The lemmas at the end (collections \<open>go_strings\<close> and \<open>go_sums\<close>)
  are the automation that the component theories share.
\<close>

named_theorems go_strings \<open>facts on the model of package strings and package path\<close>
named_theorems go_sums \<open>facts on error results\<close>

section \<open>Results, responses and machine integers\<close>

text \<open>An HTTP response: a status code with an error message, or a body written with a status.\<close>

datatype 'a response = Fail (resp_status: nat) (resp_message: string) | Reply (resp_status: nat) (resp_body: 'a)

text \<open>Sequencing of fallible code: \<^verbatim>\<open>x, err := f(); if err != nil { return err }\<close>.\<close>

definition try_then :: "'e + 'a \<Rightarrow> ('a \<Rightarrow> 'e + 'b) \<Rightarrow> 'e + 'b" where
  "try_then r k = (case r of Inl e \<Rightarrow> Inl e | Inr x \<Rightarrow> k x)"

text \<open>A loop that maps a fallible function over a slice and stops at the first error.\<close>

fun try_map :: "('a \<Rightarrow> 'e + 'b) \<Rightarrow> 'a list \<Rightarrow> 'e + 'b list" where
  "try_map f [] = Inr []"
| "try_map f (x # xs) = (case f x of Inl e \<Rightarrow> Inl e
     | Inr y \<Rightarrow> (case try_map f xs of Inl e \<Rightarrow> Inl e | Inr ys \<Rightarrow> Inr (y # ys)))"

definition is_ok :: "'e + 'a \<Rightarrow> bool" where
  "is_ok r = (case r of Inl _ \<Rightarrow> False | Inr _ \<Rightarrow> True)"

abbreviation max_int64 :: int where
  "max_int64 \<equiv> 9223372036854775807"

definition wrap64 :: "int \<Rightarrow> int" where
  "wrap64 x = (x + 9223372036854775808) mod 18446744073709551616 - 9223372036854775808"

definition int64 :: "int \<Rightarrow> bool" where
  "int64 x \<longleftrightarrow> - 9223372036854775808 \<le> x \<and> x \<le> max_int64"

section \<open>Package strings\<close>

definition has_prefix :: "string \<Rightarrow> string \<Rightarrow> bool" where
  "has_prefix s p = (take (length p) s = p)"

definition has_suffix :: "string \<Rightarrow> string \<Rightarrow> bool" where
  "has_suffix s p = has_prefix (rev s) (rev p)"

definition trim_prefix :: "string \<Rightarrow> string \<Rightarrow> string" where
  "trim_prefix s p = (if has_prefix s p then drop (length p) s else s)"

definition trim_suffix :: "string \<Rightarrow> string \<Rightarrow> string" where
  "trim_suffix s p = (if has_suffix s p then take (length s - length p) s else s)"

text \<open>\<^verbatim>\<open>strings.ReplaceAll\<close> with one-byte arguments.\<close>

definition replace_char :: "char \<Rightarrow> char \<Rightarrow> string \<Rightarrow> string" where
  "replace_char a b s = map (\<lambda>c. if c = a then b else c) s"

text \<open>\<^verbatim>\<open>strings.Split\<close> and \<^verbatim>\<open>strings.Join\<close> with a one-byte separator.\<close>

fun split_on :: "char \<Rightarrow> string \<Rightarrow> string list" where
  "split_on c [] = [[]]"
| "split_on c (x # xs) = (if x = c then [] # split_on c xs
     else (x # hd (split_on c xs)) # tl (split_on c xs))"

fun join_with :: "char \<Rightarrow> string list \<Rightarrow> string" where
  "join_with c [] = []"
| "join_with c [s] = s"
| "join_with c (s # t # ts) = s @ c # join_with c (t # ts)"

text \<open>
  The UTF-8 encodings of the runes for which \<^verbatim>\<open>unicode.IsSpace\<close> holds; \<^verbatim>\<open>strings.TrimSpace\<close>
  removes them at both ends of a string.
\<close>

definition space_runes :: "string list" where
  "space_runes = [[CHR 0x09], [CHR 0x0A], [CHR 0x0B], [CHR 0x0C], [CHR 0x0D], [CHR 0x20],
     [CHR 0xC2, CHR 0x85], [CHR 0xC2, CHR 0xA0], [CHR 0xE1, CHR 0x9A, CHR 0x80],
     [CHR 0xE2, CHR 0x80, CHR 0x80], [CHR 0xE2, CHR 0x80, CHR 0x81],
     [CHR 0xE2, CHR 0x80, CHR 0x82], [CHR 0xE2, CHR 0x80, CHR 0x83],
     [CHR 0xE2, CHR 0x80, CHR 0x84], [CHR 0xE2, CHR 0x80, CHR 0x85],
     [CHR 0xE2, CHR 0x80, CHR 0x86], [CHR 0xE2, CHR 0x80, CHR 0x87],
     [CHR 0xE2, CHR 0x80, CHR 0x88], [CHR 0xE2, CHR 0x80, CHR 0x89],
     [CHR 0xE2, CHR 0x80, CHR 0x8A], [CHR 0xE2, CHR 0x80, CHR 0xA8],
     [CHR 0xE2, CHR 0x80, CHR 0xA9], [CHR 0xE2, CHR 0x80, CHR 0xAF],
     [CHR 0xE2, CHR 0x81, CHR 0x9F], [CHR 0xE3, CHR 0x80, CHR 0x80]]"

fun leading_rune :: "string list \<Rightarrow> string \<Rightarrow> nat" where
  "leading_rune [] s = 0"
| "leading_rune (r # rs) s = (if has_prefix s r then length r else leading_rune rs s)"

function trim_runes :: "string list \<Rightarrow> string \<Rightarrow> string" where
  "trim_runes rs s = (if s = [] \<or> leading_rune rs s = 0 then s
     else trim_runes rs (drop (leading_rune rs s) s))"
  by pat_completeness auto
termination by (relation "measure (\<lambda>(rs, s). length s)") auto

declare trim_runes.simps [simp del]

definition trim_left_space :: "string \<Rightarrow> string" where
  "trim_left_space s = trim_runes space_runes s"

definition trim_right_space :: "string \<Rightarrow> string" where
  "trim_right_space s = rev (trim_runes (map rev space_runes) (rev s))"

definition trim_space :: "string \<Rightarrow> string" where
  "trim_space s = trim_right_space (trim_left_space s)"

text \<open>
  \<^verbatim>\<open>strings.ToLower\<close> as its callers observe it: on ASCII letters, and on the two runes outside
  ASCII (U+212A and U+0130) whose lower case is an ASCII letter.  The other runes outside ASCII
  stay outside ASCII; they are left as they are.
\<close>

definition lower_char :: "char \<Rightarrow> char" where
  "lower_char c = (if 65 \<le> (of_char c :: nat) \<and> (of_char c :: nat) \<le> 90 then char_of ((of_char c :: nat) + 32) else c)"

fun to_lower :: "string \<Rightarrow> string" where
  "to_lower [] = []"
| "to_lower (c # s) =
    (if has_prefix (c # s) [CHR 0xE2, CHR 0x84, CHR 0xAA] then CHR ''k'' # to_lower (drop 2 s)
     else if has_prefix (c # s) [CHR 0xC4, CHR 0xB0] then CHR ''i'' # to_lower (drop 1 s)
     else lower_char c # to_lower s)"

definition hex_digit :: "char \<Rightarrow> bool" where
  "hex_digit c \<longleftrightarrow> c \<in> set ''0123456789abcdefABCDEF''"

text \<open>\<^verbatim>\<open>hex.DecodeString\<close> succeeds: an even number of hexadecimal digits.\<close>

definition hex_decodes :: "string \<Rightarrow> bool" where
  "hex_decodes s \<longleftrightarrow> even (length s) \<and> list_all hex_digit s"

section \<open>Package path\<close>

text \<open>
  \<^verbatim>\<open>path.Clean\<close>: empty and \<^verbatim>\<open>.\<close> elements are dropped, an inner \<^verbatim>\<open>..\<close> removes the element before
  it, a \<^verbatim>\<open>..\<close> that begins a rooted path is dropped and one that begins a relative path is
  kept.  The accumulator holds the kept elements in reverse.
\<close>

fun clean_parts :: "bool \<Rightarrow> string list \<Rightarrow> string list \<Rightarrow> string list" where
  "clean_parts rooted acc [] = rev acc"
| "clean_parts rooted acc (p # ps) =
    (if p = [] \<or> p = ''.'' then clean_parts rooted acc ps
     else if p = ''..'' then
       (case acc of
          [] \<Rightarrow> clean_parts rooted (if rooted then [] else [''..'']) ps
        | q # qs \<Rightarrow> if q = ''..'' then clean_parts rooted (''..'' # acc) ps
                   else clean_parts rooted qs ps)
     else clean_parts rooted (p # acc) ps)"

definition path_clean :: "string \<Rightarrow> string" where
  "path_clean p = (if p = [] then ''.''
     else if hd p = CHR ''/'' then CHR ''/'' # join_with CHR ''/'' (clean_parts True [] (split_on CHR ''/'' p))
     else (let q = join_with CHR ''/'' (clean_parts False [] (split_on CHR ''/'' p)) in
           if q = [] then ''.'' else q))"

text \<open>\<^verbatim>\<open>filepath.IsLocal\<close> on Unix.\<close>

definition is_local :: "string \<Rightarrow> bool" where
  "is_local p \<longleftrightarrow> p \<noteq> [] \<and> hd p \<noteq> CHR ''/'' \<and>
    (let q = (if ''.'' \<in> set (split_on (CHR ''/'') p) \<or> ''..'' \<in> set (split_on (CHR ''/'') p) then path_clean p else p)
     in q \<noteq> ''..'' \<and> \<not> has_prefix q ''../'')"

section \<open>Lemmas on results and integers\<close>

lemma try_then_simps [simp, go_sums]:
  "try_then (Inl e) k = Inl e"
  "try_then (Inr x) k = k x"
  by (simp_all add: try_then_def)

lemma try_then_Inr_iff [go_sums]:
  "try_then r k = Inr y \<longleftrightarrow> (\<exists>x. r = Inr x \<and> k x = Inr y)"
  by (cases r) auto

lemma is_ok_simps [simp]: "is_ok (Inl e) = False" "is_ok (Inr x) = True"
  by (simp_all add: is_ok_def)

lemma is_ok_iff: "is_ok r \<longleftrightarrow> (\<exists>x. r = Inr x)"
  by (cases r) auto

lemma try_map_Inr_iff [go_sums]:
  "try_map f xs = Inr ys \<longleftrightarrow> list_all2 (\<lambda>x y. f x = Inr y) xs ys"
proof (induction xs arbitrary: ys)
  case (Cons x xs)
  show ?case
    by (cases "f x"; cases "try_map f xs"; cases ys) (auto simp: Cons[symmetric])
qed auto

lemma try_map_length: "try_map f xs = Inr ys \<Longrightarrow> length ys = length xs"
  by (auto simp: try_map_Inr_iff dest: list_all2_lengthD)

lemma wrap64_id [simp]: "int64 x \<Longrightarrow> wrap64 x = x"
  by (simp add: wrap64_def int64_def)

lemma int64_wrap64 [simp]: "int64 (wrap64 x)"
  unfolding int64_def wrap64_def by (smt (verit) pos_mod_bound pos_mod_sign)

section \<open>Lemmas on strings\<close>

lemma has_prefix_iff [go_strings]: "has_prefix s p \<longleftrightarrow> (\<exists>t. s = p @ t)"
  unfolding has_prefix_def by (metis append_eq_conv_conj append_take_drop_id)

lemma has_prefix_Nil [simp]: "has_prefix s []"
  by (simp add: has_prefix_def)

lemma has_prefix_append [simp]: "has_prefix (p @ t) p"
  by (simp add: has_prefix_def)

lemma has_prefix_Cons [simp]: "has_prefix (x # s) (y # p) \<longleftrightarrow> x = y \<and> has_prefix s p"
  by (simp add: has_prefix_def)

lemma has_prefix_Nil_Cons [simp]: "\<not> has_prefix [] (y # p)"
  by (simp add: has_prefix_def)

lemma has_prefix_trans: "has_prefix s p \<Longrightarrow> has_prefix p q \<Longrightarrow> has_prefix s q"
  by (auto simp: has_prefix_iff)

lemma trim_prefix_append [go_strings]: "trim_prefix (p @ t) p = t"
  by (simp add: trim_prefix_def)

lemma split_on_nonempty [simp]: "split_on c s \<noteq> []"
  by (induction s) auto

lemma split_on_code [code]:
  "split_on c [] = [[]]"
  "split_on c (x # xs) = (case split_on c xs of h # t \<Rightarrow> if x = c then [] # h # t else (x # h) # t | [] \<Rightarrow> [])"
  by (auto split: list.split)

lemma join_split [simp, go_strings]: "join_with c (split_on c s) = s"
proof (induction s)
  case (Cons x s)
  obtain h t where "split_on c s = h # t" by (cases "split_on c s") auto
  with Cons show ?case by (cases t) auto
qed simp

lemma split_on_no_sep [go_strings]: "p \<in> set (split_on c s) \<Longrightarrow> c \<notin> set p"
proof (induction s arbitrary: p)
  case (Cons x s)
  obtain h t where "split_on c s = h # t" by (cases "split_on c s") auto
  with Cons show ?case by (auto split: if_splits)
qed simp

lemma split_on_chars: "p \<in> set (split_on c s) \<Longrightarrow> set p \<subseteq> set s"
proof (induction s arbitrary: p)
  case (Cons x s)
  obtain h t where "split_on c s = h # t" by (cases "split_on c s") auto
  with Cons show ?case by (fastforce split: if_splits)
qed simp

lemma split_on_free: "c \<notin> set s \<Longrightarrow> split_on c s = [s]"
  by (induction s) auto

lemma split_on_append: "c \<notin> set s \<Longrightarrow> split_on c (s @ c # t) = s # split_on c t"
  by (induction s) auto

lemma split_join [go_strings]:
  "ps \<noteq> [] \<Longrightarrow> \<forall>p\<in>set ps. c \<notin> set p \<Longrightarrow> split_on c (join_with c ps) = ps"
  by (induction c ps rule: join_with.induct) (auto simp: split_on_free split_on_append)

lemma join_with_chars: "set (join_with c ps) \<subseteq> insert c (\<Union>p\<in>set ps. set p)"
  by (induction c ps rule: join_with.induct) auto

lemma join_with_hd: "ps \<noteq> [] \<Longrightarrow> hd ps \<noteq> [] \<Longrightarrow> join_with c ps \<noteq> [] \<and> hd (join_with c ps) = hd (hd ps)"
  by (induction c ps rule: join_with.induct) auto

lemma join_with_empty_iff: "\<forall>p\<in>set ps. p \<noteq> [] \<Longrightarrow> join_with c ps = [] \<longleftrightarrow> ps = []"
  by (induction c ps rule: join_with.induct) auto

lemma leading_rune_bound: "leading_rune rs s \<le> length s"
  by (induction rs) (auto simp: has_prefix_iff)

lemma trim_runes_suffix: "suffix (trim_runes rs s) s"
proof (induction rs s rule: trim_runes.induct)
  case (1 rs s)
  show ?case
  proof (cases "s = [] \<or> leading_rune rs s = 0")
    case False
    with 1 have "suffix (trim_runes rs (drop (leading_rune rs s) s)) (drop (leading_rune rs s) s)"
      by simp
    then have "suffix (trim_runes rs (drop (leading_rune rs s) s)) s"
      by (meson suffix_drop suffix_order.trans)
    with False show ?thesis by (subst trim_runes.simps) simp
  qed (simp add: trim_runes.simps)
qed

lemma trim_runes_step:
  "s \<noteq> [] \<Longrightarrow> leading_rune rs s \<noteq> 0 \<Longrightarrow> trim_runes rs s = trim_runes rs (drop (leading_rune rs s) s)"
  by (subst trim_runes.simps) simp

lemma trim_runes_stop: "s = [] \<or> leading_rune rs s = 0 \<Longrightarrow> trim_runes rs s = s"
  by (subst trim_runes.simps) simp

lemma trim_runes_idem: "trim_runes rs (trim_runes rs s) = trim_runes rs s"
proof (induction rs s rule: trim_runes.induct)
  case (1 rs s)
  then show ?case
    by (cases "s = [] \<or> leading_rune rs s = 0") (simp_all add: trim_runes_step trim_runes_stop)
qed

lemma trim_space_chars: "set (trim_space s) \<subseteq> set s"
proof -
  have "set (trim_right_space t) \<subseteq> set t" for t
    using set_mono_suffix[OF trim_runes_suffix, of "map rev space_runes" "rev t"]
    by (simp add: trim_right_space_def)
  moreover have "set (trim_left_space s) \<subseteq> set s"
    unfolding trim_left_space_def by (rule set_mono_suffix[OF trim_runes_suffix])
  ultimately show ?thesis unfolding trim_space_def by blast
qed

lemma replace_char_set: "c \<in> set (replace_char a b s) \<Longrightarrow> c \<in> set s \<and> c \<noteq> a \<or> c = b"
  by (auto simp: replace_char_def split: if_splits)

lemma replace_char_free [simp]: "a \<notin> set s \<Longrightarrow> replace_char a b s = s"
  unfolding replace_char_def by (rule map_idI) auto

section \<open>Lemmas on clean paths\<close>

text \<open>The elements of a clean relative path: no separator and none of the three special names.\<close>

definition plain_part :: "string \<Rightarrow> bool" where
  "plain_part p \<longleftrightarrow> p \<noteq> [] \<and> p \<noteq> ''.'' \<and> p \<noteq> ''..'' \<and> CHR ''/'' \<notin> set p"

text \<open>The shape that the accumulator keeps: leading \<^verbatim>\<open>..\<close> elements, then plain ones.\<close>

definition clean_shape :: "bool \<Rightarrow> string list \<Rightarrow> bool" where
  "clean_shape rooted ps \<longleftrightarrow> list_all plain_part (dropWhile (\<lambda>p. p = ''..'') ps) \<and> (rooted \<longrightarrow> ''..'' \<notin> set ps)"

lemma clean_shape_Nil [simp]: "clean_shape rooted []"
  by (simp add: clean_shape_def)

lemma clean_shape_one [simp]: "clean_shape False [''..'']"
  by (simp add: clean_shape_def)

lemma clean_shape_snoc: "clean_shape rooted ps \<Longrightarrow> plain_part p \<Longrightarrow> clean_shape rooted (ps @ [p])"
  by (auto simp: clean_shape_def dropWhile_append plain_part_def)

lemma clean_shape_butlast: "clean_shape rooted (ps @ [p]) \<Longrightarrow> clean_shape rooted ps"
  by (auto simp: clean_shape_def dropWhile_append dropWhile_eq_Nil_conv [THEN iffD2] split: if_splits)

lemma clean_shape_dotdot: "clean_shape rooted (ps @ [''..'']) \<Longrightarrow> clean_shape rooted (ps @ [''..'', ''..''])"
  by (auto simp: clean_shape_def dropWhile_append plain_part_def split: if_splits)

lemma clean_parts_shape:
  "clean_shape rooted (rev acc) \<Longrightarrow> \<forall>p\<in>set ps. CHR ''/'' \<notin> set p
   \<Longrightarrow> clean_shape rooted (clean_parts rooted acc ps)"
proof (induction rooted acc ps rule: clean_parts.induct)
  case (2 rooted acc p ps)
  consider "p = [] \<or> p = ''.''" | "p = ''..''" | "plain_part p"
    using 2 by (auto simp: plain_part_def)
  then show ?case
  proof cases
    case 2
    then show ?thesis
      using "2.IH"(2-4) "2.prems"
      by (cases acc) (auto intro: clean_shape_dotdot dest: clean_shape_butlast)
  next
    case 3
    then have "clean_parts rooted acc (p # ps) = clean_parts rooted (p # acc) ps"
      by (simp add: plain_part_def)
    moreover have "clean_shape rooted (rev (p # acc))"
      using 3 "2.prems" by (simp add: clean_shape_snoc)
    ultimately show ?thesis
      using "2.IH"(5) "2.prems" 3 by (simp add: plain_part_def)
  qed (use "2.IH"(1) "2.prems" in auto)
qed simp

lemma clean_parts_plain:
  "list_all plain_part ps \<Longrightarrow> clean_parts rooted acc ps = rev acc @ ps"
  by (induction ps arbitrary: acc) (auto simp: plain_part_def)

end
