(* ===== verification/Paths.thy ===== *)
theory Paths
  imports Go_Prelude
begin

text \<open>
  The normalisation of file paths and of access-rule prefixes
  (\<^verbatim>\<open>internal/server/paths.go\<close>).  Every path that reaches the catalog and every prefix of an
  access rule has gone through one of the two functions of this theory, so the lemmas here
  (a clean path has no empty, \<^verbatim>\<open>.\<close> or \<^verbatim>\<open>..\<close> element; a prefix compares element by element)
  are what the access theory relies on.
\<close>

datatype path_error = PathHasNul | PathEmpty | PathNotClean | PrefixHasNul | PrefixOutsideRoot

abbreviation slash :: char where "slash \<equiv> CHR ''/''"
abbreviation backslash :: char where "backslash \<equiv> CHR 0x5C"
abbreviation nul :: char where "nul \<equiv> CHR 0x00"

text \<open>\<^verbatim>\<open>cleanFilePath\<close>: the path of a captured file, relative to its root.\<close>

definition cleanFilePath :: "string \<Rightarrow> path_error + string" where
  "cleanFilePath filePath =
    (if nul \<in> set filePath then Inl PathHasNul
     else let p = trim_space (replace_char backslash slash filePath) in
       if p = [] then Inl PathEmpty
       else let cleaned = path_clean p in
         if cleaned = ''.'' \<or> has_prefix cleaned ''../'' \<or> cleaned = ''..'' \<or> has_prefix cleaned ''/''
         then Inl PathNotClean
         else Inr cleaned)"

text \<open>\<^verbatim>\<open>cleanPathPrefix\<close>: the directory prefix of an access rule.\<close>

definition cleanPathPrefix :: "string \<Rightarrow> path_error + string" where
  "cleanPathPrefix pre =
    (if nul \<in> set pre then Inl PrefixHasNul
     else let p = trim_space (replace_char backslash slash pre);
              p1 = (if p = [] then ''/'' else p);
              p2 = (if has_prefix p1 ''/'' then p1 else slash # p1);
              cleaned = path_clean p2 in
       if cleaned = ''/..'' \<or> has_prefix cleaned ''/../'' then Inl PrefixOutsideRoot
       else Inr (if cleaned \<noteq> ''/'' then cleaned @ ''/'' else cleaned))"

section \<open>What a clean path is\<close>

text \<open>A file path inside its root: a non-empty sequence of plain elements with no NUL and no backslash.\<close>

definition inside_root :: "string \<Rightarrow> bool" where
  "inside_root p \<longleftrightarrow> list_all plain_part (split_on slash p) \<and> nul \<notin> set p \<and> backslash \<notin> set p"

text \<open>The prefix of the directory with the given elements.\<close>

definition prefix_of_parts :: "string list \<Rightarrow> string" where
  "prefix_of_parts ps = (if ps = [] then ''/'' else slash # join_with slash ps @ ''/'')"

lemma plain_part_nonempty: "list_all plain_part ps \<Longrightarrow> \<forall>p\<in>set ps. p \<noteq> [] \<and> slash \<notin> set p"
  by (auto simp: list_all_iff plain_part_def)

lemma clean_parts_split_shape: "clean_shape r (clean_parts r [] (split_on slash p))"
  by (rule clean_parts_shape) (auto dest: split_on_no_sep)

lemma clean_parts_chars: "q \<in> set (clean_parts r acc ps) \<Longrightarrow> q \<in> set acc \<union> set ps \<union> {''..''}"
proof (induction r acc ps rule: clean_parts.induct)
  case (2 r acc p ps)
  then show ?case by (cases acc) (auto split: if_splits)
qed simp

lemma clean_parts_split_chars:
  "q \<in> set (clean_parts r [] (split_on slash p)) \<Longrightarrow> c \<in> set q \<Longrightarrow> c \<in> set p \<or> c = CHR ''.''"
  using clean_parts_chars split_on_chars by fastforce

lemma path_clean_relative:
  assumes "p \<noteq> []" "hd p \<noteq> slash"
    and "path_clean p \<noteq> ''.''" "path_clean p \<noteq> ''..''" "\<not> has_prefix (path_clean p) ''../''"
  obtains ps where "ps \<noteq> []" "list_all plain_part ps" "path_clean p = join_with slash ps"
    "\<And>q c. q \<in> set ps \<Longrightarrow> c \<in> set q \<Longrightarrow> c \<in> set p \<or> c = CHR ''.''"
proof -
  define ps where "ps = clean_parts False [] (split_on slash p)"
  have shape: "clean_shape False ps" unfolding ps_def by (rule clean_parts_split_shape)
  have eq: "path_clean p = (if join_with slash ps = [] then ''.'' else join_with slash ps)"
    using assms(1,2) by (simp add: path_clean_def ps_def Let_def)
  then have join: "path_clean p = join_with slash ps" and "ps \<noteq> []"
    using assms(3) by (auto split: if_splits)
  then obtain h t where ht: "ps = h # t" by (cases ps) auto
  have "h \<noteq> ''..''"
  proof
    assume "h = ''..''"
    with join ht assms(4,5) show False by (cases t) auto
  qed
  with shape ht have "list_all plain_part ps" by (simp add: clean_shape_def)
  with join \<open>ps \<noteq> []\<close> show thesis
    by (intro that) (auto simp: ps_def dest: clean_parts_split_chars)
qed

lemma path_clean_rooted:
  obtains ps where "list_all plain_part ps" "path_clean (slash # p) = slash # join_with slash ps"
proof -
  let ?ps = "clean_parts True [] (split_on slash (slash # p))"
  have "clean_shape True ?ps" by (rule clean_parts_split_shape)
  then have "list_all plain_part ?ps"
    by (cases ?ps) (auto simp: clean_shape_def dropWhile_eq_self_iff split: if_splits)
  moreover have "path_clean (slash # p) = slash # join_with slash ?ps"
    by (simp add: path_clean_def)
  ultimately show thesis by (rule that)
qed

lemma path_clean_fixed:
  assumes "list_all plain_part ps" "ps \<noteq> []"
  shows "path_clean (join_with slash ps) = join_with slash ps"
proof -
  have *: "\<forall>p\<in>set ps. p \<noteq> [] \<and> slash \<notin> set p" using assms(1) by (rule plain_part_nonempty)
  then have "split_on slash (join_with slash ps) = ps" using assms(2) by (intro split_join) auto
  moreover have "join_with slash ps \<noteq> []" "hd (join_with slash ps) = hd (hd ps)"
    using * assms(2) join_with_hd[of ps slash] by (auto simp: list.set_sel)
  moreover have "hd (hd ps) \<noteq> slash" using * assms(2)
    by (metis list.set_sel(1))
  ultimately show ?thesis using assms(1) by (simp add: path_clean_def clean_parts_plain)
qed

lemma join_plain_not_special:
  assumes "list_all plain_part ps" "ps \<noteq> []"
  shows "join_with slash ps \<noteq> ''.''" "join_with slash ps \<noteq> ''..''"
    "\<not> has_prefix (join_with slash ps) ''../''" "\<not> has_prefix (join_with slash ps) ''/''"
proof -
  have ps: "split_on slash (join_with slash ps) = ps"
    using assms by (intro split_join) (auto dest: plain_part_nonempty)
  show "join_with slash ps \<noteq> ''.''" "join_with slash ps \<noteq> ''..''"
    using ps assms by (auto simp: plain_part_def)
  show "\<not> has_prefix (join_with slash ps) ''../''" "\<not> has_prefix (join_with slash ps) ''/''"
    using ps assms by (auto simp: plain_part_def has_prefix_iff)
qed

lemma inside_root_parts:
  "inside_root p \<longleftrightarrow> (\<exists>ps. ps \<noteq> [] \<and> list_all plain_part ps \<and> p = join_with slash ps) \<and> nul \<notin> set p \<and> backslash \<notin> set p"
  unfolding inside_root_def
  by (metis join_split plain_part_nonempty split_join split_on_nonempty)

lemma cleanPathPrefix_nul: "nul \<in> set s \<Longrightarrow> cleanPathPrefix s = Inl PrefixHasNul"
  by (simp add: cleanPathPrefix_def)

lemma cleanPathPrefix_parts:
  assumes "nul \<notin> set s"
  shows "\<exists>ps. list_all plain_part ps \<and> cleanPathPrefix s = Inr (prefix_of_parts ps)"
proof -
  define t where "t = trim_space (replace_char backslash slash s)"
  define u where "u = (let p1 = (if t = [] then ''/'' else t) in if has_prefix p1 ''/'' then p1 else slash # p1)"
  have "\<exists>v. u = slash # v"
    by (cases t) (auto simp: u_def Let_def)
  then obtain v where "u = slash # v" ..
  then obtain ps where ps: "list_all plain_part ps" "path_clean u = slash # join_with slash ps"
    using path_clean_rooted by metis
  have "path_clean u \<noteq> ''/..'' \<and> \<not> has_prefix (path_clean u) ''/../''"
    using ps join_plain_not_special[of ps] by (cases "ps = []") auto
  moreover have "join_with slash ps = [] \<longleftrightarrow> ps = []"
    using ps(1) by (intro join_with_empty_iff) (auto dest: plain_part_nonempty)
  ultimately have "cleanPathPrefix s = Inr (prefix_of_parts ps)"
    using assms ps(2) by (auto simp: cleanPathPrefix_def t_def[symmetric] u_def Let_def prefix_of_parts_def)
  with ps(1) show ?thesis by blast
qed

section \<open>Properties\<close>

text \<open>
  C24: a path that \<^verbatim>\<open>cleanFilePath\<close> accepts stays inside its root: it is a non-empty sequence
  of elements none of which is empty, \<^verbatim>\<open>.\<close> or \<^verbatim>\<open>..\<close>, with no backslash and no NUL byte.
\<close>

theorem cleanFilePath_inside_root:
  assumes "cleanFilePath s = Inr p"
  shows "inside_root p"
proof -
  define t where "t = trim_space (replace_char backslash slash s)"
  have nul: "nul \<notin> set s" and t: "t \<noteq> []" and p: "p = path_clean t"
    and bad: "path_clean t \<noteq> ''.''" "path_clean t \<noteq> ''..''" "\<not> has_prefix (path_clean t) ''../''"
      "\<not> has_prefix (path_clean t) ''/''"
    using assms by (auto simp: cleanFilePath_def t_def Let_def split: if_splits)
  have rel: "hd t \<noteq> slash"
    using bad(4) t by (cases t) (auto simp: path_clean_def has_prefix_def)
  have chars: "c \<in> set t \<Longrightarrow> c \<noteq> nul \<and> c \<noteq> backslash" for c
    using trim_space_chars[of "replace_char backslash slash s"] replace_char_set nul
    unfolding t_def by fastforce
  obtain ps where ps: "ps \<noteq> []" "list_all plain_part ps" "path_clean t = join_with slash ps"
    and from_t: "\<And>q c. q \<in> set ps \<Longrightarrow> c \<in> set q \<Longrightarrow> c \<in> set t \<or> c = CHR ''.''"
    using path_clean_relative[OF t rel bad(1-3)] by blast
  have "set p \<subseteq> insert slash (\<Union>q\<in>set ps. set q)"
    unfolding p ps(3) by (rule join_with_chars)
  with chars from_t have "nul \<notin> set p" "backslash \<notin> set p" by fastforce+
  with ps p show ?thesis by (auto simp: inside_root_parts)
qed

theorem cleanFilePath_inside_root_witness:
  "cleanFilePath ''src//lib/../main.go'' = Inr ''src/main.go'' \<and> inside_root ''src/main.go''"
proof -
  have "cleanFilePath ''src//lib/../main.go'' = Inr ''src/main.go''" by code_simp
  with cleanFilePath_inside_root show ?thesis by blast
qed

text \<open>
  \<^verbatim>\<open>cleanFilePath\<close> is the identity on the paths inside a root that have no surrounding white
  space; so a path taken from the catalog and normalised again is found under the same key.
\<close>

theorem cleanFilePath_fixed:
  assumes "inside_root p" "trim_space p = p"
  shows "cleanFilePath p = Inr p"
proof -
  obtain ps where ps: "ps \<noteq> []" "list_all plain_part ps" "p = join_with slash ps"
    and free: "nul \<notin> set p" "backslash \<notin> set p"
    using assms(1) by (auto simp: inside_root_parts)
  have "p \<noteq> []"
    using ps plain_part_nonempty join_with_empty_iff by (metis (no_types, lifting))
  moreover have "path_clean p = p" using ps path_clean_fixed by blast
  ultimately show ?thesis
    using join_plain_not_special[OF ps(2,1)] assms(2) ps(3) free
    by (simp add: cleanFilePath_def Let_def)
qed

theorem cleanFilePath_fixed_witness:
  "cleanFilePath ''docs/a b.txt'' = Inr ''docs/a b.txt''"
  by (rule cleanFilePath_fixed; code_simp)

text \<open>
  C25: \<^verbatim>\<open>cleanPathPrefix\<close> accepts every prefix without a NUL byte and returns the prefix of a
  directory inside the root: it begins and ends with a slash and its elements are plain.  In
  particular its last check (a cleaned prefix that begins with \<^verbatim>\<open>/..\<close>) never fires.
\<close>

theorem cleanPathPrefix_total:
  assumes "nul \<notin> set s"
  shows "\<exists>ps. list_all plain_part ps \<and> cleanPathPrefix s = Inr (prefix_of_parts ps)"
  using assms by (rule cleanPathPrefix_parts)

theorem cleanPathPrefix_total_witness:
  "\<exists>ps. list_all plain_part ps \<and> cleanPathPrefix ''/../secret'' = Inr (prefix_of_parts ps)"
  by (rule cleanPathPrefix_total) code_simp

section \<open>Prefixes compare element by element\<close>

lemma has_prefix_join_iff:
  assumes "list_all plain_part ps" "list_all plain_part qs" "ps \<noteq> []"
  shows "has_prefix (join_with slash ps) (join_with slash qs @ ''/'') \<longleftrightarrow> (qs \<noteq> [] \<and> strict_prefix qs ps)"
  using assms
proof (induction qs arbitrary: ps)
  case Nil
  then show ?case using join_plain_not_special(4)[of ps] by simp
next
  case (Cons q qs)
  obtain p ps' where ps: "ps = p # ps'" using Cons.prems by (cases ps) auto
  have q: "slash \<notin> set q" "q \<noteq> []" and p: "slash \<notin> set p" using Cons.prems ps by (auto simp: plain_part_def)
  have cut: "has_prefix (p @ slash # r) (q @ slash # r') \<longleftrightarrow> p = q \<and> has_prefix r r'" for r r'
    using q p by (auto simp: has_prefix_iff append_eq_append_conv2 append_eq_Cons_conv Cons_eq_append_conv)
  have nocut: "\<not> has_prefix p (q @ slash # r')" for r'
    using p by (auto simp: has_prefix_iff)
  show ?case
  proof (cases ps')
    case Nil
    then show ?thesis using ps nocut by (cases qs) auto
  next
    case (Cons p' ps'')
    then have "join_with slash ps = p @ slash # join_with slash ps'" using ps by simp
    moreover have "join_with slash (q # qs) @ ''/'' =
        q @ slash # (if qs = [] then [] else join_with slash qs @ ''/'')"
      by (cases qs) auto
    ultimately show ?thesis
      using Cons.IH[of ps'] Cons.prems ps Cons cut by (cases "qs = []") auto
  qed
qed

lemma prefix_of_parts_matches:
  assumes "list_all plain_part ps" "list_all plain_part qs" "ps \<noteq> []"
  shows "has_prefix (slash # join_with slash ps) (prefix_of_parts qs) \<longleftrightarrow> strict_prefix qs ps"
  using has_prefix_join_iff[OF assms] assms(3)
  by (cases qs) (auto simp: prefix_of_parts_def strict_prefix_def)

end
