(* ===== verification/Access.thy ===== *)
theory Access
  imports Paths "HOL-Library.Product_Lexorder"
begin

text \<open>
  Identities, roles, scopes and the access policy of roots: \<^verbatim>\<open>internal/auth/auth.go\<close> and the
  policy functions of \<^verbatim>\<open>internal/server/handlers.go\<close> and \<^verbatim>\<open>internal/server/db.go\<close>.  Roles, scopes
  and permissions are strings in the source (they come from database columns), and stay
  strings here.  The locale \<open>deny_rules\<close> is the interface through which reads, searches and
  captures use folder rules; it is interpreted on \<^verbatim>\<open>checkPermission\<close>.
\<close>

section \<open>Identities, roles and scopes\<close>

record identity =
  id_user :: string
  id_org :: string
  id_role :: string
  id_email :: string
  id_scopes :: "string list"
  id_api_key :: string

definition RoleOwner :: string where "RoleOwner = ''owner''"
definition RoleAdmin :: string where "RoleAdmin = ''admin''"
definition RoleEditor :: string where "RoleEditor = ''editor''"
definition RoleViewer :: string where "RoleViewer = ''viewer''"

definition HasScope :: "identity option \<Rightarrow> string \<Rightarrow> string list \<Rightarrow> bool" where
  "HasScope who required aliases = (case who of
      None \<Rightarrow> False
    | Some idn \<Rightarrow> if id_scopes idn = [] then True
        else list_ex (\<lambda>scope. scope \<in> set (required # ''*'' # aliases)) (id_scopes idn))"

definition roleLevel :: "string \<Rightarrow> nat" where
  "roleLevel r = (if r = RoleOwner then 4 else if r = RoleAdmin then 3
     else if r = RoleEditor then 2 else if r = RoleViewer then 1 else 0)"

definition HasMinRole :: "string \<Rightarrow> string \<Rightarrow> bool" where
  "HasMinRole userRole minRole \<longleftrightarrow> roleLevel userRole \<ge> roleLevel minRole"

section \<open>Request authentication\<close>

record http_request =
  req_path :: string
  req_authorization :: string
  req_cookie :: "string option"

text \<open>\<^verbatim>\<open>tokenFromRequest\<close>: an absent header is the empty string, as \<^verbatim>\<open>Header.Get\<close> returns it.\<close>

definition tokenFromRequest :: "http_request \<Rightarrow> string option" where
  "tokenFromRequest r =
    (if req_authorization r \<noteq> [] then
       (let token = trim_prefix (req_authorization r) ''Bearer '' in
        if token = req_authorization r then None else Some token)
     else case req_cookie r of
        Some v \<Rightarrow> if v \<noteq> [] then Some v else None
      | None \<Rightarrow> None)"

record jwt_claims =
  claim_user :: string
  claim_org :: string
  claim_role :: string
  claim_email :: string

datatype auth_outcome = AuthSkipped | AuthRejected string | AuthAs identity

definition unauth_paths :: "string list" where
  "unauth_paths = [''/healthz'', ''/readyz'', ''/health'', ''/cli/version'', ''/auth/providers'', ''/auth/google'',
     ''/auth/callback'', ''/auth/email/start'', ''/auth/email/resend'', ''/auth/email/verify'', ''/auth/logout'',
     ''/billing/webhook'']"

text \<open>
  \<^verbatim>\<open>Middleware\<close>: the signature check of the token library and the SHA-256 of the raw key are
  parameters, the two resolvers are the database lookups.
\<close>

definition Middleware ::
  "(string \<Rightarrow> jwt_claims option) \<Rightarrow> (string \<Rightarrow> string) \<Rightarrow> (string \<Rightarrow> identity option)
    \<Rightarrow> (string \<Rightarrow> string \<Rightarrow> identity option) \<Rightarrow> http_request \<Rightarrow> auth_outcome" where
  "Middleware validateJWT hashAPIKey resolveAPIKey resolveSession r =
    (if req_path r \<in> set unauth_paths then AuthSkipped
     else case tokenFromRequest r of
        None \<Rightarrow> AuthRejected ''missing or malformed credentials''
      | Some token \<Rightarrow>
         (case validateJWT token of
            Some claims \<Rightarrow>
              (case resolveSession (claim_user claims) (claim_org claims) of
                 None \<Rightarrow> AuthRejected ''invalid or expired session''
               | Some idn \<Rightarrow> AuthAs idn)
          | None \<Rightarrow>
              (case resolveAPIKey (hashAPIKey token) of
                 None \<Rightarrow> AuthRejected ''invalid or expired API key''
               | Some idn \<Rightarrow> AuthAs idn)))"

text \<open>\<^verbatim>\<open>AdminMiddleware\<close>: Inl is the response written, Inr means that the request goes on as admin.\<close>

definition AdminMiddleware :: "(string \<Rightarrow> string) \<Rightarrow> string \<Rightarrow> http_request \<Rightarrow> nat + unit" where
  "AdminMiddleware hashAPIKey adminKeyHash r =
    (if trim_space adminKeyHash = [] then Inl 403
     else if req_authorization r = [] then Inl 401
     else let token = trim_prefix (req_authorization r) ''Bearer '' in
       if token = req_authorization r then Inl 401
       else if hashAPIKey token \<noteq> adminKeyHash then Inl 401
       else Inr ())"

section \<open>Role administration\<close>

definition parseRole :: "string \<Rightarrow> string \<Rightarrow> string + string" where
  "parseRole raw defaultRole =
    (let r = trim_space raw; role = (if r = [] then defaultRole else r) in
     if role \<in> {RoleOwner, RoleAdmin, RoleEditor, RoleViewer} then Inr role
     else Inl ''role must be owner, admin, editor, or viewer'')"

definition requireOrgAdmin :: "identity option \<Rightarrow> string + identity" where
  "requireOrgAdmin who = (case who of
      None \<Rightarrow> Inl ''admin role required''
    | Some idn \<Rightarrow>
        if \<not> HasMinRole (id_role idn) RoleAdmin then Inl ''admin role required''
        else if \<not> HasScope who ''org:admin'' [''admin'', ''write''] then Inl ''org admin scope required''
        else Inr idn)"

definition canAssignRole :: "string \<Rightarrow> string \<Rightarrow> bool" where
  "canAssignRole actorRole targetRole =
    (if actorRole = RoleOwner then targetRole \<in> {RoleOwner, RoleAdmin, RoleEditor, RoleViewer}
     else if actorRole = RoleAdmin then targetRole = RoleEditor \<or> targetRole = RoleViewer
     else False)"

definition canManageMemberRole :: "string \<Rightarrow> string \<Rightarrow> bool" where
  "canManageMemberRole actorRole targetRole =
    (if actorRole = RoleOwner then True
     else if actorRole = RoleAdmin then targetRole = RoleEditor \<or> targetRole = RoleViewer
     else False)"

section \<open>API key scopes and slugs\<close>

definition allowed_scopes :: "string list" where
  "allowed_scopes = [''query'', ''sync'', ''root:delete'', ''api_keys:read'', ''api_keys:write'', ''acl:read'',
     ''acl:write'', ''org:admin'', ''read'', ''write'', ''admin'', ''*'']"

fun normalize_scopes_loop :: "string list \<Rightarrow> string list \<Rightarrow> string + string list" where
  "normalize_scopes_loop normalized [] = Inr normalized"
| "normalize_scopes_loop normalized (raw # rest) =
    (let scope = trim_space raw in
     if scope = [] then normalize_scopes_loop normalized rest
     else if scope \<notin> set allowed_scopes then Inl (''unsupported scope '' @ scope)
     else if scope \<in> set normalized then normalize_scopes_loop normalized rest
     else normalize_scopes_loop (normalized @ [scope]) rest)"

definition normalizeExplicitAPIKeyScopes :: "string list \<Rightarrow> string + string list" where
  "normalizeExplicitAPIKeyScopes scopes = (case normalize_scopes_loop [] scopes of
      Inl e \<Rightarrow> Inl e
    | Inr [] \<Rightarrow> Inl ''explicit scopes required''
    | Inr normalized \<Rightarrow> Inr normalized)"

text \<open>\<^verbatim>\<open>cleanSlug\<close>: the loop over the runes keeps the text written so far and whether it ends with a dash.\<close>

definition slug_step :: "string \<times> bool \<Rightarrow> char \<Rightarrow> string \<times> bool" where
  "slug_step st c = (case st of (b, previousDash) \<Rightarrow>
     if c \<in> set ''abcdefghijklmnopqrstuvwxyz'' \<or> c \<in> set ''0123456789'' then (b @ [c], False)
     else if c \<in> set ''-_ .'' \<and> \<not> previousDash \<and> b \<noteq> [] then (b @ ''-'', True)
     else (b, previousDash))"

definition trim_dashes :: "string \<Rightarrow> string" where
  "trim_dashes s = rev (dropWhile (\<lambda>c. c = CHR ''-'') (rev (dropWhile (\<lambda>c. c = CHR ''-'') s)))"

definition cleanSlug :: "string \<Rightarrow> string" where
  "cleanSlug raw = trim_dashes (fst (foldl slug_step ([], False) (to_lower (trim_space raw))))"

section \<open>Root permissions\<close>

definition RootScopeOrg :: string where "RootScopeOrg = ''org''"
definition RootScopeUser :: string where "RootScopeUser = ''user''"
definition RootScopeRestricted :: string where "RootScopeRestricted = ''restricted''"
definition PermRead :: string where "PermRead = ''read''"
definition PermSync :: string where "PermSync = ''sync''"
definition PermDelete :: string where "PermDelete = ''delete''"
definition PermAdmin :: string where "PermAdmin = ''admin''"

definition permission_order :: "string list" where
  "permission_order = [PermRead, PermSync, PermDelete, PermAdmin]"

definition parseRootScope :: "string \<Rightarrow> string + string" where
  "parseRootScope raw =
    (let s = trim_space raw; scope = (if s = [] then RootScopeOrg else s) in
     if scope \<in> {RootScopeOrg, RootScopeUser, RootScopeRestricted} then Inr scope
     else Inl ''scope must be org, user, or restricted'')"

text \<open>The \<^verbatim>\<open>map[string]bool\<close> of permissions is the set of the keys set to true.\<close>

definition addRootPermission :: "string set \<Rightarrow> string \<Rightarrow> string set" where
  "addRootPermission permissions permission =
    (let p = trim_space permission in
     if p = PermAdmin then permissions \<union> {PermRead, PermSync, PermDelete, PermAdmin}
     else if p = PermDelete then permissions \<union> {PermRead, PermDelete}
     else if p = PermSync then permissions \<union> {PermRead, PermSync}
     else if p = PermRead then permissions \<union> {PermRead}
     else permissions)"

definition sortedRootPermissions :: "string set \<Rightarrow> string list" where
  "sortedRootPermissions permissions = filter (\<lambda>p. p \<in> permissions) permission_order"

record root_grant_permissions =
  grant_principal_type :: string
  grant_permissions :: "string list"

text \<open>The closure \<^verbatim>\<open>add\<close> of \<^verbatim>\<open>effectiveRootPermissions\<close>: the permissions and the first source that gave any.\<close>

definition add_permissions :: "string set \<times> string \<Rightarrow> string \<Rightarrow> string list \<Rightarrow> string set \<times> string" where
  "add_permissions st nextSource perms =
    (foldl addRootPermission (fst st) perms, if snd st = [] \<and> perms \<noteq> [] then nextSource else snd st)"

definition base_permissions :: "string \<Rightarrow> string \<Rightarrow> string \<Rightarrow> string \<Rightarrow> string set \<times> string" where
  "base_permissions scope owner userID role =
    (if scope = [] \<or> scope = RootScopeOrg then
       (let st = add_permissions ({}, []) ''org'' [PermRead];
            st = (if HasMinRole role RoleEditor then add_permissions st ''role'' [PermSync] else st) in
        if HasMinRole role RoleAdmin then add_permissions st ''role'' [PermDelete, PermAdmin] else st)
     else if scope = RootScopeUser then
       (if owner = userID then add_permissions ({}, []) ''owner'' permission_order
        else if HasMinRole role RoleAdmin then add_permissions ({}, []) ''role'' permission_order
        else ({}, []))
     else if scope = RootScopeRestricted then
       (if HasMinRole role RoleAdmin then add_permissions ({}, []) ''role'' permission_order else ({}, []))
     else ({}, []))"

definition effectiveRootPermissions ::
  "string \<Rightarrow> string \<Rightarrow> string \<Rightarrow> string \<Rightarrow> root_grant_permissions list \<Rightarrow> string list \<times> string" where
  "effectiveRootPermissions scope owner userID role grants =
    (let st = foldl (\<lambda>st g. add_permissions st (grant_principal_type g) (grant_permissions g))
                (base_permissions scope owner userID role) grants
     in (sortedRootPermissions (fst st), snd st))"

definition rootPermissionAllowed :: "string list \<Rightarrow> string \<Rightarrow> bool" where
  "rootPermissionAllowed permissions action =
    list_ex (\<lambda>p. p = action \<or> p = PermAdmin \<or> (action = PermRead \<and> (p = PermSync \<or> p = PermDelete))) permissions"

fun grant_permissions_loop :: "string set \<Rightarrow> string list \<Rightarrow> string + string set" where
  "grant_permissions_loop seen [] = Inr seen"
| "grant_permissions_loop seen (value # rest) =
    (let p = trim_space value in
     if p \<in> {PermRead, PermSync, PermDelete, PermAdmin} then grant_permissions_loop (insert p seen) rest
     else if p = [] then grant_permissions_loop seen rest
     else Inl (''unsupported root permission '' @ p))"

definition normalizeRootGrantPermissions :: "string list \<Rightarrow> string + string list" where
  "normalizeRootGrantPermissions raw =
    (if raw = [] then Inl ''permissions are required''
     else case grant_permissions_loop {} raw of
        Inl e \<Rightarrow> Inl e
      | Inr seen \<Rightarrow> if seen = {} then Inl ''permissions are required''
                     else Inr (sortedRootPermissions seen))"

section \<open>Folder rules\<close>

record root_acl =
  acl_id :: string
  acl_org :: string
  acl_root :: string
  acl_prefix :: string
  acl_grant_to :: string
  acl_permission :: string

text \<open>\<^verbatim>\<open>checkPermission\<close>: the loop returns false at the first matching rule; its last argument is unused.\<close>

fun checkPermission :: "root_acl list \<Rightarrow> string \<Rightarrow> string \<Rightarrow> bool" where
  "checkPermission [] filePath perm = True"
| "checkPermission (acl # acls) filePath perm =
    (if acl_permission acl = ''none'' \<and> has_prefix (''/'' @ filePath) (acl_prefix acl) then False
     else checkPermission acls filePath perm)"

text \<open>The targets that a folder rule can name to apply to a user (\<^verbatim>\<open>getACLsForUser\<close>).\<close>

definition acl_targets :: "string \<Rightarrow> string \<Rightarrow> string list" where
  "acl_targets userID role = [userID, ''user:'' @ userID, ''role:'' @ role, ''*'']"

section \<open>Lemmas on roles and scopes\<close>

lemma role_distinct [simp]:
  "RoleOwner \<noteq> RoleAdmin" "RoleOwner \<noteq> RoleEditor" "RoleOwner \<noteq> RoleViewer" "RoleAdmin \<noteq> RoleOwner"
  "RoleAdmin \<noteq> RoleEditor" "RoleAdmin \<noteq> RoleViewer" "RoleEditor \<noteq> RoleOwner" "RoleEditor \<noteq> RoleAdmin"
  "RoleEditor \<noteq> RoleViewer" "RoleViewer \<noteq> RoleOwner" "RoleViewer \<noteq> RoleAdmin" "RoleViewer \<noteq> RoleEditor"
  "RoleOwner \<noteq> []" "[] \<noteq> RoleOwner" "RoleAdmin \<noteq> []" "[] \<noteq> RoleAdmin" "RoleEditor \<noteq> []" "[] \<noteq> RoleEditor" "RoleViewer \<noteq> []" "[] \<noteq> RoleViewer"
  by code_simp+

lemma scope_distinct [simp]:
  "RootScopeOrg \<noteq> RootScopeUser" "RootScopeOrg \<noteq> RootScopeRestricted" "RootScopeUser \<noteq> RootScopeOrg" "RootScopeUser \<noteq> RootScopeRestricted"
  "RootScopeRestricted \<noteq> RootScopeOrg" "RootScopeRestricted \<noteq> RootScopeUser" "RootScopeOrg \<noteq> []" "[] \<noteq> RootScopeOrg" "RootScopeUser \<noteq> []" "[] \<noteq> RootScopeUser"
  "RootScopeRestricted \<noteq> []" "[] \<noteq> RootScopeRestricted"
  by code_simp+

lemma permission_distinct [simp]:
  "PermRead \<noteq> PermSync" "PermRead \<noteq> PermDelete" "PermRead \<noteq> PermAdmin" "PermSync \<noteq> PermRead"
  "PermSync \<noteq> PermDelete" "PermSync \<noteq> PermAdmin" "PermDelete \<noteq> PermRead" "PermDelete \<noteq> PermSync"
  "PermDelete \<noteq> PermAdmin" "PermAdmin \<noteq> PermRead" "PermAdmin \<noteq> PermSync" "PermAdmin \<noteq> PermDelete"
  "PermRead \<noteq> []" "[] \<noteq> PermRead" "PermSync \<noteq> []" "[] \<noteq> PermSync" "PermDelete \<noteq> []" "[] \<noteq> PermDelete" "PermAdmin \<noteq> []" "[] \<noteq> PermAdmin"
  by code_simp+

lemma HasMinRole_refl [simp]: "HasMinRole r r"
  by (simp add: HasMinRole_def)

lemma HasMinRole_trans: "HasMinRole a b \<Longrightarrow> HasMinRole b c \<Longrightarrow> HasMinRole a c"
  by (simp add: HasMinRole_def)

lemma roleLevel_simps [simp]:
  "roleLevel RoleOwner = 4" "roleLevel RoleAdmin = 3" "roleLevel RoleEditor = 2" "roleLevel RoleViewer = 1"
  by (simp_all add: roleLevel_def)

lemma HasMinRole_admin: "HasMinRole r RoleAdmin \<longleftrightarrow> r = RoleOwner \<or> r = RoleAdmin"
  by (auto simp: HasMinRole_def roleLevel_def)

lemma HasMinRole_editor: "HasMinRole r RoleEditor \<longleftrightarrow> r \<in> {RoleOwner, RoleAdmin, RoleEditor}"
  by (auto simp: HasMinRole_def roleLevel_def)

text \<open>
  nobody hands out or touches a role above their own: a role that \<^verbatim>\<open>canAssignRole\<close> allows is
  at most the actor's, only an owner can make an owner or an admin, and only an owner can
  manage a member whose role is not below admin.
\<close>

theorem canAssignRole_no_escalation:
  "(canAssignRole a t \<longrightarrow> HasMinRole a t \<and> HasMinRole a RoleAdmin \<and> (HasMinRole t RoleAdmin \<longrightarrow> a = RoleOwner))
   \<and> (canManageMemberRole a t \<longrightarrow> HasMinRole a RoleAdmin \<and> (HasMinRole t RoleAdmin \<longrightarrow> a = RoleOwner))"
  by (auto simp: canAssignRole_def canManageMemberRole_def HasMinRole_def roleLevel_def)

theorem canAssignRole_no_escalation_witness:
  "canAssignRole RoleAdmin RoleEditor \<and> HasMinRole RoleAdmin RoleEditor \<and> \<not> canAssignRole RoleAdmin RoleOwner"
  using canAssignRole_no_escalation[of RoleAdmin RoleEditor] canAssignRole_no_escalation[of RoleAdmin RoleOwner]
  by (auto simp: canAssignRole_def HasMinRole_admin)

lemma normalize_scopes_loop_Inr:
  assumes "normalize_scopes_loop acc xs = Inr ys" "distinct acc" "set acc \<subseteq> set allowed_scopes"
  shows "distinct ys \<and> set ys = set acc \<union> (trim_space ` set xs - {[]}) \<and> set ys \<subseteq> set allowed_scopes"
  using assms
proof (induction acc xs rule: normalize_scopes_loop.induct)
  case (2 acc raw rest)
  let ?s = "trim_space raw"
  consider "?s = []" | "?s \<noteq> []" "?s \<in> set allowed_scopes" "?s \<in> set acc"
    | "?s \<noteq> []" "?s \<in> set allowed_scopes" "?s \<notin> set acc"
    using "2.prems"(1) by (auto simp: Let_def split: if_splits)
  then show ?case
  proof cases
    case 1
    then show ?thesis using "2.IH"(1)[of ?s] "2.prems" by auto
  next
    case b: 2
    then show ?thesis using "2.IH"(2)[of ?s] "2.prems" by auto
  next
    case 3
    then show ?thesis using "2.IH"(3)[of ?s] "2.prems" by auto
  qed
qed auto

text \<open>
  C27: the scopes of a key created through the API are explicit: the normalised list is not
  empty (an empty list would mean an unrestricted key to \<^verbatim>\<open>HasScope\<close>), has no duplicates,
  holds exactly the requested scopes and nothing outside the supported ones.
\<close>

theorem normalizeExplicitAPIKeyScopes_explicit:
  assumes "normalizeExplicitAPIKeyScopes scopes = Inr ys"
  shows "ys \<noteq> [] \<and> distinct ys \<and> set ys = trim_space ` set scopes - {[]} \<and> set ys \<subseteq> set allowed_scopes"
  using assms normalize_scopes_loop_Inr[of "[]" scopes]
  by (auto simp: normalizeExplicitAPIKeyScopes_def split: sum.splits list.splits)

theorem normalizeExplicitAPIKeyScopes_explicit_witness:
  "normalizeExplicitAPIKeyScopes ['' sync'', ''query'', [], ''sync''] = Inr [''sync'', ''query''] \<and> distinct [''sync'', ''query'']"
proof -
  have run: "normalizeExplicitAPIKeyScopes ['' sync'', ''query'', [], ''sync''] = Inr [''sync'', ''query'']" by code_simp
  from normalizeExplicitAPIKeyScopes_explicit[OF run] run show ?thesis by blast
qed

section \<open>Lemmas on slugs\<close>

definition slug_chars :: "char set" where
  "slug_chars = set ''abcdefghijklmnopqrstuvwxyz'' \<union> set ''0123456789''"

text \<open>What the loop writes: letters, digits and single dashes, never a dash first.\<close>

definition slug_shape :: "string \<times> bool \<Rightarrow> bool" where
  "slug_shape st \<longleftrightarrow> (case st of (b, d) \<Rightarrow> set b \<subseteq> insert CHR ''-'' slug_chars
     \<and> (b \<noteq> [] \<longrightarrow> hd b \<noteq> CHR ''-'') \<and> (d \<longleftrightarrow> b \<noteq> [] \<and> last b = CHR ''-'')
     \<and> (\<forall>u v. b \<noteq> u @ ''--'' @ v))"

lemma dash_not_slug_char [simp]: "CHR ''-'' \<notin> slug_chars"
  by (simp add: slug_chars_def)

lemma no_double_snoc:
  assumes "\<forall>u v. b \<noteq> u @ ''--'' @ v" "c \<noteq> CHR ''-'' \<or> b = [] \<or> last b \<noteq> CHR ''-''"
  shows "b @ [c] \<noteq> u @ ''--'' @ v"
proof
  assume eq: "b @ [c] = u @ ''--'' @ v"
  show False
  proof (cases v rule: rev_cases)
    case Nil
    then have "b = u @ ''-''" "c = CHR ''-''" using eq by auto
    then show False using assms(2) by auto
  next
    case (snoc w x)
    then show False using eq assms(1) by auto
  qed
qed

lemma slug_step_alt:
  "slug_step (b, d) c = (if c \<in> slug_chars then (b @ [c], False)
     else if c \<in> set ''-_ .'' \<and> \<not> d \<and> b \<noteq> [] then (b @ ''-'', True) else (b, d))"
  unfolding slug_step_def slug_chars_def Un_iff by (rule prod.case)

lemma slug_step_shape: "slug_shape st \<Longrightarrow> slug_shape (slug_step st c)"
proof -
  assume st: "slug_shape st"
  obtain b d where bd: "st = (b, d)" by (cases st)
  consider "c \<in> slug_chars" | "c \<notin> slug_chars" "c \<in> set ''-_ .''" "\<not> d" "b \<noteq> []" | "slug_step st c = st"
    unfolding bd slug_step_alt by presburger
  then show ?thesis
  proof cases
    case 1
    then have "slug_step st c = (b @ [c], False)" and "c \<noteq> CHR ''-''"
      using dash_not_slug_char by (auto simp only: bd slug_step_alt if_True)
    with st 1 bd show ?thesis using no_double_snoc[of b c]
      by (auto simp: slug_shape_def hd_append)
  next
    case 2
    then have "slug_step st c = (b @ ''-'', True)"
      unfolding bd slug_step_alt by presburger
    moreover have "\<forall>u v. b @ ''-'' \<noteq> u @ ''--'' @ v"
      using st bd 2 no_double_snoc[of b "CHR ''-''"] by (auto simp: slug_shape_def)
    ultimately show ?thesis using st bd 2(4) by (auto simp: slug_shape_def hd_append)
  qed (use st in simp)
qed

lemma slug_fold_shape: "slug_shape st \<Longrightarrow> slug_shape (foldl slug_step st cs)"
proof (induction cs arbitrary: st)
  case (Cons c cs)
  show ?case using Cons.IH[OF slug_step_shape[OF Cons.prems]] by simp
qed simp

lemma trim_dashes_sublist: "\<exists>u v. s = u @ trim_dashes s @ v"
proof -
  define t where "t = dropWhile (\<lambda>c. c = CHR ''-'') s"
  have "s = takeWhile (\<lambda>c. c = CHR ''-'') s @ t" by (simp add: t_def)
  moreover have "rev t = takeWhile (\<lambda>c. c = CHR ''-'') (rev t) @ dropWhile (\<lambda>c. c = CHR ''-'') (rev t)" by simp
  then have "t = trim_dashes s @ rev (takeWhile (\<lambda>c. c = CHR ''-'') (rev t))"
    unfolding trim_dashes_def t_def[symmetric] by (metis rev_append rev_rev_ident)
  ultimately show ?thesis by metis
qed

lemma trim_dashes_ends:
  "trim_dashes s \<noteq> [] \<Longrightarrow> hd (trim_dashes s) \<noteq> CHR ''-'' \<and> last (trim_dashes s) \<noteq> CHR ''-''"
proof -
  assume ne: "trim_dashes s \<noteq> []"
  define t where "t = dropWhile (\<lambda>c. c = CHR ''-'') s"
  have last: "last (trim_dashes s) \<noteq> CHR ''-''"
    using ne hd_dropWhile[of "\<lambda>c. c = CHR ''-''" "rev t"]
    by (simp add: trim_dashes_def t_def[symmetric] last_rev)
  have "t = trim_dashes s @ rev (takeWhile (\<lambda>c. c = CHR ''-'') (rev t))"
    unfolding trim_dashes_def t_def[symmetric] by (metis rev_append rev_rev_ident takeWhile_dropWhile_id)
  then have "hd (trim_dashes s) = hd t" "t \<noteq> []" using ne by (metis hd_append2, metis append_is_Nil_conv)
  then have "hd (trim_dashes s) \<noteq> CHR ''-''" using hd_dropWhile[of "\<lambda>c. c = CHR ''-''" s] by (simp add: t_def)
  with last show ?thesis by simp
qed

text \<open>
  an organisation slug is URL-safe: only lower-case letters, digits and dashes, no dash at
  either end and never two dashes in a row.
\<close>

theorem cleanSlug_shape:
  "set (cleanSlug raw) \<subseteq> insert CHR ''-'' slug_chars
   \<and> (cleanSlug raw \<noteq> [] \<longrightarrow> hd (cleanSlug raw) \<noteq> CHR ''-'' \<and> last (cleanSlug raw) \<noteq> CHR ''-'')
   \<and> (\<forall>u v. cleanSlug raw \<noteq> u @ ''--'' @ v)"
proof -
  define b where "b = fst (foldl slug_step ([], False) (to_lower (trim_space raw)))"
  have "slug_shape ([], False)" by (simp add: slug_shape_def)
  then have "slug_shape (foldl slug_step ([], False) (to_lower (trim_space raw)))" by (rule slug_fold_shape)
  then have b: "set b \<subseteq> insert CHR ''-'' slug_chars" "\<forall>u v. b \<noteq> u @ ''--'' @ v"
    by (auto simp: b_def slug_shape_def split: prod.splits)
  have c: "cleanSlug raw = trim_dashes b" by (simp add: cleanSlug_def b_def)
  obtain u v where uv: "b = u @ trim_dashes b @ v" using trim_dashes_sublist by blast
  have "trim_dashes b \<noteq> x @ ''--'' @ y" for x y
  proof
    assume "trim_dashes b = x @ ''--'' @ y"
    with uv have "b = (u @ x) @ ''--'' @ (y @ v)" by (metis append.assoc)
    with b(2) show False by blast
  qed
  moreover have "set (trim_dashes b) \<subseteq> set b" using uv by (metis Un_iff set_append subsetI)
  ultimately show ?thesis using b(1) trim_dashes_ends[of b] unfolding c by blast
qed

theorem cleanSlug_shape_witness:
  "cleanSlug '' Acme_Corp. (EU) '' = ''acme-corp-eu'' \<and> hd (cleanSlug '' Acme_Corp. (EU) '') \<noteq> CHR ''-''"
proof -
  have run: "cleanSlug '' Acme_Corp. (EU) '' = ''acme-corp-eu''" by code_simp
  then have "cleanSlug '' Acme_Corp. (EU) '' \<noteq> []" by simp
  with cleanSlug_shape[of "'' Acme_Corp. (EU) ''"] run show ?thesis by blast
qed

section \<open>The permission policy\<close>

text \<open>What holding one permission lets the holder do.\<close>

definition permission_implies :: "string \<Rightarrow> string \<Rightarrow> bool" where
  "permission_implies p action \<longleftrightarrow> p \<in> set permission_order \<and> action \<in> set permission_order
     \<and> (p = action \<or> p = PermAdmin \<or> action = PermRead)"

text \<open>The abstract policy: what the role and the ownership give, and what the grants add.\<close>

definition scope_allows :: "string \<Rightarrow> string \<Rightarrow> string \<Rightarrow> string \<Rightarrow> string \<Rightarrow> bool" where
  "scope_allows scope owner userID role action \<longleftrightarrow> action \<in> set permission_order \<and>
    (if scope = [] \<or> scope = RootScopeOrg then
       action = PermRead \<or> action = PermSync \<and> HasMinRole role RoleEditor \<or> HasMinRole role RoleAdmin
     else if scope = RootScopeUser then owner = userID \<or> HasMinRole role RoleAdmin
     else if scope = RootScopeRestricted then HasMinRole role RoleAdmin
     else False)"

definition policy_allows ::
  "string \<Rightarrow> string \<Rightarrow> string \<Rightarrow> string \<Rightarrow> root_grant_permissions list \<Rightarrow> string \<Rightarrow> bool" where
  "policy_allows scope owner userID role grants action \<longleftrightarrow> scope_allows scope owner userID role action
     \<or> (\<exists>g\<in>set grants. \<exists>p\<in>set (grant_permissions g). permission_implies (trim_space p) action)"

lemma in_permission_order [simp]:
  "p \<in> set permission_order \<longleftrightarrow> p = PermRead \<or> p = PermSync \<or> p = PermDelete \<or> p = PermAdmin"
  by (simp add: permission_order_def)

lemma trim_space_permission [simp]:
  "trim_space PermRead = PermRead" "trim_space PermSync = PermSync"
  "trim_space PermDelete = PermDelete" "trim_space PermAdmin = PermAdmin"
  by code_simp+

lemma addRootPermission_eq: "addRootPermission S p = S \<union> {a. permission_implies (trim_space p) a}"
  by (auto simp: addRootPermission_def permission_implies_def Let_def)

lemma foldl_addRootPermission:
  "foldl addRootPermission S ps = S \<union> {a. \<exists>p\<in>set ps. permission_implies (trim_space p) a}"
  by (induction ps arbitrary: S) (auto simp: addRootPermission_eq)

lemma foldl_add_grants:
  "fst (foldl (\<lambda>st g. add_permissions st (grant_principal_type g) (grant_permissions g)) st gs) =
   fst st \<union> {a. \<exists>g\<in>set gs. \<exists>p\<in>set (grant_permissions g). permission_implies (trim_space p) a}"
proof (induction gs arbitrary: st)
  case (Cons g gs)
  show ?case
    unfolding foldl_Cons Cons.IH by (auto simp: add_permissions_def foldl_addRootPermission)
qed simp

lemma add_permissions_fst:
  "fst (add_permissions st src ps) = fst st \<union> {a. \<exists>p\<in>set ps. permission_implies (trim_space p) a}"
  by (simp add: add_permissions_def foldl_addRootPermission)

lemma base_permissions_eq: "fst (base_permissions scope owner userID role) = {a. scope_allows scope owner userID role a}"
proof -
  consider "scope = [] \<or> scope = RootScopeOrg" | "scope = RootScopeUser" | "scope = RootScopeRestricted"
    | "scope \<notin> {[], RootScopeOrg, RootScopeUser, RootScopeRestricted}" by blast
  then show ?thesis
  proof cases
    case 1
    then show ?thesis
      by (auto simp: base_permissions_def scope_allows_def add_permissions_fst permission_implies_def
          HasMinRole_admin HasMinRole_editor Let_def)
  qed (auto simp: base_permissions_def scope_allows_def add_permissions_fst permission_implies_def permission_order_def)
qed

lemma permission_implies_trans:
  "permission_implies p q \<Longrightarrow> permission_implies q a \<Longrightarrow> permission_implies p a"
  by (auto simp: permission_implies_def)

lemma scope_allows_closed:
  "scope_allows scope owner userID role p \<Longrightarrow> permission_implies p a \<Longrightarrow> scope_allows scope owner userID role a"
proof -
  assume allowed: "scope_allows scope owner userID role p" and pa: "permission_implies p a"
  have a: "a \<in> set permission_order" "p = a \<or> p = PermAdmin \<or> a = PermRead"
    using pa unfolding permission_implies_def by blast+
  show ?thesis
  proof (cases "scope = [] \<or> scope = RootScopeOrg")
    case True
    with allowed a show ?thesis unfolding scope_allows_def by auto
  next
    case False
    with allowed a(1) show ?thesis unfolding scope_allows_def by presburger
  qed
qed

lemma policy_allows_closed:
  "policy_allows scope owner userID role grants p \<Longrightarrow> permission_implies p a \<Longrightarrow> policy_allows scope owner userID role grants a"
  unfolding policy_allows_def using scope_allows_closed permission_implies_trans by blast

lemma policy_allows_order:
  "policy_allows scope owner userID role grants a \<Longrightarrow> a \<in> set permission_order"
  unfolding policy_allows_def permission_implies_def scope_allows_def by blast

lemma effectiveRootPermissions_set:
  "set (fst (effectiveRootPermissions scope owner userID role grants)) = {a. policy_allows scope owner userID role grants a}"
proof -
  have "set (fst (effectiveRootPermissions scope owner userID role grants))
      = {a \<in> set permission_order. policy_allows scope owner userID role grants a}"
    unfolding effectiveRootPermissions_def Let_def fst_conv foldl_add_grants sortedRootPermissions_def base_permissions_eq
      policy_allows_def set_filter by blast
  then show ?thesis using policy_allows_order by blast
qed

lemma rootPermissionAllowed_policy:
  assumes "action \<in> set permission_order"
  shows "rootPermissionAllowed (fst (effectiveRootPermissions scope owner userID role grants)) action
    \<longleftrightarrow> policy_allows scope owner userID role grants action"
proof -
  let ?P = "fst (effectiveRootPermissions scope owner userID role grants)"
  have "rootPermissionAllowed ?P action \<longleftrightarrow> (\<exists>p\<in>set ?P. permission_implies p action)"
    using assms policy_allows_order
    unfolding rootPermissionAllowed_def list_ex_iff effectiveRootPermissions_set
    by (fastforce simp: permission_implies_def)
  also have "\<dots> \<longleftrightarrow> policy_allows scope owner userID role grants action"
    unfolding effectiveRootPermissions_set using assms policy_allows_closed
    by (fastforce simp: permission_implies_def)
  finally show ?thesis .
qed

text \<open>
  C26: the permission list that \<^verbatim>\<open>effectiveRootPermissions\<close> computes, tested by
  \<^verbatim>\<open>rootPermissionAllowed\<close>, implements the abstract policy: an action is allowed exactly when the
  scope of the root allows it to the role or owner, or a grant of the user holds a permission that
  implies it (admin implies everything, every permission implies read).
\<close>

theorem rootPermissionAllowed_refines_policy:
  assumes "action \<in> set permission_order"
  shows "rootPermissionAllowed (fst (effectiveRootPermissions scope owner userID role grants)) action
    \<longleftrightarrow> policy_allows scope owner userID role grants action"
  using assms by (rule rootPermissionAllowed_policy)

theorem rootPermissionAllowed_refines_policy_witness:
  "rootPermissionAllowed (fst (effectiveRootPermissions RootScopeRestricted [] ''u'' RoleViewer
      [\<lparr>grant_principal_type = ''group'', grant_permissions = ['' sync '']\<rparr>])) PermRead"
proof -
  have "policy_allows RootScopeRestricted [] ''u'' RoleViewer
      [\<lparr>grant_principal_type = ''group'', grant_permissions = ['' sync '']\<rparr>] PermRead"
    by code_simp
  moreover have "PermRead \<in> set permission_order" by simp
  ultimately show ?thesis using rootPermissionAllowed_refines_policy by blast
qed

text \<open>
  a higher role never loses a permission, and neither does a user who receives more grants.
\<close>

theorem effectiveRootPermissions_mono:
  assumes "HasMinRole role' role" "set grants \<subseteq> set grants'"
  shows "set (fst (effectiveRootPermissions scope owner userID role grants))
    \<subseteq> set (fst (effectiveRootPermissions scope owner userID role' grants'))"
proof -
  have "scope_allows scope owner userID role a \<Longrightarrow> scope_allows scope owner userID role' a" for a
    by (auto simp: scope_allows_def dest: HasMinRole_trans[OF assms(1)] split: if_splits)
  with assms(2) show ?thesis unfolding effectiveRootPermissions_set policy_allows_def by blast
qed

theorem effectiveRootPermissions_mono_witness:
  "set (fst (effectiveRootPermissions RootScopeOrg [] ''u'' RoleViewer []))
    \<subseteq> set (fst (effectiveRootPermissions RootScopeOrg [] ''u'' RoleEditor []))"
  by (rule effectiveRootPermissions_mono) (simp_all add: HasMinRole_def)

section \<open>Deny rules as an interface\<close>

text \<open>
  The contract of a list of deny rules: a path passes when no rule blocks it.  Clients rely
  on nothing else, in particular not on an order of the rules.
\<close>

locale deny_rules =
  fixes blocked :: "'rule \<Rightarrow> 'path \<Rightarrow> bool"
    and passes :: "'rule list \<Rightarrow> 'path \<Rightarrow> bool"
  assumes passes_none: "passes [] p"
    and passes_more: "passes (r # rs) p \<longleftrightarrow> \<not> blocked r p \<and> passes rs p"
begin

lemma passes_iff: "passes rs p \<longleftrightarrow> (\<forall>r\<in>set rs. \<not> blocked r p)"
  by (induction rs) (auto simp: passes_none passes_more)

lemma passes_same_set: "set rs = set rs' \<Longrightarrow> passes rs p = passes rs' p"
  by (simp add: passes_iff)

lemma passes_antimono: "set rs \<subseteq> set rs' \<Longrightarrow> passes rs' p \<Longrightarrow> passes rs p"
  by (auto simp: passes_iff)

lemma passes_append: "passes (rs @ rs') p \<longleftrightarrow> passes rs p \<and> passes rs' p"
  by (auto simp: passes_iff)

end

definition acl_blocks :: "root_acl \<Rightarrow> string \<Rightarrow> bool" where
  "acl_blocks acl filePath \<longleftrightarrow> acl_permission acl = ''none'' \<and> has_prefix (''/'' @ filePath) (acl_prefix acl)"

interpretation folder: deny_rules acl_blocks "\<lambda>acls p. checkPermission acls p perm" for perm
  by unfold_locales (auto simp: acl_blocks_def)

text \<open>The elements of the directory that a rule's prefix names.\<close>

definition prefix_parts :: "string \<Rightarrow> string list" where
  "prefix_parts pre = filter (\<lambda>p. p \<noteq> []) (split_on slash pre)"

lemma prefix_parts_of_parts: "list_all plain_part ps \<Longrightarrow> prefix_parts (prefix_of_parts ps) = ps"
proof (cases "ps = []")
  case False
  assume plain: "list_all plain_part ps"
  have "slash # join_with slash ps @ ''/'' = join_with slash ([] # ps @ [[]])"
  proof -
    have "join_with slash (qs @ [[]]) = join_with slash qs @ ''/''" if "qs \<noteq> []" for qs
      using that by (induction slash qs rule: join_with.induct) auto
    then have "join_with slash (([] # ps) @ [[]]) = join_with slash ([] # ps) @ ''/''" by blast
    with False show ?thesis by (cases ps) auto
  qed
  moreover have "split_on slash (join_with slash ([] # ps @ [[]])) = [] # ps @ [[]]"
    using plain_part_nonempty[OF plain] by (intro split_join) auto
  moreover have "filter (\<lambda>p. p \<noteq> []) ps = ps"
    using plain_part_nonempty[OF plain] by (auto simp: filter_id_conv)
  ultimately show ?thesis using False by (simp add: prefix_parts_def prefix_of_parts_def)
qed (simp add: prefix_parts_def prefix_of_parts_def)

lemma checkPermission_elements:
  assumes "inside_root path"
    and "\<forall>a\<in>set acls. \<exists>raw. cleanPathPrefix raw = Inr (acl_prefix a)"
  shows "checkPermission acls path perm \<longleftrightarrow>
    (\<forall>a\<in>set acls. acl_permission a = ''none'' \<longrightarrow> \<not> strict_prefix (prefix_parts (acl_prefix a)) (split_on slash path))"
proof -
  define ps where "ps = split_on slash path"
  have ps: "ps \<noteq> []" "list_all plain_part ps" "path = join_with slash ps"
    using assms(1) by (simp_all add: ps_def inside_root_def)
  have "has_prefix (''/'' @ path) (acl_prefix a) \<longleftrightarrow> strict_prefix (prefix_parts (acl_prefix a)) ps"
    if a: "a \<in> set acls" for a
  proof -
    obtain raw where raw: "cleanPathPrefix raw = Inr (acl_prefix a)"
      using bspec[OF assms(2) a] by (elim exE)
    then have "nul \<notin> set raw" using cleanPathPrefix_nul[of raw] by (metis sum.distinct(1))
    then obtain qs where "list_all plain_part qs" "acl_prefix a = prefix_of_parts qs"
      using cleanPathPrefix_parts[of raw] raw by (metis sum.inject(2))
    then show ?thesis using prefix_of_parts_matches[OF ps(2) _ ps(1), of qs] ps(3) prefix_parts_of_parts by simp
  qed
  then show ?thesis unfolding folder.passes_iff acl_blocks_def ps_def[symmetric] by blast
qed

text \<open>
  A folder rule denies whole directories: for a captured path and rules whose prefixes come
  from \<^verbatim>\<open>cleanPathPrefix\<close>, access is denied exactly when the elements of some rule's directory
  are a proper prefix of the elements of the path (so a rule on \<^verbatim>\<open>/sec\<close> does not touch
  \<^verbatim>\<open>secrets/x\<close>), whatever the order of the rules.
\<close>

theorem checkPermission_by_elements:
  assumes "inside_root path"
    and "\<forall>a\<in>set acls. \<exists>raw. cleanPathPrefix raw = Inr (acl_prefix a)"
  shows "checkPermission acls path perm \<longleftrightarrow>
    (\<forall>a\<in>set acls. acl_permission a = ''none'' \<longrightarrow> \<not> strict_prefix (prefix_parts (acl_prefix a)) (split_on slash path))"
  using assms by (rule checkPermission_elements)

theorem checkPermission_by_elements_witness:
  "checkPermission [\<lparr>acl_id = ''a'', acl_org = ''o'', acl_root = ''r'', acl_prefix = ''/sec/'', acl_grant_to = ''*'',
      acl_permission = ''none''\<rparr>] ''secrets/x'' PermRead"
proof -
  have inside: "inside_root ''secrets/x''" by code_simp
  have clean: "cleanPathPrefix ''sec'' = Inr ''/sec/''" by code_simp
  have parts: "\<not> strict_prefix (prefix_parts ''/sec/'') (split_on slash ''secrets/x'')" by code_simp
  show ?thesis
    by (subst checkPermission_by_elements) (use inside clean parts in auto)
qed

end
