(* ===== verification/Source_Manifest.thy ===== *)
theory Source_Manifest
  imports Go_Prelude
begin

text \<open>
  Source manifests (\<^verbatim>\<open>pkg/models/source.go\<close>, \<^verbatim>\<open>internal/sourcecapture\<close>): the description of the
  exact bytes of one captured file as a sequence of extents of immutable objects, its
  validation, the reader that opens the extents lazily and verifies the hash of all the
  bytes at the end, and the verification of an unchanged prefix.

  SHA-256 is a parameter \<open>sha\<close> (bytes to the lower-case hexadecimal digest), a hash object is
  the list of the bytes written to it.  The object store is a parameter too: \<open>open_range\<close>
  opens a stream and \<open>sread\<close>, \<open>sclose\<close> are the methods of the stream.
\<close>

type_synonym bytes = string

record source_extent =
  object_key :: string
  offset :: int
  extent_length :: int

record source_manifest =
  manifest_format :: int
  content_hash :: string
  manifest_size :: int
  extents :: "source_extent list"

datatype manifest_error = UnsupportedManifest | NonCanonicalHash | InvalidDigest | InvalidExtent | ExtentsDoNotCover

section \<open>Validation\<close>

fun check_extents :: "int \<Rightarrow> source_extent list \<Rightarrow> manifest_error + int" where
  "check_extents remaining [] = Inr remaining"
| "check_extents remaining (e # es) =
    (if object_key e = [] \<or> offset e < 0 \<or> extent_length e \<le> 0 \<or> extent_length e > remaining
        \<or> offset e > wrap64 (max_int64 - extent_length e)
     then Inl InvalidExtent
     else check_extents (wrap64 (remaining - extent_length e)) es)"

definition ValidateManifest :: "source_manifest \<Rightarrow> manifest_error + unit" where
  "ValidateManifest m =
    (if manifest_format m \<noteq> 1 \<or> manifest_size m < 0 then Inl UnsupportedManifest
     else let digest = trim_prefix (content_hash m) ''sha256:'' in
       if length digest \<noteq> 64 \<or> content_hash m \<noteq> ''sha256:'' @ to_lower digest then Inl NonCanonicalHash
       else if \<not> hex_decodes digest then Inl InvalidDigest
       else (case check_extents (manifest_size m) (extents m) of
           Inl e \<Rightarrow> Inl e
         | Inr remaining \<Rightarrow> if remaining \<noteq> 0 then Inl ExtentsDoNotCover else Inr ()))"

section \<open>The verifying reader\<close>

datatype io_error = EOF | UnexpectedEOF | ReaderClosed | HashMismatch | IOFailure string

record 's manifest_reader =
  reader_index :: nat
  reader_current :: "'s option"
  reader_remaining :: int
  reader_closed :: bool
  reader_terminal :: "io_error option"
  reader_digest :: bytes
  reader_ticks :: nat

text \<open>\<^verbatim>\<open>OpenManifest\<close>: the fresh reader of a valid manifest.\<close>

definition OpenManifest :: "source_manifest \<Rightarrow> manifest_error + 's manifest_reader" where
  "OpenManifest m = (case ValidateManifest m of
      Inl e \<Rightarrow> Inl e
    | Inr _ \<Rightarrow> Inr \<lparr>reader_index = 0, reader_current = None, reader_remaining = 0, reader_closed = False,
        reader_terminal = None, reader_digest = [], reader_ticks = 0\<rparr>)"

text \<open>
  The loop of \<^verbatim>\<open>manifestReader.Read\<close> for a buffer of \<open>n > 0\<close> bytes.  One round either ends
  with the bytes read and the error returned, or (no byte and no error) goes on; a stream
  that never makes progress makes the loop run forever, which is the value None.  The
  context's error is polled once a round.
\<close>

definition ensure_open ::
  "(string \<Rightarrow> int \<Rightarrow> int \<Rightarrow> io_error + 's) \<Rightarrow> (bytes \<Rightarrow> string) \<Rightarrow> source_manifest
    \<Rightarrow> 's manifest_reader \<Rightarrow> io_error \<times> 's manifest_reader + 's \<times> 's manifest_reader" where
  "ensure_open open_range sha m r = (case reader_current r of
      Some s \<Rightarrow> Inr (s, r)
    | None \<Rightarrow>
        if reader_index r = length (extents m) then
          (let e = (if ''sha256:'' @ sha (reader_digest r) \<noteq> content_hash m then HashMismatch else EOF) in
           Inl (e, r\<lparr>reader_terminal := Some e\<rparr>))
        else let x = extents m ! reader_index r in
          (case open_range (object_key x) (offset x) (extent_length x) of
             Inl e \<Rightarrow> Inl (e, r\<lparr>reader_terminal := Some e\<rparr>)
           | Inr s \<Rightarrow> Inr (s, r\<lparr>reader_current := Some s, reader_index := reader_index r + 1,
                reader_remaining := extent_length x\<rparr>)))"

text \<open>The rest of a round: read from the open extent, account for the bytes, close it at its end.\<close>

definition read_extent ::
  "('s \<Rightarrow> int \<Rightarrow> bytes \<times> io_error option \<times> 's) \<Rightarrow> ('s \<Rightarrow> io_error option) \<Rightarrow> nat
    \<Rightarrow> 's \<Rightarrow> 's manifest_reader \<Rightarrow> bytes \<times> io_error option \<times> 's manifest_reader" where
  "read_extent sread sclose n s r =
    (let (bs, err0, s') = sread s (min (int n) (reader_remaining r));
         remaining = wrap64 (reader_remaining r - int (length bs));
         err1 = (if err0 = Some EOF \<and> remaining > 0 then Some UnexpectedEOF else err0);
         finished = (remaining = 0);
         err2 = (if finished then
                   (let e = (if err1 = Some EOF then None else err1) in
                    if e = None then sclose s' else e)
                 else err1);
         r' = r\<lparr>reader_remaining := remaining, reader_digest := reader_digest r @ bs,
                reader_current := (if finished then None else Some s'),
                reader_terminal := (if err2 \<noteq> None then err2 else reader_terminal r)\<rparr>
     in (bs, err2, r'))"

partial_function (option) read_loop ::
  "(nat \<Rightarrow> io_error option) \<Rightarrow> (string \<Rightarrow> int \<Rightarrow> int \<Rightarrow> io_error + 's) \<Rightarrow> ('s \<Rightarrow> int \<Rightarrow> bytes \<times> io_error option \<times> 's)
    \<Rightarrow> ('s \<Rightarrow> io_error option) \<Rightarrow> (bytes \<Rightarrow> string) \<Rightarrow> source_manifest \<Rightarrow> nat
    \<Rightarrow> 's manifest_reader \<Rightarrow> (bytes \<times> io_error option \<times> 's manifest_reader) option" where
  "read_loop ctx_err open_range sread sclose sha m n r =
    (case ctx_err (reader_ticks r) of
       Some e \<Rightarrow> Some ([], Some e, r\<lparr>reader_terminal := Some e, reader_ticks := reader_ticks r + 1\<rparr>)
     | None \<Rightarrow>
        (case ensure_open open_range sha m (r\<lparr>reader_ticks := reader_ticks r + 1\<rparr>) of
           Inl (e, r1) \<Rightarrow> Some ([], Some e, r1)
         | Inr (s, r1) \<Rightarrow>
            (case read_extent sread sclose n s r1 of
               (bs, err, r2) \<Rightarrow>
                 if length bs > 0 \<or> err \<noteq> None then Some (bs, err, r2)
                 else read_loop ctx_err open_range sread sclose sha m n r2)))"

declare read_loop.simps [code]

definition manifest_read ::
  "(nat \<Rightarrow> io_error option) \<Rightarrow> (string \<Rightarrow> int \<Rightarrow> int \<Rightarrow> io_error + 's) \<Rightarrow> ('s \<Rightarrow> int \<Rightarrow> bytes \<times> io_error option \<times> 's)
    \<Rightarrow> ('s \<Rightarrow> io_error option) \<Rightarrow> (bytes \<Rightarrow> string) \<Rightarrow> source_manifest \<Rightarrow> nat
    \<Rightarrow> 's manifest_reader \<Rightarrow> (bytes \<times> io_error option \<times> 's manifest_reader) option" where
  "manifest_read ctx_err open_range sread sclose sha m n r =
    (if reader_closed r then Some ([], Some ReaderClosed, r)
     else if n = 0 then Some ([], None, r)
     else (case reader_terminal r of
        Some e \<Rightarrow> Some ([], Some e, r)
      | None \<Rightarrow> read_loop ctx_err open_range sread sclose sha m n r))"

text \<open>\<^verbatim>\<open>manifestReader.Close\<close>.\<close>

definition manifest_close :: "('s \<Rightarrow> io_error option) \<Rightarrow> 's manifest_reader \<Rightarrow> io_error option \<times> 's manifest_reader" where
  "manifest_close sclose r =
    ((case reader_current r of Some s \<Rightarrow> sclose s | None \<Rightarrow> None), r\<lparr>reader_closed := True\<rparr>)"

section \<open>Prefix verification\<close>

datatype prefix_error = BadPrefixManifest manifest_error | PrefixChanged | PrefixReadFailed io_error

text \<open>
  \<^verbatim>\<open>HashVerifiedPrefix\<close>: the source is its remaining bytes with the error that follows them
  (end of file when None); the result is the hash object and the suffix left in the source.
\<close>

definition HashVerifiedPrefix ::
  "(bytes \<Rightarrow> string) \<Rightarrow> bytes \<Rightarrow> io_error option \<Rightarrow> int \<Rightarrow> source_manifest \<Rightarrow> prefix_error + bytes \<times> bytes" where
  "HashVerifiedPrefix sha source read_err capturedSize previous =
    (case ValidateManifest previous of
       Inl e \<Rightarrow> Inl (BadPrefixManifest e)
     | Inr _ \<Rightarrow>
        if capturedSize < manifest_size previous then Inl PrefixChanged
        else let n = nat (manifest_size previous) in
          if length source < n then
            (case read_err of
               None \<Rightarrow> Inl PrefixChanged
             | Some e \<Rightarrow> if e = EOF then Inl PrefixChanged else Inl (PrefixReadFailed e))
          else if ''sha256:'' @ sha (take n source) \<noteq> content_hash previous then Inl PrefixChanged
          else Inr (take n source, drop n source))"

section \<open>Lemmas on validation\<close>

lemma check_extents_Inr:
  assumes "check_extents rem es = Inr rest" "0 \<le> rem" "rem \<le> max_int64"
  shows "rest = rem - (\<Sum>e\<leftarrow>es. extent_length e) \<and> 0 \<le> rest
    \<and> (\<forall>e\<in>set es. object_key e \<noteq> [] \<and> 0 \<le> offset e \<and> 0 < extent_length e \<and> offset e + extent_length e \<le> max_int64)"
  using assms
proof (induction rem es rule: check_extents.induct)
  case (2 rem e es)
  then have e: "object_key e \<noteq> []" "0 \<le> offset e" "0 < extent_length e" "extent_length e \<le> rem"
    and off: "offset e \<le> wrap64 (max_int64 - extent_length e)"
    and rec: "check_extents (wrap64 (rem - extent_length e)) es = Inr rest"
    by (auto split: if_splits)
  have w: "wrap64 (max_int64 - extent_length e) = max_int64 - extent_length e"
      "wrap64 (rem - extent_length e) = rem - extent_length e"
    using e 2 by (auto simp: int64_def)
  with rec e off "2.IH" "2.prems" show ?case by (auto split: if_splits)
qed simp

text \<open>The meaning of a valid manifest.\<close>

definition valid_manifest :: "source_manifest \<Rightarrow> bool" where
  "valid_manifest m \<longleftrightarrow> manifest_format m = 1 \<and> 0 \<le> manifest_size m
    \<and> (\<exists>d. content_hash m = ''sha256:'' @ d \<and> length d = 64 \<and> list_all (\<lambda>c. c \<in> set ''0123456789abcdef'') d)
    \<and> (\<forall>e\<in>set (extents m). object_key e \<noteq> [] \<and> 0 \<le> offset e \<and> 0 < extent_length e
          \<and> offset e + extent_length e \<le> max_int64)
    \<and> (\<Sum>e\<leftarrow>extents m. extent_length e) = manifest_size m"

lemma check_extents_complete:
  assumes "\<forall>e\<in>set es. object_key e \<noteq> [] \<and> 0 \<le> offset e \<and> 0 < extent_length e
      \<and> offset e + extent_length e \<le> max_int64"
    and "(\<Sum>e\<leftarrow>es. extent_length e) \<le> rem" "rem \<le> max_int64"
  shows "check_extents rem es = Inr (rem - (\<Sum>e\<leftarrow>es. extent_length e))"
  using assms
proof (induction rem es rule: check_extents.induct)
  case (2 rem e es)
  have nn: "0 \<le> (\<Sum>e\<leftarrow>es. extent_length e)" using "2.prems"(1) by (intro sum_list_nonneg) auto
  with 2 have "wrap64 (max_int64 - extent_length e) = max_int64 - extent_length e"
      "wrap64 (rem - extent_length e) = rem - extent_length e"
    by (auto simp: int64_def)
  with 2 nn show ?case by (auto simp: not_less)
qed simp

lemma lower_hex_fixed:
  "hex_digit c \<and> lower_char c = c \<longleftrightarrow> c \<in> set ''0123456789abcdef''"
proof -
  have 1: "list_all (\<lambda>c. lower_char c = c \<longleftrightarrow> c \<in> set ''0123456789abcdef'') ''0123456789abcdefABCDEF''"
    by code_simp
  have 2: "list_all (\<lambda>c. c \<in> set ''0123456789abcdefABCDEF'') ''0123456789abcdef''"
    by code_simp
  show ?thesis
    using 1[unfolded list_all_iff] 2[unfolded list_all_iff] unfolding hex_digit_def by blast
qed

lemma canonical_digest:
  "to_lower d = d \<and> hex_decodes d \<longleftrightarrow> even (length d) \<and> list_all (\<lambda>c. c \<in> set ''0123456789abcdef'') d"
proof -
  have "\<not> hex_digit (CHR 0xE2)" "\<not> hex_digit (CHR 0xC4)" by code_simp+
  then have low: "list_all hex_digit d \<Longrightarrow> to_lower d = map lower_char d"
    by (induction d rule: to_lower.induct) auto
  have "map lower_char d = d \<longleftrightarrow> (\<forall>c\<in>set d. lower_char c = c)"
    by (induction d) auto
  then show ?thesis
    using low unfolding hex_decodes_def list_all_iff lower_hex_fixed[symmetric] by (metis (no_types, lifting))
qed

lemma ValidateManifest_valid:
  assumes "int64 (manifest_size m)"
  shows "ValidateManifest m = Inr () \<longleftrightarrow> valid_manifest m"
proof
  assume ok: "ValidateManifest m = Inr ()"
  define d where "d = trim_prefix (content_hash m) ''sha256:''"
  obtain r where m: "manifest_format m = 1" "0 \<le> manifest_size m" "length d = 64"
      "content_hash m = ''sha256:'' @ to_lower d" "hex_decodes d"
    and r: "check_extents (manifest_size m) (extents m) = Inr r" "r = 0"
    using ok by (auto simp: ValidateManifest_def d_def[symmetric] Let_def split: if_splits sum.splits)
  have "d = to_lower d" using m(4) trim_prefix_append unfolding d_def by metis
  with m have "list_all (\<lambda>c. c \<in> set ''0123456789abcdef'') d" "content_hash m = ''sha256:'' @ d"
    using canonical_digest[of d] by auto
  moreover note check_extents_Inr[OF r(1)] r(2) m assms
  ultimately show "valid_manifest m" unfolding valid_manifest_def by (auto simp: int64_def)
next
  assume v: "valid_manifest m"
  then obtain d where d: "content_hash m = ''sha256:'' @ d" "length d = 64"
      "list_all (\<lambda>c. c \<in> set ''0123456789abcdef'') d"
    unfolding valid_manifest_def by blast
  then have "to_lower d = d" "hex_decodes d" using canonical_digest[of d] by auto
  moreover have "check_extents (manifest_size m) (extents m) = Inr 0"
    using check_extents_complete[of "extents m" "manifest_size m"] v assms
    unfolding valid_manifest_def int64_def by auto
  ultimately show "ValidateManifest m = Inr ()"
    using v d unfolding ValidateManifest_def valid_manifest_def
    by (simp add: trim_prefix_def has_prefix_def)
qed

text \<open>
  C23: \<^verbatim>\<open>ValidateManifest\<close> accepts exactly the well-formed manifests: format 1, a canonical
  lower-case SHA-256 name, and non-empty extents with keys whose ranges fit in an \<^verbatim>\<open>int64\<close> and
  whose lengths add up to the declared size, without overflow on the way.
\<close>

theorem ValidateManifest_iff:
  assumes "int64 (manifest_size m)"
  shows "ValidateManifest m = Inr () \<longleftrightarrow> valid_manifest m"
  using assms by (rule ValidateManifest_valid)

text \<open>A manifest of two extents, used by the witnesses.\<close>

definition sample_manifest :: source_manifest where
  "sample_manifest = \<lparr>manifest_format = 1, content_hash = ''sha256:'' @ replicate 64 (CHR ''a''), manifest_size = 5,
     extents = [\<lparr>object_key = ''p1'', offset = 0, extent_length = 2\<rparr>, \<lparr>object_key = ''p2'', offset = 7, extent_length = 3\<rparr>]\<rparr>"

theorem ValidateManifest_iff_witness:
  "ValidateManifest sample_manifest = Inr () \<longleftrightarrow> valid_manifest sample_manifest"
  by (rule ValidateManifest_iff) code_simp

section \<open>Lemmas on the reader\<close>

text \<open>A caller that reads with buffers of the given sizes.\<close>

fun read_many :: "(nat \<Rightarrow> 'r \<Rightarrow> (bytes \<times> io_error option \<times> 'r) option) \<Rightarrow> nat list \<Rightarrow> 'r
    \<Rightarrow> ((bytes \<times> io_error option) list \<times> 'r) option" where
  "read_many rd [] r = Some ([], r)"
| "read_many rd (n # ns) r = (case rd n r of None \<Rightarrow> None
     | Some (bs, e, r') \<Rightarrow> (case read_many rd ns r' of None \<Rightarrow> None
         | Some (outs, r'') \<Rightarrow> Some ((bs, e) # outs, r'')))"

text \<open>
  What the reader relies on of the object store's client (documented behaviour of
  \<^verbatim>\<open>io.Reader\<close>, \<^verbatim>\<open>context.Context\<close> and the store): a read returns at most the bytes asked for,
  and opening, closing and cancellation do not report their failure as the end of file.
\<close>

definition range_store ::
  "(nat \<Rightarrow> io_error option) \<Rightarrow> (string \<Rightarrow> int \<Rightarrow> int \<Rightarrow> io_error + 's)
    \<Rightarrow> ('s \<Rightarrow> int \<Rightarrow> bytes \<times> io_error option \<times> 's) \<Rightarrow> ('s \<Rightarrow> io_error option) \<Rightarrow> bool" where
  "range_store ctx_err open_range sread sclose \<longleftrightarrow>
    (\<forall>i. ctx_err i \<noteq> Some EOF) \<and> (\<forall>k off len. open_range k off len \<noteq> Inl EOF) \<and> (\<forall>s. sclose s \<noteq> Some EOF)
    \<and> (\<forall>s n. 0 \<le> n \<longrightarrow> int (length (fst (sread s n))) \<le> n)"

abbreviation covered :: "source_manifest \<Rightarrow> nat \<Rightarrow> int" where
  "covered m i \<equiv> (\<Sum>e\<leftarrow>take i (extents m). extent_length e)"

definition reader_inv :: "(bytes \<Rightarrow> string) \<Rightarrow> source_manifest \<Rightarrow> bytes \<Rightarrow> 's manifest_reader \<Rightarrow> bool" where
  "reader_inv sha m B r \<longleftrightarrow> reader_digest r = B \<and> reader_index r \<le> length (extents m)
    \<and> (reader_terminal r = None \<longrightarrow> (case reader_current r of
          None \<Rightarrow> int (length B) = covered m (reader_index r)
        | Some _ \<Rightarrow> 0 < reader_remaining r \<and> reader_remaining r \<le> max_int64
            \<and> int (length B) + reader_remaining r = covered m (reader_index r)))
    \<and> (reader_terminal r = Some EOF \<longrightarrow> ''sha256:'' @ sha B = content_hash m \<and> int (length B) = manifest_size m)"

lemma reader_inv_ticks [simp]: "reader_inv sha m B (r\<lparr>reader_ticks := t\<rparr>) = reader_inv sha m B r"
  by (simp add: reader_inv_def cong: option.case_cong)

lemma ensure_open_inv:
  assumes "valid_manifest m" "range_store ctx_err open_range sread sclose"
    and "reader_inv sha m B r" "reader_terminal r = None"
  shows "case ensure_open open_range sha m r of
      Inl (e, r') \<Rightarrow> reader_inv sha m B r' \<and> reader_terminal r' = Some e
    | Inr (s, r') \<Rightarrow> reader_inv sha m B r' \<and> reader_terminal r' = None \<and> reader_current r' = Some s"
proof (cases "reader_current r")
  case None
  show ?thesis
  proof (cases "reader_index r = length (extents m)")
    case True
    then show ?thesis
      using None assms by (auto simp: ensure_open_def reader_inv_def valid_manifest_def Let_def)
  next
    case False
    define x where "x = extents m ! reader_index r"
    have i: "reader_index r < length (extents m)" using False assms(3) by (simp add: reader_inv_def)
    then have "x \<in> set (extents m)" by (simp add: x_def)
    with assms(1) have "0 < extent_length x" "extent_length x \<le> max_int64" by (auto simp: valid_manifest_def)
    moreover have "covered m (Suc (reader_index r)) = covered m (reader_index r) + extent_length x"
      using i by (simp add: take_Suc_conv_app_nth x_def)
    moreover have "open_range k off len = Inl e \<Longrightarrow> e \<noteq> EOF" for k off len e
      using assms(2) unfolding range_store_def by metis
    ultimately show ?thesis
      using None False assms(3,4) i
      by (auto simp: ensure_open_def reader_inv_def x_def[symmetric] Let_def split: sum.splits)
  qed
qed (use assms in \<open>auto simp: ensure_open_def\<close>)

lemma read_extent_inv:
  assumes "range_store ctx_err open_range sread sclose"
    and "reader_inv sha m B r" "reader_terminal r = None" "reader_current r = Some s"
    and "read_extent sread sclose n s r = (bs, err, r')"
  shows "reader_inv sha m (B @ bs) r' \<and> reader_terminal r' = err \<and> err \<noteq> Some EOF"
proof -
  obtain e s' where rd: "sread s (min (int n) (reader_remaining r)) = (bs, e, s')"
    using assms(5) by (auto simp: read_extent_def Let_def split: prod.splits)
  have rem: "0 < reader_remaining r" "reader_remaining r \<le> max_int64"
      "int (length B) + reader_remaining r = covered m (reader_index r)"
    using assms(2-4) by (auto simp: reader_inv_def)
  have "int (length bs) \<le> min (int n) (reader_remaining r)"
    using assms(1) rem rd unfolding range_store_def
    by (metis fst_conv min.boundedI of_nat_0_le_iff order_less_imp_le)
  then have len: "int (length bs) \<le> reader_remaining r" by simp
  then have w: "wrap64 (reader_remaining r - int (length bs)) = reader_remaining r - int (length bs)"
    using rem by (simp add: int64_def)
  have "sclose s'' \<noteq> Some EOF" for s'' using assms(1) by (simp add: range_store_def)
  with assms(2-5) rd w len rem show ?thesis
    by (auto simp: read_extent_def Let_def reader_inv_def split: if_splits)
qed

lemma read_loop_inv:
  assumes "valid_manifest m" "range_store ctx_err open_range sread sclose"
    and "read_loop ctx_err open_range sread sclose sha m n r = Some (bs, err, r')"
    and "reader_inv sha m B r" "reader_terminal r = None"
  shows "reader_inv sha m (B @ bs) r' \<and> reader_terminal r' = err"
  using assms(3) assms(1,2,4,5)
proof (induction ctx_err open_range sread sclose sha m n r bs err r' arbitrary: B
    rule: read_loop.raw_induct [split_format (complete), rotated, consumes 1, case_names round])
  case (round f ctx_err open_range sread sclose sha m n r bs err r')
  show ?case
  proof (cases "ctx_err (reader_ticks r)")
    case (Some e)
    then show ?thesis
      using round by (auto simp: reader_inv_def range_store_def)
  next
    case None
    let ?r = "r\<lparr>reader_ticks := reader_ticks r + 1\<rparr>"
    have inv: "reader_inv sha m B ?r" "reader_terminal ?r = None" using round by auto
    note opened = ensure_open_inv[OF round.prems(1,2) inv]
    show ?thesis
    proof (cases "ensure_open open_range sha m ?r")
      case (Inl a)
      then show ?thesis using None round.hyps opened by (cases a) auto
    next
      case (Inr a)
      obtain s r1 where a: "a = (s, r1)" by (cases a)
      obtain bs1 err1 r2 where rd: "read_extent sread sclose n s r1 = (bs1, err1, r2)"
        by (cases "read_extent sread sclose n s r1") auto
      have r2: "reader_inv sha m (B @ bs1) r2" "reader_terminal r2 = err1"
        using read_extent_inv[OF round.prems(2) _ _ _ rd] opened Inr a by auto
      show ?thesis
        using round.IH[of ctx_err open_range sread sclose sha m n r2 bs err r' B] round.hyps round.prems None Inr a rd r2
        by (cases "length bs1 > 0 \<or> err1 \<noteq> None") auto
    qed
  qed
qed

lemma manifest_read_inv:
  assumes "valid_manifest m" "range_store ctx_err open_range sread sclose"
    and "manifest_read ctx_err open_range sread sclose sha m n r = Some (bs, err, r')"
    and "reader_inv sha m B r"
  shows "reader_inv sha m (B @ bs) r' \<and> (err = Some EOF \<longrightarrow> reader_terminal r' = Some EOF)
    \<and> (reader_terminal r \<noteq> None \<longrightarrow> bs = [] \<and> reader_terminal r' = reader_terminal r)"
  using assms read_loop_inv[OF assms(1,2) _ assms(4)]
  by (auto simp: manifest_read_def split: if_splits option.splits)

lemma read_many_inv:
  assumes "valid_manifest m" "range_store ctx_err open_range sread sclose"
    and "read_many (manifest_read ctx_err open_range sread sclose sha m) ns r = Some (outs, r')"
    and "reader_inv sha m B r"
  shows "reader_inv sha m (B @ concat (map fst outs)) r'
    \<and> (reader_terminal r \<noteq> None \<longrightarrow> concat (map fst outs) = [] \<and> reader_terminal r' = reader_terminal r)
    \<and> ((\<exists>x\<in>set outs. snd x = Some EOF) \<longrightarrow> reader_terminal r' = Some EOF)"
  using assms(3,4)
proof (induction ns arbitrary: r B outs)
  case (Cons n ns)
  obtain bs e r1 where rd: "manifest_read ctx_err open_range sread sclose sha m n r = Some (bs, e, r1)"
    using Cons.prems by (auto split: option.splits)
  then obtain outs1 where rest: "read_many (manifest_read ctx_err open_range sread sclose sha m) ns r1 = Some (outs1, r')"
      and outs: "outs = (bs, e) # outs1"
    using Cons.prems by (auto split: option.splits)
  note step = manifest_read_inv[OF assms(1,2) rd Cons.prems(2)]
  then show ?case using Cons.IH[OF rest, of "B @ bs"] outs
    by (cases "reader_terminal r") (auto simp del: split_paired_Ball_Sigma split_paired_All, fastforce+)
qed auto

text \<open>
  C14: whatever a caller reads, with buffers of any sizes and from a store that may fail, cut
  streams short or return other bytes: once a read of the manifest's reader returns the end of file,
  the bytes returned so far have the size and the SHA-256 that the manifest declares.
\<close>

theorem manifest_reader_verifies:
  assumes "int64 (manifest_size m)" "OpenManifest m = Inr r0"
    and "range_store ctx_err open_range sread sclose"
    and "read_many (manifest_read ctx_err open_range sread sclose sha m) ns r0 = Some (outs, r)"
    and "(bs, Some EOF) \<in> set outs"
  shows "''sha256:'' @ sha (concat (map fst outs)) = content_hash m
    \<and> int (length (concat (map fst outs))) = manifest_size m"
proof -
  have valid: "valid_manifest m"
    using assms(1,2) ValidateManifest_valid by (auto simp: OpenManifest_def split: sum.splits)
  have "reader_inv sha m [] r0"
    using assms(2) by (auto simp: OpenManifest_def reader_inv_def split: sum.splits)
  from read_many_inv[OF valid assms(3,4) this]
  have "reader_inv sha m (concat (map fst outs)) r" "reader_terminal r = Some EOF"
    using assms(5) by force+
  then show ?thesis unfolding reader_inv_def by blast
qed

text \<open>An object store in memory, for the witnesses: a stream is the list of the bytes left.\<close>

definition mem_open :: "string \<Rightarrow> int \<Rightarrow> int \<Rightarrow> io_error + bytes" where
  "mem_open key off len = (if key = ''p1'' then Inr ''ab'' else if key = ''p2'' then Inr ''cde'' else Inl (IOFailure key))"

definition mem_read :: "bytes \<Rightarrow> int \<Rightarrow> bytes \<times> io_error option \<times> bytes" where
  "mem_read s n = (take (nat n) s, if s = [] then Some EOF else None, drop (nat n) s)"

definition mem_reads :: "nat list \<Rightarrow> ((bytes \<times> io_error option) list \<times> bytes manifest_reader) option" where
  "mem_reads ns = (case OpenManifest sample_manifest of Inl _ \<Rightarrow> None
     | Inr r \<Rightarrow> read_many (manifest_read (\<lambda>_. None) mem_open mem_read (\<lambda>_. None) (\<lambda>_. replicate 64 (CHR ''a'')) sample_manifest) ns r)"

lemma mem_range_store: "range_store (\<lambda>_. None) mem_open mem_read (\<lambda>_. None)"
  by (auto simp: range_store_def mem_open_def mem_read_def)

theorem manifest_reader_verifies_witness:
  "\<exists>outs r. mem_reads [2, 2, 2, 1] = Some (outs, r) \<and> (''ab'', None) \<in> set outs
    \<and> int (length (concat (map fst outs))) = manifest_size sample_manifest"
proof -
  obtain r0 :: "bytes manifest_reader" where r0: "OpenManifest sample_manifest = Inr r0"
    unfolding OpenManifest_def by (cases "ValidateManifest sample_manifest") (simp_all, code_simp)
  have size: "int64 (manifest_size sample_manifest)" by code_simp
  have run: "map_option fst (mem_reads [2, 2, 2, 1]) = Some [(''ab'', None), (''cd'', None), (''e'', None), ([], Some EOF)]"
    by code_simp
  then obtain outs r where o: "mem_reads [2, 2, 2, 1] = Some (outs, r)"
      "outs = [(''ab'', None), (''cd'', None), (''e'', None), ([], Some EOF)]" by auto
  then have "read_many (manifest_read (\<lambda>_. None) mem_open mem_read (\<lambda>_. None) (\<lambda>_. replicate 64 (CHR ''a'')) sample_manifest)
      [2, 2, 2, 1] r0 = Some (outs, r)"
    using r0 by (simp add: mem_reads_def)
  from manifest_reader_verifies[OF size r0 mem_range_store this, of "[]"] o show ?thesis by auto
qed

section \<open>Reading back an intact capture\<close>

text \<open>
  Streams that deliver their content: a read of a non-exhausted stream makes progress, and
  the only error is the end of file after the last byte.
\<close>

definition delivers :: "('s \<Rightarrow> bytes) \<Rightarrow> ('s \<Rightarrow> int \<Rightarrow> bytes \<times> io_error option \<times> 's) \<Rightarrow> ('s \<Rightarrow> io_error option) \<Rightarrow> bool" where
  "delivers content sread sclose \<longleftrightarrow> (\<forall>s. sclose s = None) \<and>
    (\<forall>s n bs e s'. 0 < n \<longrightarrow> content s \<noteq> [] \<longrightarrow> sread s n = (bs, e, s') \<longrightarrow>
       bs \<noteq> [] \<and> int (length bs) \<le> n \<and> content s = bs @ content s'
       \<and> (e = None \<or> e = Some EOF \<and> content s' = []))"

definition stores :: "('s \<Rightarrow> bytes) \<Rightarrow> (string \<Rightarrow> int \<Rightarrow> int \<Rightarrow> io_error + 's) \<Rightarrow> (source_extent \<Rightarrow> bytes) \<Rightarrow> source_manifest \<Rightarrow> bool" where
  "stores content open_range slice m \<longleftrightarrow> (\<forall>e\<in>set (extents m). int (length (slice e)) = extent_length e
     \<and> (\<exists>s. open_range (object_key e) (offset e) (extent_length e) = Inr s \<and> content s = slice e))"

definition pending :: "('s \<Rightarrow> bytes) \<Rightarrow> (source_extent \<Rightarrow> bytes) \<Rightarrow> source_manifest \<Rightarrow> 's manifest_reader \<Rightarrow> bytes" where
  "pending content slice m r = (case reader_current r of None \<Rightarrow> [] | Some s \<Rightarrow> content s)
     @ concat (map slice (drop (reader_index r) (extents m)))"

definition reader_live :: "('s \<Rightarrow> bytes) \<Rightarrow> source_manifest \<Rightarrow> 's manifest_reader \<Rightarrow> bool" where
  "reader_live content m r \<longleftrightarrow> reader_terminal r = None \<and> \<not> reader_closed r
     \<and> reader_index r \<le> length (extents m)
     \<and> (\<forall>s. reader_current r = Some s \<longrightarrow> content s \<noteq> [] \<and> reader_remaining r = int (length (content s))
          \<and> reader_remaining r \<le> max_int64)"

lemma ensure_open_live:
  assumes "valid_manifest m" "stores content open_range slice m" "reader_live content m r"
    and "pending content slice m r \<noteq> []"
  obtains s r' where "ensure_open open_range sha m r = Inr (s, r')" "reader_live content m r'"
    "reader_current r' = Some s" "pending content slice m r' = pending content slice m r"
    "reader_digest r' = reader_digest r"
proof (cases "reader_current r")
  case (Some s)
  then show thesis using assms by (intro that[of s r]) (auto simp: ensure_open_def)
next
  case None
  then have i: "reader_index r < length (extents m)"
    using assms(3,4) by (cases "reader_index r = length (extents m)") (auto simp: pending_def reader_live_def)
  define x where "x = extents m ! reader_index r"
  have x: "x \<in> set (extents m)" using i by (simp add: x_def)
  then obtain s where s: "open_range (object_key x) (offset x) (extent_length x) = Inr s" "content s = slice x"
      "int (length (slice x)) = extent_length x"
    using assms(2) by (auto simp: stores_def)
  have "0 < extent_length x" "extent_length x \<le> max_int64"
    using assms(1) x by (auto simp: valid_manifest_def)
  with None i s assms(3) show thesis
    by (intro that[of s "r\<lparr>reader_current := Some s, reader_index := reader_index r + 1,
                reader_remaining := extent_length x\<rparr>"])
       (auto simp: ensure_open_def reader_live_def x_def[symmetric] pending_def Let_def Cons_nth_drop_Suc[symmetric])
qed

lemma read_extent_live:
  assumes "delivers content sread sclose" "reader_live content m r" "reader_current r = Some s" "0 < n"
  obtains bs r' where "read_extent sread sclose n s r = (bs, None, r')" "bs \<noteq> []" "reader_live content m r'"
    "pending content slice m r = bs @ pending content slice m r'" "reader_digest r' = reader_digest r @ bs"
proof -
  obtain bs e s' where rd: "sread s (min (int n) (reader_remaining r)) = (bs, e, s')"
    by (cases "sread s (min (int n) (reader_remaining r))") auto
  have s: "content s \<noteq> []" "reader_remaining r = int (length (content s))" "reader_remaining r \<le> max_int64"
    using assms(2,3) by (auto simp: reader_live_def)
  then have "0 < min (int n) (reader_remaining r)" using assms(4) by simp
  with assms(1) s(1) rd have d: "bs \<noteq> []" "content s = bs @ content s'" "e = None \<or> e = Some EOF \<and> content s' = []"
    unfolding delivers_def by blast+
  have w: "wrap64 (reader_remaining r - int (length bs)) = int (length (content s'))"
    using s d(2) by (simp add: int64_def)
  have c: "sclose s' = None" using assms(1) by (simp add: delivers_def)
  show thesis
    by (rule that[of bs "r\<lparr>reader_remaining := int (length (content s')), reader_digest := reader_digest r @ bs,
          reader_current := (if content s' = [] then None else Some s')\<rparr>"])
       (use rd d w c s assms(2,3) in \<open>auto simp: read_extent_def reader_live_def pending_def Let_def\<close>)
qed

lemma manifest_read_live:
  assumes "valid_manifest m" "stores content open_range slice m" "delivers content sread sclose"
    and "reader_live content m r" "0 < n" "pending content slice m r \<noteq> []"
  obtains bs r' where "manifest_read (\<lambda>_. None) open_range sread sclose sha m n r = Some (bs, None, r')" "bs \<noteq> []"
    "reader_live content m r'" "pending content slice m r = bs @ pending content slice m r'"
    "reader_digest r' = reader_digest r @ bs"
proof -
  let ?r = "r\<lparr>reader_ticks := reader_ticks r + 1\<rparr>"
  have "reader_live content m ?r" "pending content slice m ?r = pending content slice m r"
    using assms(4) by (auto simp: reader_live_def pending_def cong: option.case_cong)
  then obtain s r1 where o: "ensure_open open_range sha m ?r = Inr (s, r1)" "reader_live content m r1"
      "reader_current r1 = Some s" "pending content slice m r1 = pending content slice m r"
      "reader_digest r1 = reader_digest r"
    using ensure_open_live[OF assms(1,2), of ?r sha] assms(6) by auto
  obtain bs r2 where b: "read_extent sread sclose n s r1 = (bs, None, r2)" "bs \<noteq> []" "reader_live content m r2"
      "pending content slice m r1 = bs @ pending content slice m r2" "reader_digest r2 = reader_digest r1 @ bs"
    using read_extent_live[OF assms(3) o(2,3) assms(5)] by blast
  have "manifest_read (\<lambda>_. None) open_range sread sclose sha m n r = Some (bs, None, r2)"
    using assms(4,5) o(1) b(1,2) by (simp add: manifest_read_def reader_live_def read_loop.simps[of _ _ _ _ _ _ _ r])
  then show thesis using that b o by metis
qed

lemma manifest_read_end:
  assumes "stores content open_range slice m" "valid_manifest m" "reader_live content m r" "0 < n"
    and "pending content slice m r = []" "''sha256:'' @ sha (reader_digest r) = content_hash m"
  obtains r' where "manifest_read (\<lambda>_. None) open_range sread sclose sha m n r = Some ([], Some EOF, r')"
    "reader_terminal r' = Some EOF" "\<not> reader_closed r'"
proof -
  have none: "reader_current r = None"
    using assms(3,5) by (auto simp: reader_live_def pending_def split: option.splits)
  have "slice e \<noteq> []" if "e \<in> set (extents m)" for e
    using assms(1,2) that unfolding stores_def valid_manifest_def
    by (metis less_irrefl list.size(3) of_nat_0)
  then have "drop (reader_index r) (extents m) = []"
    using assms(5) set_drop_subset[of "reader_index r" "extents m"]
    by (cases "drop (reader_index r) (extents m)") (auto simp: pending_def)
  then have "reader_index r = length (extents m)" using assms(3) by (simp add: reader_live_def)
  with none assms(3,4,6) show thesis
    by (intro that[of "r\<lparr>reader_terminal := Some EOF, reader_ticks := reader_ticks r + 1\<rparr>"])
       (auto simp: manifest_read_def reader_live_def ensure_open_def read_loop.simps Let_def)
qed

lemma read_many_terminal:
  assumes "reader_terminal r = Some EOF" "\<not> reader_closed r" "\<forall>n\<in>set ns. 0 < n"
  shows "read_many (manifest_read ctx_err open_range sread sclose sha m) ns r = Some (replicate (length ns) ([], Some EOF), r)"
  using assms by (induction ns) (auto simp: manifest_read_def)

lemma read_many_live:
  assumes "valid_manifest m" "stores content open_range slice m" "delivers content sread sclose"
    and "reader_live content m r" "\<forall>n\<in>set ns. 0 < n" "length (pending content slice m r) < length ns"
    and "''sha256:'' @ sha (reader_digest r @ pending content slice m r) = content_hash m"
  shows "\<exists>outs r'. read_many (manifest_read (\<lambda>_. None) open_range sread sclose sha m) ns r = Some (outs, r')
    \<and> concat (map fst outs) = pending content slice m r \<and> outs \<noteq> [] \<and> snd (last outs) = Some EOF"
  using assms(4-7)
proof (induction ns arbitrary: r)
  case (Cons n ns)
  have n: "0 < n" using Cons.prems by simp
  show ?case
  proof (cases "pending content slice m r = []")
    case True
    obtain r' where "manifest_read (\<lambda>_. None) open_range sread sclose sha m n r = Some ([], Some EOF, r')"
        "reader_terminal r' = Some EOF" "\<not> reader_closed r'"
      using manifest_read_end[OF assms(2,1) Cons.prems(1) n True, of sha sread sclose] Cons.prems(4) True by auto
    then show ?thesis using True Cons.prems(2) read_many_terminal[of r' ns]
      by (auto simp: last_replicate)
  next
    case False
    then obtain bs r' where rd: "manifest_read (\<lambda>_. None) open_range sread sclose sha m n r = Some (bs, None, r')"
        "bs \<noteq> []" "reader_live content m r'" "pending content slice m r = bs @ pending content slice m r'"
        "reader_digest r' = reader_digest r @ bs"
      using manifest_read_live[OF assms(1-3) Cons.prems(1) n] by metis
    have "length (pending content slice m r') < length ns"
      using rd(2,4) Cons.prems(3) by (cases bs) auto
    then obtain outs r'' where "read_many (manifest_read (\<lambda>_. None) open_range sread sclose sha m) ns r' = Some (outs, r'')"
        "concat (map fst outs) = pending content slice m r'" "outs \<noteq> []" "snd (last outs) = Some EOF"
      using Cons.IH[OF rd(3)] Cons.prems(2,4) rd(4,5) by auto
    then show ?thesis using rd(1,4) by auto
  qed
qed simp

text \<open>
  C15: a capture whose objects are intact is read back completely: with non-empty buffers,
  as many as the file has bytes and one more, every read returns (the loop of \<^verbatim>\<open>Read\<close> ends),
  the bytes are those of the extents in order, and the last read returns the end of file.
\<close>

theorem manifest_reader_delivers:
  assumes "int64 (manifest_size m)" "OpenManifest m = Inr r0"
    and "stores content open_range slice m" "delivers content sread sclose"
    and "''sha256:'' @ sha (concat (map slice (extents m))) = content_hash m"
    and "\<forall>n\<in>set ns. 0 < n" "manifest_size m < int (length ns)"
  shows "\<exists>outs r. read_many (manifest_read (\<lambda>_. None) open_range sread sclose sha m) ns r0 = Some (outs, r)
    \<and> concat (map fst outs) = concat (map slice (extents m)) \<and> snd (last outs) = Some EOF"
proof -
  have valid: "valid_manifest m"
    using assms(1,2) ValidateManifest_valid by (auto simp: OpenManifest_def split: sum.splits)
  have r0: "reader_live content m r0" "pending content slice m r0 = concat (map slice (extents m))" "reader_digest r0 = []"
    using assms(2) by (auto simp: OpenManifest_def reader_live_def pending_def split: sum.splits)
  have "int (length (concat (map slice xs))) = (\<Sum>e\<leftarrow>xs. extent_length e)" if "set xs \<subseteq> set (extents m)" for xs
    using that assms(3) by (induction xs) (auto simp: stores_def)
  then have "int (length (pending content slice m r0)) = manifest_size m"
    using valid r0(2) by (auto simp: valid_manifest_def)
  then have "length (pending content slice m r0) < length ns" using assms(7) by linarith
  then show ?thesis using read_many_live[OF valid assms(3,4) r0(1) assms(6), of sha] r0 assms(5) by auto
qed

theorem manifest_reader_delivers_witness:
  "\<exists>outs r. mem_reads [2, 2, 2, 1, 9, 9] = Some (outs, r) \<and> concat (map fst outs) = ''abcde'' \<and> snd (last outs) = Some EOF"
proof -
  let ?slice = "\<lambda>e. if object_key e = ''p1'' then ''ab'' else ''cde''"
  obtain r0 :: "bytes manifest_reader" where r0: "OpenManifest sample_manifest = Inr r0"
    unfolding OpenManifest_def by (cases "ValidateManifest sample_manifest") (simp_all, code_simp)
  have size: "int64 (manifest_size sample_manifest)" by code_simp
  have st: "stores (\<lambda>s. s) mem_open ?slice sample_manifest"
    by (simp add: stores_def sample_manifest_def mem_open_def)
  have de: "delivers (\<lambda>s. s) mem_read (\<lambda>_. None)"
    by (auto simp: delivers_def mem_read_def)
  have sha: "''sha256:'' @ (\<lambda>_. replicate 64 (CHR ''a'')) (concat (map ?slice (extents sample_manifest))) = content_hash sample_manifest"
    by (simp add: sample_manifest_def)
  have len: "\<forall>n\<in>set [2, 2, 2, 1, 9, 9::nat]. 0 < n" "manifest_size sample_manifest < int (length [2, 2, 2, 1, 9, 9::nat])"
    by (simp_all add: sample_manifest_def)
  have eq: "concat (map ?slice (extents sample_manifest)) = ''abcde''" by (simp add: sample_manifest_def)
  show ?thesis
    using manifest_reader_delivers[OF size r0 st de sha len] r0 unfolding eq mem_reads_def by simp
qed

lemma verified_prefix:
  assumes "HashVerifiedPrefix sha source read_err capturedSize previous = Inr (digest, rest)"
  shows "source = digest @ rest \<and> int (length digest) = manifest_size previous
    \<and> ''sha256:'' @ sha digest = content_hash previous \<and> manifest_size previous \<le> capturedSize
    \<and> ValidateManifest previous = Inr () \<and> 0 \<le> manifest_size previous"
proof -
  have "0 \<le> manifest_size previous \<and> ValidateManifest previous = Inr ()"
    using assms by (auto simp: HashVerifiedPrefix_def ValidateManifest_def Let_def split: sum.splits if_splits)
  then show ?thesis
    using assms by (auto simp: HashVerifiedPrefix_def Let_def split: sum.splits if_splits option.splits)
qed

text \<open>
  A verified prefix is a prefix: when \<^verbatim>\<open>HashVerifiedPrefix\<close> succeeds, the bytes it hashed are
  the first bytes of the source, exactly as many as the previous version has, with the
  previous version's hash, and the source is left at the suffix.
\<close>

theorem HashVerifiedPrefix_splits:
  assumes "HashVerifiedPrefix sha source read_err capturedSize previous = Inr (digest, rest)"
  shows "source = digest @ rest \<and> int (length digest) = manifest_size previous
    \<and> ''sha256:'' @ sha digest = content_hash previous \<and> manifest_size previous \<le> capturedSize"
  using verified_prefix[OF assms] by simp

theorem HashVerifiedPrefix_splits_witness:
  "HashVerifiedPrefix (\<lambda>_. replicate 64 (CHR ''a'')) ''abcdefg'' None 7 sample_manifest = Inr (''abcde'', ''fg'')
    \<and> int (length ''abcde'') = manifest_size sample_manifest"
proof -
  have run: "HashVerifiedPrefix (\<lambda>_. replicate 64 (CHR ''a'')) ''abcdefg'' None 7 sample_manifest = Inr (''abcde'', ''fg'')"
    by code_simp
  from HashVerifiedPrefix_splits[OF run] run show ?thesis by blast
qed

end
