(* ===== verification/Database.thy ===== *)
theory Database
  imports Access Source_Manifest
begin

text \<open>
  The tables of the PostgreSQL schema that the modelled code reads and writes (the
  migrations under \<^verbatim>\<open>src/migrations\<close>): a table is the list of its rows, a column that may be
  NULL is an option, or the empty string where the code reads it through
  \<^verbatim>\<open>COALESCE(...,'')\<close>.  A \<^verbatim>\<open>BIGSERIAL\<close> column takes its values from a counter of the
  database.  A transaction is a function from the database to a result and the database
  after the commit; when it fails the database is the one before it.  The two triggers of
  \<^verbatim>\<open>053_catalog_changes.sql\<close> are the functions \<open>head_changed\<close> and \<open>proof_changed\<close>, which the
  operations that write \<^verbatim>\<open>file_catalog\<close> and \<^verbatim>\<open>file_content_proofs\<close> call.
\<close>

record org_row = org_id :: string org_name :: string org_slug :: string org_external :: string

record user_row =
  user_id :: string
  user_email :: string
  user_name :: string
  user_avatar :: string
  user_provider :: string
  user_provider_id :: string
  user_external :: string

record user_identity_row =
  ui_id :: string
  ui_user :: string
  ui_provider :: string
  ui_provider_id :: string
  ui_email :: string
  ui_verified :: bool

record invite_row =
  inv_id :: string
  inv_org :: string
  inv_email :: string
  inv_role :: string
  inv_by :: string
  inv_created :: nat

record challenge_row =
  ec_id :: string
  ec_email :: string
  ec_code_hash :: string
  ec_flow :: string
  ec_redirect :: string
  ec_attempts :: int
  ec_max_attempts :: int
  ec_ip_hash :: string
  ec_agent_hash :: string
  ec_created :: nat
  ec_expires :: nat
  ec_consumed :: "nat option"

record org_policy_row = op_org :: string op_patterns :: string op_by :: string
record user_policy_row = up_org :: string up_user :: string up_patterns :: string

record member_row = mem_org :: string mem_user :: string mem_role :: string

record api_key_row =
  key_id :: string
  key_org :: string
  key_user :: string
  key_hash :: string
  key_name :: string
  key_scopes :: "string list"
  key_expires :: "nat option"

record group_row = group_id :: string group_org :: string group_name :: string group_external :: string
record group_member_row = gm_org :: string gm_group :: string gm_user :: string

record root_row =
  root_id :: string
  root_org :: string
  root_name :: string
  root_source_path :: string
  root_scope :: string
  root_owner :: string
  root_vector_disabled :: bool
  root_created :: nat
  root_deleting :: "nat option"

record root_grant_row =
  rg_id :: string
  rg_org :: string
  rg_root :: string
  rg_principal_type :: string
  rg_principal :: string
  rg_permissions :: "string list"

record index_namespace_row =
  ns_org :: string
  ns_root :: string
  ns_namespace :: string
  ns_retired :: bool

record source_object_row =
  so_key :: string
  so_org :: string
  so_root :: string
  so_size :: int
  so_uploader :: string
  so_capture :: "string option"
  so_completed :: bool
  so_retired :: bool
  so_authorized_until :: nat

record multipart_row =
  mu_key :: string
  mu_upload :: string
  mu_part_size :: int
  mu_parts :: "(int \<times> string) list option"

record file_row =
  fc_id :: string
  fc_root :: string
  fc_path :: string
  fc_captured :: string
  fc_indexed_version :: string
  fc_indexed_extraction :: string
  fc_deleted :: bool

record version_row =
  fv_id :: string
  fv_file :: string
  fv_sequence :: int
  fv_capture :: string
  fv_previous :: string
  fv_hash :: string
  fv_size :: int
  fv_ref :: string
  fv_deleted :: bool

record extent_row =
  fx_version :: string
  fx_ordinal :: nat
  fx_key :: string
  fx_offset :: int
  fx_length :: int

record extraction_row =
  fe_id :: string
  fe_version :: string
  fe_revision :: string
  fe_status :: string
  fe_sequence :: int
  fe_format :: int

record segment_row =
  sg_id :: string
  sg_file :: string
  sg_count :: int
  sg_lines :: "(int \<times> int) option"
  sg_pages :: "(int \<times> int) option"
  sg_retired :: bool

record segment_member_row = sm_extraction :: string sm_ordinal :: int sm_segment :: string

record lease_row = sl_id :: string sl_org :: string sl_slots :: int sl_expires :: nat

record work_row = fw_id :: string fw_extraction :: string fw_stage :: string fw_status :: string fw_attempts :: int

record proof_row =
  pf_org :: string
  pf_user :: string
  pf_root :: string
  pf_path :: string
  pf_sequence :: int
  pf_hash :: string
  pf_deleted :: bool

record outbox_row = ob_id :: int ob_root :: string ob_file :: string
record file_change_row = ch_root :: string ch_file :: string ch_revision :: int

record database =
  organizations :: "org_row list"
  users :: "user_row list"
  org_members :: "member_row list"
  api_keys :: "api_key_row list"
  groups :: "group_row list"
  group_members :: "group_member_row list"
  roots :: "root_row list"
  root_grants :: "root_grant_row list"
  root_acls :: "root_acl list"
  root_index_namespaces :: "index_namespace_row list"
  source_objects :: "source_object_row list"
  source_multipart_uploads :: "multipart_row list"
  file_catalog :: "file_row list"
  file_versions :: "version_row list"
  file_version_extents :: "extent_row list"
  file_extractions :: "extraction_row list"
  file_work :: "work_row list"
  file_content_proofs :: "proof_row list"
  catalog_change_outbox :: "outbox_row list"
  catalog_change_state :: "(string \<times> int) list"
  catalog_file_changes :: "file_change_row list"
  version_sequence :: int
  extraction_sequence :: int
  outbox_sequence :: int
  file_segments :: "segment_row list"
  extraction_segments :: "segment_member_row list"
  search_leases :: "lease_row list"
  org_invites :: "invite_row list"
  user_identities :: "user_identity_row list"
  email_login_challenges :: "challenge_row list"
  org_ignore_policies :: "org_policy_row list"
  user_ignore_policies :: "user_policy_row list"

definition empty_database :: database where
  "empty_database = \<lparr>organizations = [], users = [], org_members = [], api_keys = [], groups = [], group_members = [],
     roots = [], root_grants = [], root_acls = [], root_index_namespaces = [], source_objects = [],
     source_multipart_uploads = [], file_catalog = [], file_versions = [], file_version_extents = [],
     file_extractions = [], file_work = [], file_content_proofs = [], catalog_change_outbox = [],
     catalog_change_state = [], catalog_file_changes = [], version_sequence = 0, extraction_sequence = 0,
     outbox_sequence = 0, file_segments = [], extraction_segments = [], search_leases = [], org_invites = [], user_identities = [],
     email_login_challenges = [], org_ignore_policies = [], user_ignore_policies = []\<rparr>"

section \<open>Shared lookups\<close>

definition member_of :: "database \<Rightarrow> string \<Rightarrow> string \<Rightarrow> member_row option" where
  "member_of db org user = find (\<lambda>m. mem_org m = org \<and> mem_user m = user) (org_members db)"

definition root_of :: "database \<Rightarrow> string \<Rightarrow> string \<Rightarrow> root_row option" where
  "root_of db org root = find (\<lambda>r. root_id r = root \<and> root_org r = org) (roots db)"

text \<open>A root that accepts captures: it exists in the organisation and is not being deleted.\<close>

definition live_root :: "database \<Rightarrow> string \<Rightarrow> string \<Rightarrow> bool" where
  "live_root db org root = list_ex (\<lambda>r. root_id r = root \<and> root_org r = org \<and> root_deleting r = None) (roots db)"

section \<open>The outbox triggers\<close>

text \<open>\<^verbatim>\<open>record_catalog_head_change\<close> for one row of \<^verbatim>\<open>file_catalog\<close> whose head columns have changed.\<close>

definition head_changed :: "file_row option \<Rightarrow> file_row \<Rightarrow> database \<Rightarrow> database" where
  "head_changed old new db =
    (if fc_captured new = [] then db
     else if (case old of None \<Rightarrow> False
        | Some prior \<Rightarrow> (fc_captured prior, fc_indexed_version prior, fc_indexed_extraction prior, fc_deleted prior)
                    = (fc_captured new, fc_indexed_version new, fc_indexed_extraction new, fc_deleted new)) then db
     else db\<lparr>catalog_change_outbox := catalog_change_outbox db @
              [\<lparr>ob_id = outbox_sequence db + 1, ob_root = fc_root new, ob_file = fc_id new\<rparr>],
             outbox_sequence := outbox_sequence db + 1\<rparr>)"

fun enqueue_changes :: "file_row list \<Rightarrow> database \<Rightarrow> database" where
  "enqueue_changes [] db = db"
| "enqueue_changes (f # fs) db = enqueue_changes fs
    (db\<lparr>catalog_change_outbox := catalog_change_outbox db @
          [\<lparr>ob_id = outbox_sequence db + 1, ob_root = fc_root f, ob_file = fc_id f\<rparr>],
        outbox_sequence := outbox_sequence db + 1\<rparr>)"

text \<open>\<^verbatim>\<open>record_catalog_proof_change\<close>: every live file at the path of the proof is queued again.\<close>

definition proof_changed :: "string \<Rightarrow> string \<Rightarrow> database \<Rightarrow> database" where
  "proof_changed root path db = enqueue_changes
     (filter (\<lambda>f. fc_root f = root \<and> fc_path f = path
        \<and> list_ex (\<lambda>r. root_id r = fc_root f \<and> root_deleting r = None) (roots db)) (file_catalog db)) db"

lemma find_member_mem: "find P xs = Some x \<Longrightarrow> x \<in> set xs \<and> P x"
  by (auto simp: find_Some_iff)

lemma find_cong_filter: "find P xs = None \<longleftrightarrow> (\<forall>x\<in>set xs. \<not> P x)"
  by (auto simp: find_None_iff)

lemma find_keyed: "distinct (map f xs) \<Longrightarrow> x \<in> set xs \<Longrightarrow> find (\<lambda>y. f y = f x) xs = Some x"
  by (induction xs) (auto simp: rev_image_eqI)

lemma head_changed_tables [simp]:
  "file_catalog (head_changed old new db) = file_catalog db"
  "file_versions (head_changed old new db) = file_versions db"
  "source_objects (head_changed old new db) = source_objects db"
  "roots (head_changed old new db) = roots db"
  "org_members (head_changed old new db) = org_members db"
  "version_sequence (head_changed old new db) = version_sequence db"
  "file_extractions (head_changed old new db) = file_extractions db"
  "file_work (head_changed old new db) = file_work db"
  "file_version_extents (head_changed old new db) = file_version_extents db"
  "file_content_proofs (head_changed old new db) = file_content_proofs db"
  "extraction_sequence (head_changed old new db) = extraction_sequence db"
  by (auto simp: head_changed_def)

lemma enqueue_changes_tables [simp]:
  "file_catalog (enqueue_changes fs db) = file_catalog db"
  "file_versions (enqueue_changes fs db) = file_versions db"
  "source_objects (enqueue_changes fs db) = source_objects db"
  "roots (enqueue_changes fs db) = roots db"
  "org_members (enqueue_changes fs db) = org_members db"
  "version_sequence (enqueue_changes fs db) = version_sequence db"
  "file_extractions (enqueue_changes fs db) = file_extractions db"
  "file_work (enqueue_changes fs db) = file_work db"
  "file_version_extents (enqueue_changes fs db) = file_version_extents db"
  "file_content_proofs (enqueue_changes fs db) = file_content_proofs db"
  "extraction_sequence (enqueue_changes fs db) = extraction_sequence db"
  by (induction fs arbitrary: db) auto

lemma proof_changed_tables [simp]:
  "file_catalog (proof_changed r p db) = file_catalog db"
  "file_versions (proof_changed r p db) = file_versions db"
  "source_objects (proof_changed r p db) = source_objects db"
  "roots (proof_changed r p db) = roots db"
  "org_members (proof_changed r p db) = org_members db"
  "version_sequence (proof_changed r p db) = version_sequence db"
  "file_extractions (proof_changed r p db) = file_extractions db"
  "file_work (proof_changed r p db) = file_work db"
  "file_version_extents (proof_changed r p db) = file_version_extents db"
  "file_content_proofs (proof_changed r p db) = file_content_proofs db"
  "extraction_sequence (proof_changed r p db) = extraction_sequence db"
  by (auto simp: proof_changed_def)

end
