(* ===== verification/Organizations.thy ===== *)
theory Organizations
  imports Database
begin

text \<open>
  Organisations: sessions and API keys, members, groups, roots, grants and folder rules
  (\<^verbatim>\<open>internal/server/db.go\<close>, the database functions of \<^verbatim>\<open>src/migrations\<close> that it calls, and the
  handlers of \<^verbatim>\<open>internal/server/handlers.go\<close>).  Identifiers that the code draws at random
  (\<^verbatim>\<open>uuid.New\<close>) and the clock are arguments; the decoded JSON body of a request is an option
  whose None is a body that does not decode.
\<close>

datatype db_error = NoRows | PgError string string | RootOrgMissing | RootOwnerMissing | RootCreateUnauthorized

section \<open>Sessions and API keys\<close>

definition ResolveSession :: "database \<Rightarrow> string \<Rightarrow> string \<Rightarrow> identity option" where
  "ResolveSession db userID orgID = (case member_of db orgID userID of
      None \<Rightarrow> None
    | Some m \<Rightarrow> (case find (\<lambda>u. user_id u = userID) (users db) of
        None \<Rightarrow> None
      | Some u \<Rightarrow> Some \<lparr>id_user = userID, id_org = orgID, id_role = mem_role m, id_email = user_email u,
          id_scopes = [], id_api_key = []\<rparr>))"

definition key_live :: "nat \<Rightarrow> api_key_row \<Rightarrow> bool" where
  "key_live now k = (case key_expires k of None \<Rightarrow> True | Some t \<Rightarrow> t > now)"

definition ResolveAPIKey :: "database \<Rightarrow> nat \<Rightarrow> string \<Rightarrow> identity option" where
  "ResolveAPIKey db now keyHash =
    (case find (\<lambda>k. key_hash k = keyHash \<and> key_live now k \<and> member_of db (key_org k) (key_user k) \<noteq> None
        \<and> list_ex (\<lambda>u. user_id u = key_user k) (users db)) (api_keys db) of
       None \<Rightarrow> None
     | Some k \<Rightarrow>
        (case (member_of db (key_org k) (key_user k), find (\<lambda>u. user_id u = key_user k) (users db)) of
           (Some m, Some u) \<Rightarrow> Some \<lparr>id_user = key_user k, id_org = key_org k, id_role = mem_role m,
              id_email = user_email u, id_scopes = key_scopes k, id_api_key = key_id k\<rparr>
         | _ \<Rightarrow> None))"

text \<open>The array overlap test of the statements: no scopes at all, or one of the listed ones.\<close>

definition scopes_allow :: "string list \<Rightarrow> string list \<Rightarrow> bool" where
  "scopes_allow scopes allowed \<longleftrightarrow> scopes = [] \<or> list_ex (\<lambda>s. s \<in> set allowed) scopes"

definition CreateAPIKey ::
  "(string \<Rightarrow> string) \<Rightarrow> database \<Rightarrow> nat \<Rightarrow> string \<Rightarrow> string \<Rightarrow> string \<Rightarrow> string \<Rightarrow> string \<Rightarrow> string list \<Rightarrow> string
    \<Rightarrow> db_error + string \<times> database" where
  "CreateAPIKey hashAPIKey db now newID rawUUID orgID userID name scopes authorizingKeyID =
    (let rawKey = ''pfs_'' @ rawUUID in
     if member_of db orgID userID \<noteq> None \<and> (authorizingKeyID = [] \<or>
          list_ex (\<lambda>ak. key_id ak = authorizingKeyID \<and> key_org ak = orgID \<and> key_user ak = userID \<and> key_live now ak
            \<and> scopes_allow (key_scopes ak) [''api_keys:write'', ''admin'', ''write'', ''*'']) (api_keys db))
     then Inr (rawKey, db\<lparr>api_keys := api_keys db @ [\<lparr>key_id = newID, key_org = orgID, key_user = userID,
            key_hash = hashAPIKey rawKey, key_name = name, key_scopes = scopes, key_expires = None\<rparr>]\<rparr>)
     else Inl NoRows)"

definition DeleteAPIKey :: "database \<Rightarrow> string \<Rightarrow> string \<Rightarrow> database" where
  "DeleteAPIKey db orgID keyID =
    db\<lparr>api_keys := filter (\<lambda>k. \<not> (key_id k = keyID \<and> key_org k = orgID)) (api_keys db)\<rparr>"

definition ListAPIKeys :: "database \<Rightarrow> string \<Rightarrow> string \<Rightarrow> api_key_row list" where
  "ListAPIKeys db orgID userID = filter (\<lambda>k. key_org k = orgID \<and> key_user k = userID) (rev (api_keys db))"

section \<open>Members\<close>

text \<open>
  The database function \<^verbatim>\<open>change_org_member\<close> of \<^verbatim>\<open>042_member_changes.sql\<close> that
  \<^verbatim>\<open>changeOrgMember\<close> calls: one transaction under the lock of the organisation.
\<close>

definition set_member_role :: "database \<Rightarrow> string \<Rightarrow> string \<Rightarrow> string \<Rightarrow> database" where
  "set_member_role db org user role = db\<lparr>org_members :=
     map (\<lambda>m. if mem_org m = org \<and> mem_user m = user then m\<lparr>mem_role := role\<rparr> else m) (org_members db)\<rparr>"

definition member_change_refused ::
  "database \<Rightarrow> nat \<Rightarrow> string \<Rightarrow> string \<Rightarrow> string \<Rightarrow> string \<Rightarrow> string \<Rightarrow> string \<Rightarrow> db_error option" where
  "member_change_refused db now org actor key target role mode =
    (if mode \<notin> {''upsert'', ''update'', ''delete'', ''join''}
        \<or> (mode \<noteq> ''delete'' \<and> role \<notin> {RoleOwner, RoleAdmin, RoleEditor, RoleViewer})
     then Some (PgError ''PF400'' ''invalid member change'')
     else if \<not> list_ex (\<lambda>r. org_id r = org) (organizations db) then Some (PgError ''PF404'' ''org not found'')
     else if actor \<noteq> [] \<and> (case member_of db org actor of None \<Rightarrow> True
          | Some m \<Rightarrow> mem_role m \<notin> {RoleOwner, RoleAdmin}) then Some (PgError ''PF403'' ''admin role required'')
     else if actor \<noteq> [] \<and> key \<noteq> [] \<and> \<not> list_ex (\<lambda>k. key_id k = key \<and> key_org k = org \<and> key_user k = actor
          \<and> key_live now k \<and> scopes_allow (key_scopes k) [''org:admin'', ''admin'', ''write'', ''*'']) (api_keys db)
     then Some (PgError ''PF403'' ''org admin scope required'')
     else if member_of db org target = None \<and> mode \<in> {''update'', ''delete''}
     then Some (PgError ''PF404'' ''member not found'')
     else if actor = [] then None
     else if mode = ''join'' then Some (PgError ''PF400'' ''invalid member change'')
     else if actor = target \<and> (mode \<noteq> ''upsert'' \<or> map_option mem_role (member_of db org target) \<noteq> Some role)
     then Some (PgError ''PF403'' ''cannot change your own membership'')
     else if map_option mem_role (member_of db org actor) = Some RoleAdmin
          \<and> (map_option mem_role (member_of db org target) \<in> {Some RoleOwner, Some RoleAdmin}
             \<or> (mode \<noteq> ''delete'' \<and> role \<in> {RoleOwner, RoleAdmin}))
     then Some (PgError ''PF403'' ''cannot change that member role'')
     else None)"

definition changeOrgMember ::
  "database \<Rightarrow> nat \<Rightarrow> string \<Rightarrow> identity option \<Rightarrow> string \<Rightarrow> string \<Rightarrow> string \<Rightarrow> db_error + member_row \<times> database" where
  "changeOrgMember db now org actor target role mode =
    (let actorID = (case actor of None \<Rightarrow> [] | Some a \<Rightarrow> id_user a);
         keyID = (case actor of None \<Rightarrow> [] | Some a \<Rightarrow> id_api_key a) in
     case member_change_refused db now org actorID keyID target role mode of
       Some e \<Rightarrow> Inl e
     | None \<Rightarrow>
        (case member_of db org target of
           Some m \<Rightarrow>
             if mode = ''delete'' then
               Inr (m, db\<lparr>org_members := filter (\<lambda>m. \<not> (mem_org m = org \<and> mem_user m = target)) (org_members db)\<rparr>)
             else if mode \<noteq> ''join'' \<and> mem_role m \<noteq> role then
               Inr (m\<lparr>mem_role := role\<rparr>, set_member_role db org target role)
             else Inr (m, db)
         | None \<Rightarrow>
             if \<not> list_ex (\<lambda>u. user_id u = target) (users db) then Inl (PgError ''PF404'' ''user not found'')
             else let m = \<lparr>mem_org = org, mem_user = target, mem_role = role\<rparr> in
               Inr (m, db\<lparr>org_members := org_members db @ [m]\<rparr>)))"

text \<open>\<^verbatim>\<open>writeMutationError\<close>: the status that an error of these database functions becomes.\<close>

definition writeMutationError :: "db_error \<Rightarrow> 'a response" where
  "writeMutationError err = (case err of
      PgError code msg \<Rightarrow>
        if code = ''PF400'' then Fail 400 msg
        else if code = ''PF403'' then Fail 403 msg
        else if code = ''PF409'' then Fail 409 msg
        else if code = ''PF404'' then Fail 404 msg
        else if code = ''23503'' then Fail 404 ''user not found''
        else Fail 500 msg
    | _ \<Rightarrow> Fail 500 ''database error'')"

record change_member_request = cm_user :: string cm_role :: string

text \<open>\<^verbatim>\<open>handleChangeMember\<close>: DELETE removes, POST adds or updates, every other method updates.\<close>

definition handleChangeMember ::
  "database \<Rightarrow> nat \<Rightarrow> identity option \<Rightarrow> string \<Rightarrow> string \<Rightarrow> change_member_request option
    \<Rightarrow> member_row option response \<times> database" where
  "handleChangeMember db now who meth pathUser body =
    (case requireOrgAdmin who of
       Inl msg \<Rightarrow> (Fail 403 msg, db)
     | Inr idn \<Rightarrow>
        (let change = (\<lambda>mode userID role.
               if userID = [] then (Fail 400 ''user_id required'', db)
               else case changeOrgMember db now (id_org idn) (Some idn) userID role mode of
                   Inl e \<Rightarrow> (writeMutationError e, db)
                 | Inr (m, db') \<Rightarrow> (Reply 200 (if mode = ''update'' then Some m else None), db')) in
         if meth = ''DELETE'' then change ''delete'' pathUser []
         else case body of
            None \<Rightarrow> (Fail 400 ''invalid JSON'', db)
          | Some req \<Rightarrow>
             (case parseRole (cm_role req) RoleViewer of
                Inl e \<Rightarrow> (Fail 400 e, db)
              | Inr role \<Rightarrow> if meth = ''POST'' then change ''upsert'' (trim_space (cm_user req)) role
                             else change ''update'' pathUser role)))"

text \<open>\<^verbatim>\<open>handleAdminUpsertMember\<close>: the platform administrator has no actor.\<close>

definition handleAdminUpsertMember ::
  "database \<Rightarrow> nat \<Rightarrow> bool \<Rightarrow> string \<Rightarrow> string \<Rightarrow> string option \<Rightarrow> member_row response \<times> database" where
  "handleAdminUpsertMember db now isAdmin orgID userID bodyRole =
    (if \<not> isAdmin then (Fail 403 ''admin API key required'', db)
     else case bodyRole of
        None \<Rightarrow> (Fail 400 ''invalid JSON'', db)
      | Some raw \<Rightarrow>
         (case parseRole raw RoleViewer of
            Inl e \<Rightarrow> (Fail 400 e, db)
          | Inr role \<Rightarrow>
             (case changeOrgMember db now orgID None userID role ''upsert'' of
                Inl e \<Rightarrow> (writeMutationError e, db)
              | Inr (m, db') \<Rightarrow> (Reply 200 m, db'))))"

section \<open>API key handlers\<close>

record api_key_request = ak_name :: string ak_scopes :: "string list"

definition handleCreateAPIKey ::
  "(string \<Rightarrow> string) \<Rightarrow> database \<Rightarrow> nat \<Rightarrow> string \<Rightarrow> string \<Rightarrow> identity option \<Rightarrow> api_key_request option
    \<Rightarrow> string response \<times> database" where
  "handleCreateAPIKey hashAPIKey db now newID rawUUID who body =
    (case who of
       None \<Rightarrow> (Fail 401 ''unauthorized'', db)
     | Some idn \<Rightarrow>
        if \<not> HasScope who ''api_keys:write'' [''admin'', ''write''] then (Fail 403 ''api key write scope required'', db)
        else case body of
           None \<Rightarrow> (Fail 400 ''invalid JSON'', db)
         | Some req \<Rightarrow>
            (let name = (if ak_name req = [] then ''CLI Key'' else ak_name req) in
             case normalizeExplicitAPIKeyScopes (ak_scopes req) of
               Inl e \<Rightarrow> (Fail 400 e, db)
             | Inr scopes \<Rightarrow>
                (case CreateAPIKey hashAPIKey db now newID rawUUID (id_org idn) (id_user idn) name scopes (id_api_key idn) of
                   Inl e \<Rightarrow> (if e = NoRows then Fail 403 ''key creation is no longer authorized''
                             else Fail 500 ''database error'', db)
                 | Inr (rawKey, db') \<Rightarrow> (Reply 201 rawKey, db'))))"

definition handleListAPIKeys :: "database \<Rightarrow> identity option \<Rightarrow> api_key_row list response" where
  "handleListAPIKeys db who = (case who of
      None \<Rightarrow> Fail 401 ''unauthorized''
    | Some idn \<Rightarrow>
        if \<not> HasScope who ''api_keys:read'' [''api_keys:write'', ''admin'', ''read'', ''write'']
        then Fail 403 ''api key read scope required''
        else Reply 200 (ListAPIKeys db (id_org idn) (id_user idn)))"

definition handleDeleteAPIKey :: "database \<Rightarrow> identity option \<Rightarrow> string \<Rightarrow> unit response \<times> database" where
  "handleDeleteAPIKey db who keyID = (case who of
      None \<Rightarrow> (Fail 401 ''unauthorized'', db)
    | Some idn \<Rightarrow>
        if \<not> HasScope who ''api_keys:write'' [''admin'', ''write''] then (Fail 403 ''api key write scope required'', db)
        else (Reply 200 (), DeleteAPIKey db (id_org idn) keyID))"

definition handleAdminCreateAPIKey ::
  "(string \<Rightarrow> string) \<Rightarrow> database \<Rightarrow> nat \<Rightarrow> string \<Rightarrow> string \<Rightarrow> bool \<Rightarrow> string \<Rightarrow> string \<Rightarrow> api_key_request option
    \<Rightarrow> (string \<times> string list) response \<times> database" where
  "handleAdminCreateAPIKey hashAPIKey db now newID rawUUID isAdmin orgID userID body =
    (if \<not> isAdmin then (Fail 403 ''admin API key required'', db)
     else case body of
        None \<Rightarrow> (Fail 400 ''invalid JSON'', db)
      | Some req \<Rightarrow>
         (let name = (if ak_name req = [] then ''provisioned-key'' else ak_name req);
              wanted = (if ak_scopes req = [] then [''query''] else ak_scopes req) in
          case normalizeExplicitAPIKeyScopes wanted of
            Inl e \<Rightarrow> (Fail 400 e, db)
          | Inr scopes \<Rightarrow>
             (case CreateAPIKey hashAPIKey db now newID rawUUID orgID userID name scopes [] of
                Inl e \<Rightarrow> (if e = NoRows then Fail 404 ''member not found'' else Fail 500 ''database error'', db)
              | Inr (rawKey, db') \<Rightarrow> (Reply 201 (rawKey, scopes), db'))))"

section \<open>Sessions carry the current membership\<close>

lemma member_of_Some:
  "member_of db org user = Some m \<Longrightarrow> m \<in> set (org_members db) \<and> mem_org m = org \<and> mem_user m = user"
  unfolding member_of_def by (auto dest: find_member_mem)

lemma member_of_None: "member_of db org user = None \<longleftrightarrow> (\<forall>m\<in>set (org_members db). \<not> (mem_org m = org \<and> mem_user m = user))"
  unfolding member_of_def by (simp add: find_cong_filter)

definition has_membership :: "database \<Rightarrow> identity \<Rightarrow> bool" where
  "has_membership db idn \<longleftrightarrow> (\<exists>m\<in>set (org_members db). mem_org m = id_org idn \<and> mem_user m = id_user idn
     \<and> mem_role m = id_role idn)"

lemma ResolveSession_member: "ResolveSession db u g = Some idn \<Longrightarrow> has_membership db idn \<and> id_scopes idn = []"
  by (auto simp: ResolveSession_def has_membership_def dest!: member_of_Some split: option.splits)

lemma ResolveAPIKey_member:
  assumes "ResolveAPIKey db now h = Some idn"
  shows "has_membership db idn
    \<and> (\<exists>k\<in>set (api_keys db). key_hash k = h \<and> key_live now k \<and> key_id k = id_api_key idn \<and> key_scopes k = id_scopes idn)"
proof -
  let ?P = "\<lambda>k. key_hash k = h \<and> key_live now k \<and> member_of db (key_org k) (key_user k) \<noteq> None
        \<and> list_ex (\<lambda>u. user_id u = key_user k) (users db)"
  obtain k where f: "find ?P (api_keys db) = Some k"
    using assms unfolding ResolveAPIKey_def by (cases "find ?P (api_keys db)") simp_all
  then show ?thesis
    using find_member_mem[OF f] assms unfolding ResolveAPIKey_def f
    by (auto simp: has_membership_def dest!: member_of_Some split: option.splits)
qed

text \<open>
  C28: outside the public paths, a request goes on only with an identity that the database
  confirms now: its organisation, user and role are those of a current membership row (a role
  embedded in the token is never used), and it comes either from a token whose signature
  checks and names that user, or from an unexpired API key with the hash of the token and
  exactly that key's scopes.
\<close>

theorem Middleware_current_membership:
  assumes "Middleware validateJWT hashAPIKey (ResolveAPIKey db now) (ResolveSession db) r = AuthAs idn"
  shows "req_path r \<notin> set unauth_paths \<and> has_membership db idn \<and>
    (\<exists>token. tokenFromRequest r = Some token \<and>
      (case validateJWT token of
         Some claims \<Rightarrow> id_scopes idn = [] \<and> id_user idn = claim_user claims \<and> id_org idn = claim_org claims
       | None \<Rightarrow> (\<exists>k\<in>set (api_keys db). key_hash k = hashAPIKey token \<and> key_live now k
                    \<and> key_id k = id_api_key idn \<and> key_scopes k = id_scopes idn)))"
proof -
  obtain token where token: "req_path r \<notin> set unauth_paths" "tokenFromRequest r = Some token"
    using assms unfolding Middleware_def by (auto split: if_splits option.splits)
  show ?thesis
  proof (cases "validateJWT token")
    case None
    then have "ResolveAPIKey db now (hashAPIKey token) = Some idn"
      using assms token unfolding Middleware_def by (auto split: option.splits)
    from ResolveAPIKey_member[OF this] None token show ?thesis by auto
  next
    case (Some claims)
    then have s: "ResolveSession db (claim_user claims) (claim_org claims) = Some idn"
      using assms token unfolding Middleware_def by (auto split: option.splits)
    then have "id_user idn = claim_user claims" "id_org idn = claim_org claims"
      by (auto simp: ResolveSession_def split: option.splits)
    with ResolveSession_member[OF s] Some token show ?thesis by auto
  qed
qed

text \<open>A database with one organisation, its owner and an editor, for the witnesses.\<close>

definition sample_db :: database where
  "sample_db = empty_database\<lparr>
     organizations := [\<lparr>org_id = ''o1'', org_name = ''Acme'', org_slug = ''acme'', org_external = []\<rparr>],
     users := [\<lparr>user_id = ''u1'', user_email = ''a@x'', user_name = ''Ann'', user_avatar = [], user_provider = ''google'', user_provider_id = ''g1'', user_external = []\<rparr>, \<lparr>user_id = ''u2'', user_email = ''b@x'', user_name = ''Bob'', user_avatar = [], user_provider = ''google'', user_provider_id = ''g2'', user_external = []\<rparr>],
     org_members := [\<lparr>mem_org = ''o1'', mem_user = ''u1'', mem_role = RoleOwner\<rparr>,
                     \<lparr>mem_org = ''o1'', mem_user = ''u2'', mem_role = RoleEditor\<rparr>]\<rparr>"

definition sample_owner :: identity where
  "sample_owner = \<lparr>id_user = ''u1'', id_org = ''o1'', id_role = RoleOwner, id_email = ''a@x'', id_scopes = [], id_api_key = []\<rparr>"

definition sample_request :: http_request where
  "sample_request = \<lparr>req_path = ''/roots'', req_authorization = ''Bearer t'', req_cookie = None\<rparr>"

definition sample_jwt :: "string \<Rightarrow> jwt_claims option" where
  "sample_jwt token = (if token = ''t'' then Some \<lparr>claim_user = ''u1'', claim_org = ''o1'', claim_role = RoleViewer, claim_email = []\<rparr> else None)"

theorem Middleware_current_membership_witness:
  "Middleware sample_jwt id (ResolveAPIKey sample_db 0) (ResolveSession sample_db) sample_request = AuthAs sample_owner
    \<and> has_membership sample_db sample_owner"
proof -
  have run: "Middleware sample_jwt id (ResolveAPIKey sample_db 0) (ResolveSession sample_db) sample_request = AuthAs sample_owner"
    by code_simp
  from Middleware_current_membership[OF run] run show ?thesis by blast
qed

section \<open>An organisation keeps its owner\<close>

definition has_owner :: "database \<Rightarrow> string \<Rightarrow> bool" where
  "has_owner db org \<longleftrightarrow> (\<exists>m\<in>set (org_members db). mem_org m = org \<and> mem_role m = RoleOwner)"

text \<open>The primary key of \<^verbatim>\<open>org_members\<close>.\<close>

definition members_keyed :: "database \<Rightarrow> bool" where
  "members_keyed db \<longleftrightarrow> distinct (map (\<lambda>m. (mem_org m, mem_user m)) (org_members db))"

lemma member_of_keyed:
  "members_keyed db \<Longrightarrow> m \<in> set (org_members db) \<Longrightarrow> member_of db (mem_org m) (mem_user m) = Some m"
  using find_keyed[of "\<lambda>m. (mem_org m, mem_user m)" "org_members db" m]
  by (simp add: members_keyed_def member_of_def)

lemma member_change_allowed:
  assumes "member_change_refused db now org actor key target role mode = None" "actor \<noteq> []"
  shows "\<exists>a. member_of db org actor = Some a \<and> (mem_role a = RoleOwner \<or> mem_role a = RoleAdmin)
    \<and> (mem_role a = RoleAdmin \<longrightarrow> map_option mem_role (member_of db org target) \<notin> {Some RoleOwner, Some RoleAdmin})
    \<and> (actor = target \<longrightarrow> mode = ''upsert'' \<and> map_option mem_role (member_of db org target) = Some role)"
  using assms unfolding member_change_refused_def
  by (cases "member_of db org actor") (auto split: if_splits)

lemma changeOrgMember_Inr:
  assumes "changeOrgMember db now org actor target role mode = Inr (m, db')"
  shows "org_members db' = org_members db
    \<or> org_members db' = filter (\<lambda>m. \<not> (mem_org m = org \<and> mem_user m = target)) (org_members db)
    \<or> org_members db' = map (\<lambda>m. if mem_org m = org \<and> mem_user m = target then m\<lparr>mem_role := role\<rparr> else m) (org_members db)
    \<or> member_of db org target = None \<and> org_members db' = org_members db @ [\<lparr>mem_org = org, mem_user = target, mem_role = role\<rparr>]"
  using assms unfolding changeOrgMember_def Let_def
  by (auto simp: set_member_role_def split: option.splits if_splits)

lemma changeOrgMember_keyed:
  assumes "changeOrgMember db now org actor target role mode = Inr (m, db')" "members_keyed db"
  shows "members_keyed db'"
proof -
  let ?key = "\<lambda>m. (mem_org m, mem_user m)"
  have upd: "map (?key \<circ> (\<lambda>m. if mem_org m = org \<and> mem_user m = target then m\<lparr>mem_role := role\<rparr> else m)) ms = map ?key ms" for ms
    by (induction ms) auto
  show ?thesis
    using changeOrgMember_Inr[OF assms(1)] assms(2) upd
    unfolding members_keyed_def
    by (elim disjE) (simp_all only: map_map upd, auto simp: member_of_None distinct_map_filter)
qed

lemma changeOrgMember_keeps_owner:
  assumes "changeOrgMember db now org (Some a) target role mode = Inr (m, db')"
    and "members_keyed db" "id_user a \<noteq> []" "has_owner db org'"
  shows "has_owner db' org'"
proof -
  have "member_change_refused db now org (id_user a) (id_api_key a) target role mode = None"
    using assms(1) by (auto simp: changeOrgMember_def split: option.splits)
  from member_change_allowed[OF this assms(3)]
  obtain b where b: "member_of db org (id_user a) = Some b" "mem_role b = RoleOwner \<or> mem_role b = RoleAdmin"
      "mem_role b = RoleAdmin \<longrightarrow> map_option mem_role (member_of db org target) \<notin> {Some RoleOwner, Some RoleAdmin}"
      "id_user a = target \<longrightarrow> mode = ''upsert'' \<and> map_option mem_role (member_of db org target) = Some role" by blast
  note bm = member_of_Some[OF b(1)]
  obtain w where w: "w \<in> set (org_members db)" "mem_org w = org'" "mem_role w = RoleOwner"
    using assms(4) by (auto simp: has_owner_def)
  define touched where "touched = (\<lambda>m :: member_row. mem_org m = org \<and> mem_user m = target)"
  show ?thesis
  proof (cases "touched w")
    case False
    then have "w \<in> set (org_members db')"
      using changeOrgMember_Inr[OF assms(1)] w(1) by (elim disjE) (auto simp: touched_def image_iff intro: bexI[of _ w])
    with w show ?thesis by (auto simp: has_owner_def)
  next
    case True
    then have t: "member_of db org target = Some w" using member_of_keyed[OF assms(2) w(1)] by (auto simp: touched_def)
    then have owner: "mem_role b = RoleOwner" using b(2,3) w(3) by auto
    show ?thesis
    proof (cases "id_user a = target")
      case True
      then have "mode = ''upsert''" "role = mem_role w" using b(4) t by auto
      then have "db' = db" using assms(1) t by (auto simp: changeOrgMember_def split: option.splits)
      with assms(4) show ?thesis by simp
    next
      case False
      then have "b \<in> set (org_members db')"
        using changeOrgMember_Inr[OF assms(1)] bm by (elim disjE) (auto simp: image_iff intro: bexI[of _ b])
      moreover have "mem_org b = org'" using bm True w(2) by (simp add: touched_def)
      ultimately show ?thesis using owner by (auto simp: has_owner_def)
    qed
  qed
qed

text \<open>The member changes that authenticated requests can make, one after the other.\<close>

inductive member_changes :: "database \<Rightarrow> database \<Rightarrow> bool" where
  no_change: "member_changes db db"
| change: "member_changes db db1 \<Longrightarrow> id_user idn \<noteq> []
    \<Longrightarrow> handleChangeMember db1 now (Some idn) meth pathUser body = (resp, db2) \<Longrightarrow> member_changes db db2"

lemma handleChangeMember_db:
  assumes "handleChangeMember db now (Some idn) meth pathUser body = (resp, db')"
  shows "db' = db \<or> (\<exists>org target role mode m. changeOrgMember db now org (Some idn) target role mode = Inr (m, db'))"
proof (cases "requireOrgAdmin (Some idn)")
  case (Inr x)
  then have "x = idn" by (auto simp: requireOrgAdmin_def split: if_splits)
  with Inr assms show ?thesis
    by (auto simp: handleChangeMember_def Let_def split: option.splits if_splits sum.splits prod.splits)
qed (use assms in \<open>auto simp: handleChangeMember_def\<close>)

lemma member_changes_invariant:
  assumes "member_changes db db'" "members_keyed db" "has_owner db org"
  shows "members_keyed db' \<and> has_owner db' org"
  using assms
proof (induction rule: member_changes.induct)
  case (change db db1 idn now meth pathUser body resp db2)
  then have "members_keyed db1" "has_owner db1 org" by auto
  with handleChangeMember_db[OF change.hyps(3)] change.hyps(2) show ?case
    using changeOrgMember_keyed changeOrgMember_keeps_owner by metis
qed auto



section \<open>API keys authenticate their creator\<close>

text \<open>
  C30: a key returned by \<^verbatim>\<open>handleCreateAPIKey\<close> authenticates as the member who created it, with
  exactly the normalised scopes that were asked for (never the unrestricted empty list), as long as
  no other stored key has the same hash; once \<^verbatim>\<open>handleDeleteAPIKey\<close> has removed it in the
  organisation, it authenticates nobody.
\<close>

theorem created_key_authenticates:
  assumes "handleCreateAPIKey hashAPIKey db now newID rawUUID (Some idn) body = (Reply 201 rawKey, db')"
    and "\<forall>k\<in>set (api_keys db). key_hash k \<noteq> hashAPIKey rawKey \<and> key_id k \<noteq> newID"
    and "find (\<lambda>u. user_id u = id_user idn) (users db) = Some u"
  shows "(\<exists>who req. body = Some req \<and> ResolveAPIKey db' now (hashAPIKey rawKey) = Some who \<and> id_user who = id_user idn
      \<and> id_org who = id_org idn \<and> id_api_key who = newID \<and> id_scopes who \<noteq> []
      \<and> set (id_scopes who) = trim_space ` set (ak_scopes req) - {[]})
    \<and> ResolveAPIKey (DeleteAPIKey db' (id_org idn) newID) now (hashAPIKey rawKey) = None"
proof -
  obtain req scopes where b: "body = Some req" and n: "normalizeExplicitAPIKeyScopes (ak_scopes req) = Inr scopes"
    and "\<exists>name. CreateAPIKey hashAPIKey db now newID rawUUID (id_org idn) (id_user idn) name scopes (id_api_key idn) = Inr (rawKey, db')"
    using assms(1) by (auto simp: handleCreateAPIKey_def Let_def split: option.splits if_splits sum.splits prod.splits)
  then obtain name where m: "member_of db (id_org idn) (id_user idn) \<noteq> None"
    and db': "db' = db\<lparr>api_keys := api_keys db @ [\<lparr>key_id = newID, key_org = id_org idn, key_user = id_user idn,
            key_hash = hashAPIKey rawKey, key_name = name, key_scopes = scopes, key_expires = None\<rparr>]\<rparr>"
    by (auto simp: CreateAPIKey_def Let_def split: if_splits)
  have find_append: "find P (xs @ [x]) = (if \<exists>y\<in>set xs. P y then find P xs else if P x then Some x else None)"
    for P :: "api_key_row \<Rightarrow> bool" and xs x
    by (induction xs) auto
  have mem: "member_of db' = member_of db" "member_of (DeleteAPIKey db' (id_org idn) newID) = member_of db"
    by (auto simp: db' member_of_def DeleteAPIKey_def fun_eq_iff)
  have "list_ex (\<lambda>u. user_id u = id_user idn) (users db)"
    using assms(3) by (auto simp: list_ex_iff dest: find_member_mem)
  moreover have "ys \<noteq> [] \<and> set ys = trim_space ` set (ak_scopes req) - {[]}"
    if "normalizeExplicitAPIKeyScopes (ak_scopes req) = Inr ys" for ys
    using that normalize_scopes_loop_Inr[of "[]" "ak_scopes req"]
    by (auto simp: normalizeExplicitAPIKeyScopes_def split: sum.splits list.splits)
  ultimately have "\<exists>who req. body = Some req \<and> ResolveAPIKey db' now (hashAPIKey rawKey) = Some who
      \<and> id_user who = id_user idn \<and> id_org who = id_org idn \<and> id_api_key who = newID \<and> id_scopes who \<noteq> []
      \<and> set (id_scopes who) = trim_space ` set (ak_scopes req) - {[]}"
    using b n m assms(2,3) unfolding ResolveAPIKey_def mem
    by (auto simp: db' find_append key_live_def split: option.splits)
  moreover have "\<forall>k\<in>set (api_keys (DeleteAPIKey db' (id_org idn) newID)). key_hash k \<noteq> hashAPIKey rawKey"
    using assms(2) by (auto simp: db' DeleteAPIKey_def)
  then have "ResolveAPIKey (DeleteAPIKey db' (id_org idn) newID) now (hashAPIKey rawKey) = None"
    unfolding ResolveAPIKey_def by (subst find_None_iff[THEN iffD2]) auto
  ultimately show ?thesis by blast
qed

theorem created_key_authenticates_witness:
  "\<exists>who. ResolveAPIKey (snd (handleCreateAPIKey id sample_db 5 ''k1'' ''raw'' (Some sample_owner)
      (Some \<lparr>ak_name = [], ak_scopes = [''query'']\<rparr>))) 5 ''pfs_raw'' = Some who \<and> id_user who = ''u1''"
proof -
  let ?h = "handleCreateAPIKey id sample_db 5 ''k1'' ''raw'' (Some sample_owner) (Some \<lparr>ak_name = [], ak_scopes = [''query'']\<rparr>)"
  have "fst ?h = Reply 201 ''pfs_raw''" by code_simp
  then have run: "?h = (Reply 201 ''pfs_raw'', snd ?h)" by (metis prod.collapse)
  have keys: "api_keys sample_db = []" by code_simp
  have user: "find (\<lambda>u. user_id u = id_user sample_owner) (users sample_db) = Some \<lparr>user_id = ''u1'', user_email = ''a@x'', user_name = ''Ann'', user_avatar = [], user_provider = ''google'', user_provider_id = ''g1'', user_external = []\<rparr>"
    by code_simp
  show ?thesis
    using created_key_authenticates[OF run _ user] keys by (auto simp: sample_owner_def)
qed

end
