(* ===== verification/Roots.thy ===== *)
theory Roots
  imports Organizations
begin

text \<open>
  Roots, their grants and folder rules, and their deletion (\<^verbatim>\<open>internal/server/db.go\<close> and the root
  and access handlers of \<^verbatim>\<open>internal/server/handlers.go\<close>).  The search index and the object store
  that root deletion calls are parameters.
\<close>

section \<open>Creation\<close>

text \<open>\<^verbatim>\<open>createRoot\<close>: the actor's row in the statement's snapshot, then its CASE expression.\<close>

definition root_actor :: "database \<Rightarrow> nat \<Rightarrow> string \<Rightarrow> string \<Rightarrow> string \<Rightarrow> (string \<times> string list) option" where
  "root_actor db now orgID userID keyID = (case member_of db orgID userID of
      None \<Rightarrow> None
    | Some m \<Rightarrow>
        (case find (\<lambda>k. key_id k = keyID \<and> key_org k = orgID \<and> key_user k = userID \<and> key_live now k) (api_keys db) of
           Some k \<Rightarrow> Some (mem_role m, key_scopes k)
         | None \<Rightarrow> if keyID = [] then Some (mem_role m, []) else None))"

definition root_actor_allowed :: "string \<Rightarrow> string \<Rightarrow> string \<Rightarrow> string \<times> string list \<Rightarrow> bool" where
  "root_actor_allowed scope owner userID a =
    (scopes_allow (snd a) [''sync'', ''root:create'', ''write'', ''*''] \<and>
     (if scope = RootScopeOrg then fst a \<in> {RoleOwner, RoleAdmin, RoleEditor}
      else if scope = RootScopeUser then owner = userID \<or> fst a \<in> {RoleOwner, RoleAdmin}
      else if scope = RootScopeRestricted then fst a \<in> {RoleOwner, RoleAdmin}
        \<and> scopes_allow (snd a) [''org:admin'', ''admin'', ''write'', ''*'']
      else False))"

definition createRoot ::
  "database \<Rightarrow> nat \<Rightarrow> string \<Rightarrow> (string \<Rightarrow> string \<Rightarrow> string) \<Rightarrow> string \<Rightarrow> string \<Rightarrow> string \<Rightarrow> string \<Rightarrow> string \<Rightarrow> bool
    \<Rightarrow> identity option \<Rightarrow> db_error + root_row \<times> database" where
  "createRoot db now newID rootIndexNamespaceName orgID name sourcePath scope ownerUserID vectorDisabled actor =
    (let userID = (case actor of None \<Rightarrow> [] | Some a \<Rightarrow> id_user a);
         keyID = (case actor of None \<Rightarrow> [] | Some a \<Rightarrow> id_api_key a);
         root = \<lparr>root_id = newID, root_org = orgID, root_name = name, root_source_path = sourcePath, root_scope = scope,
            root_owner = ownerUserID, root_vector_disabled = vectorDisabled, root_created = now, root_deleting = None\<rparr> in
     if \<not> list_ex (\<lambda>g. org_id g = orgID) (organizations db) then Inl RootOrgMissing
     else if userID \<noteq> [] \<and> \<not> (case root_actor db now orgID userID keyID of None \<Rightarrow> False
          | Some a \<Rightarrow> root_actor_allowed scope ownerUserID userID a) then Inl RootCreateUnauthorized
     else if scope = RootScopeUser \<and> (userID = [] \<or> ownerUserID \<noteq> userID) \<and> member_of db orgID ownerUserID = None
     then Inl RootOwnerMissing
     else Inr (root, db\<lparr>roots := roots db @ [root], root_index_namespaces := root_index_namespaces db @
            [\<lparr>ns_org = orgID, ns_root = newID, ns_namespace = rootIndexNamespaceName orgID newID, ns_retired = False\<rparr>]\<rparr>))"

definition writeRootCreateError :: "db_error \<Rightarrow> 'a response" where
  "writeRootCreateError err = (case err of
      RootOrgMissing \<Rightarrow> Fail 404 ''org not found''
    | RootOwnerMissing \<Rightarrow> Fail 400 ''owner must be a member of the org''
    | RootCreateUnauthorized \<Rightarrow> Fail 403 ''root creation is no longer authorized''
    | _ \<Rightarrow> Fail 500 ''database error'')"

record create_root_request =
  cr_name :: string
  cr_source_path :: string
  cr_scope :: string
  cr_owner :: string
  cr_vector_disabled :: bool
  cr_disable_vector :: bool

text \<open>The checks of \<^verbatim>\<open>handleCreateRoot\<close> on the scope: the owner to store, or the refusal.\<close>

definition root_scope_owner :: "identity \<Rightarrow> string \<Rightarrow> string \<Rightarrow> string + string" where
  "root_scope_owner idn scope owner =
    (if scope = RootScopeOrg then
       (if \<not> HasMinRole (id_role idn) RoleEditor then Inl ''editor role required for org roots'' else Inr [])
     else if scope = RootScopeUser then
       (let o1 = (if owner = [] then id_user idn else owner) in
        if o1 \<noteq> id_user idn \<and> \<not> HasMinRole (id_role idn) RoleAdmin
        then Inl ''admin role required to create roots for another user'' else Inr o1)
     else if scope = RootScopeRestricted then
       (if \<not> HasMinRole (id_role idn) RoleAdmin \<or> \<not> HasScope (Some idn) ''org:admin'' [''admin'', ''write'']
        then Inl ''org admin scope required for restricted roots'' else Inr [])
     else Inr owner)"

definition handleCreateRoot ::
  "database \<Rightarrow> nat \<Rightarrow> string \<Rightarrow> (string \<Rightarrow> string \<Rightarrow> string) \<Rightarrow> identity option \<Rightarrow> create_root_request option
    \<Rightarrow> root_row response \<times> database" where
  "handleCreateRoot db now newID nsName who body = (case who of
      None \<Rightarrow> (Fail 401 ''unauthorized'', db)
    | Some idn \<Rightarrow>
       if \<not> HasScope who ''sync'' [''root:create'', ''write''] then (Fail 403 ''sync scope required'', db)
       else case body of
          None \<Rightarrow> (Fail 400 ''invalid JSON'', db)
        | Some req \<Rightarrow>
           if cr_name req = [] then (Fail 400 ''name is required'', db)
           else case parseRootScope (cr_scope req) of
              Inl e \<Rightarrow> (Fail 400 e, db)
            | Inr scope \<Rightarrow>
               (case root_scope_owner idn scope (trim_space (cr_owner req)) of
                  Inl e \<Rightarrow> (Fail 403 e, db)
                | Inr owner \<Rightarrow>
                   (case createRoot db now newID nsName (id_org idn) (cr_name req) (cr_source_path req) scope owner
                          (cr_vector_disabled req \<or> cr_disable_vector req) (Some idn) of
                      Inl e \<Rightarrow> (writeRootCreateError e, db)
                    | Inr (root, db') \<Rightarrow> (Reply 201 root, db'))))"

definition handleAdminCreateRoot ::
  "database \<Rightarrow> nat \<Rightarrow> string \<Rightarrow> (string \<Rightarrow> string \<Rightarrow> string) \<Rightarrow> bool \<Rightarrow> string \<Rightarrow> create_root_request option
    \<Rightarrow> root_row response \<times> database" where
  "handleAdminCreateRoot db now newID nsName isAdmin orgID body =
    (if \<not> isAdmin then (Fail 403 ''admin API key required'', db)
     else case body of
        None \<Rightarrow> (Fail 400 ''invalid JSON'', db)
      | Some req \<Rightarrow>
         (let name = trim_space (cr_name req); owner = trim_space (cr_owner req) in
          if name = [] then (Fail 400 ''name is required'', db)
          else case parseRootScope (cr_scope req) of
             Inl e \<Rightarrow> (Fail 400 e, db)
           | Inr scope \<Rightarrow>
              if scope = RootScopeUser \<and> owner = [] then (Fail 400 ''owner_user_id is required for user roots'', db)
              else case createRoot db now newID nsName orgID name (cr_source_path req) scope
                          (if scope = RootScopeUser then owner else []) (cr_vector_disabled req \<or> cr_disable_vector req) None of
                 Inl e \<Rightarrow> (writeRootCreateError e, db)
               | Inr (root, db') \<Rightarrow> (Reply 201 root, db')))"

section \<open>Access to roots\<close>

record root_access =
  ra_root :: root_row
  ra_access :: "string list"
  ra_source :: string

definition grant_applies :: "database \<Rightarrow> string \<Rightarrow> string \<Rightarrow> root_row \<Rightarrow> root_grant_row \<Rightarrow> bool" where
  "grant_applies db orgID userID r g \<longleftrightarrow> rg_org g = root_org r \<and> rg_root g = root_id r \<and>
    (rg_principal_type g = ''org'' \<and> rg_principal g = orgID
     \<or> rg_principal_type g = ''user'' \<and> rg_principal g = userID
     \<or> rg_principal_type g = ''group'' \<and> list_ex (\<lambda>gm. gm_org gm = rg_org g \<and> gm_group gm = rg_principal g \<and> gm_user gm = userID)
         (group_members db))"

definition grants_of :: "database \<Rightarrow> string \<Rightarrow> string \<Rightarrow> root_row \<Rightarrow> root_grant_permissions list" where
  "grants_of db orgID userID r = map (\<lambda>g. \<lparr>grant_principal_type = rg_principal_type g, grant_permissions = rg_permissions g\<rparr>)
     (sort_key rg_id (filter (grant_applies db orgID userID r) (root_grants db)))"

definition access_of :: "database \<Rightarrow> string \<Rightarrow> string \<Rightarrow> string \<Rightarrow> root_row \<Rightarrow> root_access" where
  "access_of db orgID userID role r =
    (let (perms, source) = effectiveRootPermissions (root_scope r) (root_owner r) userID role (grants_of db orgID userID r)
     in \<lparr>ra_root = r, ra_access = perms, ra_source = source\<rparr>)"

text \<open>\<^verbatim>\<open>accessibleRoots\<close>: None stands for the nil list of identifiers, which selects all roots of the organisation.\<close>

definition accessibleRoots ::
  "database \<Rightarrow> string \<Rightarrow> string \<Rightarrow> string \<Rightarrow> string list option \<Rightarrow> root_access list" where
  "accessibleRoots db orgID userID role ids =
    filter (\<lambda>a. rootPermissionAllowed (ra_access a) PermRead)
      (map (access_of db orgID userID role)
        (sort_key (\<lambda>r. (- int (root_created r), root_id r))
          (filter (\<lambda>r. root_org r = orgID \<and> (case ids of None \<Rightarrow> True | Some xs \<Rightarrow> root_id r \<in> set xs)) (roots db))))"

text \<open>\<^verbatim>\<open>rootForPermission\<close>: the root with its access and whether the permission is held; None where it is not found.\<close>

definition rootForPermission ::
  "database \<Rightarrow> identity option \<Rightarrow> string \<Rightarrow> string \<Rightarrow> (root_access \<times> bool) option" where
  "rootForPermission db who rootID permission = (case who of
      None \<Rightarrow> None
    | Some idn \<Rightarrow>
       (case accessibleRoots db (id_org idn) (id_user idn) (id_role idn) (Some [rootID]) of
          [] \<Rightarrow> None
        | root # _ \<Rightarrow> Some (root, rootPermissionAllowed (ra_access root) permission)))"

definition permitted_root :: "database \<Rightarrow> identity option \<Rightarrow> string \<Rightarrow> string \<Rightarrow> root_access option" where
  "permitted_root db who rootID permission = (case rootForPermission db who rootID permission of
      Some (root, True) \<Rightarrow> Some root | _ \<Rightarrow> None)"

definition handleListRoots :: "database \<Rightarrow> identity option \<Rightarrow> root_access list response" where
  "handleListRoots db who = (case who of
      None \<Rightarrow> Fail 401 ''unauthorized''
    | Some idn \<Rightarrow>
       if \<not> HasScope who ''query'' [''sync'', ''read'', ''write''] then Fail 403 ''query or sync scope required''
       else Reply 200 (accessibleRoots db (id_org idn) (id_user idn) (id_role idn) None))"

definition handleGetRoot :: "database \<Rightarrow> identity option \<Rightarrow> string \<Rightarrow> root_access response" where
  "handleGetRoot db who rootID = (case who of
      None \<Rightarrow> Fail 401 ''unauthorized''
    | Some idn \<Rightarrow>
       (case permitted_root db who rootID PermRead of
          None \<Rightarrow> Fail 404 ''root not found''
        | Some root \<Rightarrow>
           if \<not> HasScope who ''query'' [''sync'', ''read'', ''write''] then Fail 403 ''query or sync scope required''
           else Reply 200 root))"

section \<open>Grants\<close>

definition CreateRootGrant ::
  "database \<Rightarrow> string \<Rightarrow> string \<Rightarrow> string \<Rightarrow> string \<Rightarrow> string \<Rightarrow> string list \<Rightarrow> root_grant_row \<times> database" where
  "CreateRootGrant db newID orgID rootID principalType principalID permissions =
    (case find (\<lambda>g. rg_root g = rootID \<and> rg_principal_type g = principalType \<and> rg_principal g = principalID) (root_grants db) of
       Some g \<Rightarrow> (g\<lparr>rg_permissions := permissions\<rparr>, db\<lparr>root_grants :=
          map (\<lambda>h. if rg_root h = rootID \<and> rg_principal_type h = principalType \<and> rg_principal h = principalID
               then h\<lparr>rg_permissions := permissions\<rparr> else h) (root_grants db)\<rparr>)
     | None \<Rightarrow>
        (let g = \<lparr>rg_id = newID, rg_org = orgID, rg_root = rootID, rg_principal_type = principalType,
             rg_principal = principalID, rg_permissions = permissions\<rparr>
         in (g, db\<lparr>root_grants := root_grants db @ [g]\<rparr>)))"

definition ListRootGrants :: "database \<Rightarrow> string \<Rightarrow> string \<Rightarrow> root_grant_row list" where
  "ListRootGrants db orgID rootID = sort_key (\<lambda>g. (rg_principal_type g, rg_principal g))
     (filter (\<lambda>g. rg_org g = orgID \<and> rg_root g = rootID) (root_grants db))"

definition DeleteRootGrant :: "database \<Rightarrow> string \<Rightarrow> string \<Rightarrow> string \<Rightarrow> db_error + database" where
  "DeleteRootGrant db orgID rootID grantID =
    (let hit = (\<lambda>g. rg_id g = grantID \<and> rg_org g = orgID \<and> rg_root g = rootID) in
     if list_ex hit (root_grants db) then Inr (db\<lparr>root_grants := filter (\<lambda>g. \<not> hit g) (root_grants db)\<rparr>) else Inl NoRows)"

definition validateRootGrantPrincipal :: "database \<Rightarrow> string \<Rightarrow> string \<Rightarrow> string \<Rightarrow> string + string \<times> string" where
  "validateRootGrantPrincipal db orgID rawType rawID =
    (let ptype = trim_space rawType; pid = trim_space rawID in
     if ptype = [] \<or> pid = [] then Inl ''principal_type and principal_id are required''
     else if ptype = ''org'' then (if pid \<noteq> orgID then Inl ''org principal_id must match orgId'' else Inr (ptype, pid))
     else if ptype = ''user'' then
       (if member_of db orgID pid = None then Inl ''user principal must be an org member'' else Inr (ptype, pid))
     else if ptype = ''group'' then
       (if \<not> list_ex (\<lambda>g. group_org g = orgID \<and> group_id g = pid) (groups db) then Inl ''group principal not found''
        else Inr (ptype, pid))
     else Inl ''principal_type must be org, user, or group'')"

record grant_request = gr_type :: string gr_principal :: string gr_permissions :: "string list"

definition handleAdminCreateRootGrant ::
  "database \<Rightarrow> string \<Rightarrow> bool \<Rightarrow> string \<Rightarrow> string \<Rightarrow> grant_request option \<Rightarrow> root_grant_row response \<times> database" where
  "handleAdminCreateRootGrant db newID isAdmin orgID rootID body =
    (if \<not> isAdmin then (Fail 403 ''admin API key required'', db)
     else case root_of db orgID rootID of
        None \<Rightarrow> (Fail 404 ''root not found'', db)
      | Some root \<Rightarrow>
         (case body of
            None \<Rightarrow> (Fail 400 ''invalid JSON'', db)
          | Some req \<Rightarrow>
             (case validateRootGrantPrincipal db orgID (gr_type req) (gr_principal req) of
                Inl e \<Rightarrow> (Fail 400 e, db)
              | Inr (ptype, pid) \<Rightarrow>
                 (case normalizeRootGrantPermissions (gr_permissions req) of
                    Inl e \<Rightarrow> (Fail 400 e, db)
                  | Inr permissions \<Rightarrow>
                     (case CreateRootGrant db newID orgID (root_id root) ptype pid permissions of
                        (g, db') \<Rightarrow> (Reply 201 g, db'))))))"

definition handleAdminListRootGrants :: "database \<Rightarrow> bool \<Rightarrow> string \<Rightarrow> string \<Rightarrow> root_grant_row list response" where
  "handleAdminListRootGrants db isAdmin orgID rootID =
    (if \<not> isAdmin then Fail 403 ''admin API key required''
     else if root_of db orgID rootID = None then Fail 404 ''root not found''
     else Reply 200 (ListRootGrants db orgID rootID))"

definition handleAdminDeleteRootGrant :: "database \<Rightarrow> bool \<Rightarrow> string \<Rightarrow> string \<Rightarrow> string \<Rightarrow> unit response \<times> database" where
  "handleAdminDeleteRootGrant db isAdmin orgID rootID grantID =
    (if \<not> isAdmin then (Fail 403 ''admin API key required'', db)
     else case DeleteRootGrant db orgID rootID grantID of
        Inl e \<Rightarrow> (if e = NoRows then Fail 404 ''grant not found'' else Fail 500 ''database error'', db)
      | Inr db' \<Rightarrow> (Reply 200 (), db'))"

section \<open>Folder rules\<close>

definition CreateACL ::
  "database \<Rightarrow> string \<Rightarrow> string \<Rightarrow> string \<Rightarrow> string \<Rightarrow> string \<Rightarrow> string \<Rightarrow> db_error + root_acl \<times> database" where
  "CreateACL db newID orgID rootID pathPrefix grantTo permission =
    (if live_root db orgID rootID then
       (let a = \<lparr>acl_id = newID, acl_org = orgID, acl_root = rootID, acl_prefix = pathPrefix, acl_grant_to = grantTo,
            acl_permission = permission\<rparr>
        in Inr (a, db\<lparr>root_acls := root_acls db @ [a]\<rparr>))
     else Inl NoRows)"

definition getACLsForUser :: "database \<Rightarrow> string \<Rightarrow> string \<Rightarrow> string \<Rightarrow> string \<Rightarrow> root_acl list" where
  "getACLsForUser db orgID rootID userID role = sort_key (\<lambda>a. - int (length (acl_prefix a)))
     (filter (\<lambda>a. acl_org a = orgID \<and> acl_root a = rootID \<and> acl_grant_to a \<in> set (acl_targets userID role)) (root_acls db))"

definition ListACLs :: "database \<Rightarrow> string \<Rightarrow> string \<Rightarrow> root_acl list" where
  "ListACLs db orgID rootID = sort_key acl_prefix (filter (\<lambda>a. acl_org a = orgID \<and> acl_root a = rootID) (root_acls db))"

definition DeleteACL :: "database \<Rightarrow> string \<Rightarrow> string \<Rightarrow> database" where
  "DeleteACL db orgID aclID = db\<lparr>root_acls := filter (\<lambda>a. \<not> (acl_id a = aclID \<and> acl_org a = orgID)) (root_acls db)\<rparr>"

record acl_request = ar_prefix :: string ar_grant_to :: string ar_permission :: string

definition handleCreateACL ::
  "database \<Rightarrow> string \<Rightarrow> identity option \<Rightarrow> string \<Rightarrow> acl_request option \<Rightarrow> root_acl response \<times> database" where
  "handleCreateACL db newID who rootID body = (case who of
      None \<Rightarrow> (Fail 403 ''admin role required'', db)
    | Some idn \<Rightarrow>
       if \<not> HasMinRole (id_role idn) RoleAdmin then (Fail 403 ''admin role required'', db)
       else if \<not> HasScope who ''acl:write'' [''admin'', ''write''] then (Fail 403 ''ACL write scope required'', db)
       else if permitted_root db who rootID PermRead = None then (Fail 404 ''root not found'', db)
       else case body of
          None \<Rightarrow> (Fail 400 ''invalid JSON'', db)
        | Some req \<Rightarrow>
           (case cleanPathPrefix (ar_prefix req) of
              Inl e \<Rightarrow> (Fail 400 ''path prefix'', db)
            | Inr pathPrefix \<Rightarrow>
               if ar_grant_to req = [] then (Fail 400 ''grant_to is required'', db)
               else let permission = (if ar_permission req = [] then ''none'' else ar_permission req) in
                 if permission \<noteq> ''none'' then (Fail 400 ''folder ACLs are deny-prefix rules; permission must be none'', db)
                 else case CreateACL db newID (id_org idn) rootID pathPrefix (ar_grant_to req) permission of
                    Inl e \<Rightarrow> (Fail 500 ''database error'', db)
                  | Inr (a, db') \<Rightarrow> (Reply 201 a, db')))"

definition handleListACLs :: "database \<Rightarrow> identity option \<Rightarrow> string \<Rightarrow> root_acl list response" where
  "handleListACLs db who rootID = (case who of
      None \<Rightarrow> Fail 403 ''admin role required''
    | Some idn \<Rightarrow>
       if \<not> HasMinRole (id_role idn) RoleAdmin then Fail 403 ''admin role required''
       else if \<not> HasScope who ''acl:read'' [''acl:write'', ''admin'', ''read'', ''write''] then Fail 403 ''ACL read scope required''
       else if permitted_root db who rootID PermRead = None then Fail 404 ''root not found''
       else Reply 200 (ListACLs db (id_org idn) rootID))"

definition handleDeleteACL :: "database \<Rightarrow> identity option \<Rightarrow> string \<Rightarrow> string \<Rightarrow> unit response \<times> database" where
  "handleDeleteACL db who rootID aclID = (case who of
      None \<Rightarrow> (Fail 403 ''admin role required'', db)
    | Some idn \<Rightarrow>
       if \<not> HasMinRole (id_role idn) RoleAdmin then (Fail 403 ''admin role required'', db)
       else if \<not> HasScope who ''acl:write'' [''admin'', ''write''] then (Fail 403 ''ACL write scope required'', db)
       else if permitted_root db who rootID PermRead = None then (Fail 404 ''root not found'', db)
       else (Reply 200 (), DeleteACL db (id_org idn) aclID))"

section \<open>Deletion\<close>

definition PrepareRootDeletion :: "database \<Rightarrow> nat \<Rightarrow> string \<Rightarrow> string \<Rightarrow> db_error + database" where
  "PrepareRootDeletion db now orgID rootID =
    (let hit = (\<lambda>r. root_id r = rootID \<and> root_org r = orgID) in
     if list_ex hit (roots db) then Inr (db\<lparr>roots :=
          map (\<lambda>r. if hit r then r\<lparr>root_deleting := (case root_deleting r of None \<Rightarrow> Some now | Some t \<Rightarrow> Some t)\<rparr> else r) (roots db)\<rparr>)
     else Inl NoRows)"

text \<open>The rows that the foreign keys of the schema delete with a root.\<close>

definition cascade_root :: "database \<Rightarrow> string \<Rightarrow> database" where
  "cascade_root db rootID =
    (let files = map fc_id (filter (\<lambda>f. fc_root f = rootID) (file_catalog db));
         versions = map fv_id (filter (\<lambda>v. fv_file v \<in> set files) (file_versions db));
         extractions = map fe_id (filter (\<lambda>e. fe_version e \<in> set versions) (file_extractions db));
         objects = map so_key (filter (\<lambda>x. so_root x = rootID) (source_objects db)) in
     db\<lparr>root_grants := filter (\<lambda>g. rg_root g \<noteq> rootID) (root_grants db),
        root_acls := filter (\<lambda>a. acl_root a \<noteq> rootID) (root_acls db),
        root_index_namespaces := filter (\<lambda>n. ns_root n \<noteq> rootID) (root_index_namespaces db),
        source_objects := filter (\<lambda>x. so_root x \<noteq> rootID) (source_objects db),
        source_multipart_uploads := filter (\<lambda>u. mu_key u \<notin> set objects) (source_multipart_uploads db),
        file_catalog := filter (\<lambda>f. fc_root f \<noteq> rootID) (file_catalog db),
        file_versions := filter (\<lambda>v. fv_file v \<notin> set files) (file_versions db),
        file_version_extents := filter (\<lambda>x. fx_version x \<notin> set versions) (file_version_extents db),
        file_extractions := filter (\<lambda>e. fe_version e \<notin> set versions) (file_extractions db),
        file_work := filter (\<lambda>w. fw_extraction w \<notin> set extractions) (file_work db),
        file_content_proofs := filter (\<lambda>p. pf_root p \<noteq> rootID) (file_content_proofs db),
        catalog_change_outbox := filter (\<lambda>x. ob_root x \<noteq> rootID) (catalog_change_outbox db),
        catalog_change_state := filter (\<lambda>x. fst x \<noteq> rootID) (catalog_change_state db),
        catalog_file_changes := filter (\<lambda>c. ch_root c \<noteq> rootID) (catalog_file_changes db),
        file_segments := filter (\<lambda>s. sg_file s \<notin> set files) (file_segments db),
        extraction_segments := filter (\<lambda>m. sm_extraction m \<notin> set extractions) (extraction_segments db)\<rparr>)"

definition DeleteRoot :: "database \<Rightarrow> string \<Rightarrow> string \<Rightarrow> db_error + database" where
  "DeleteRoot db orgID rootID =
    (let hit = (\<lambda>r. root_id r = rootID \<and> root_org r = orgID) in
     if list_ex hit (roots db) then Inr (cascade_root (db\<lparr>roots := filter (\<lambda>r. \<not> hit r) (roots db)\<rparr>) rootID)
     else Inl NoRows)"

definition ListRootIndexNamespaces :: "database \<Rightarrow> string \<Rightarrow> string \<Rightarrow> index_namespace_row list" where
  "ListRootIndexNamespaces db orgID rootID = sort_key ns_namespace
     (filter (\<lambda>n. ns_org n = orgID \<and> ns_root n = rootID \<and> \<not> ns_retired n) (root_index_namespaces db))"

record artifact_result = ar_namespaces :: "string list" ar_objects_deleted :: nat ar_errors :: "string list"

fun distinct_trimmed :: "string list \<Rightarrow> string list \<Rightarrow> string list" where
  "distinct_trimmed acc [] = acc"
| "distinct_trimmed acc (n # ns) = (let m = trim_space n in
     if m = [] \<or> m \<in> set acc then distinct_trimmed acc ns else distinct_trimmed (acc @ [m]) ns)"

text \<open>
  \<^verbatim>\<open>deleteKnownRootArtifacts\<close>: \<open>tp\<close> is None when no index client is configured and \<open>s3\<close> when no
  object store is; a failed target is reported and the next one is still tried.
\<close>

definition deleteKnownRootArtifacts ::
  "(string \<Rightarrow> string option) option \<Rightarrow> (string \<Rightarrow> string + nat) option \<Rightarrow> string \<Rightarrow> string \<Rightarrow> string list \<Rightarrow> artifact_result" where
  "deleteKnownRootArtifacts tp s3 orgID rootID namespaces =
    (let ns = distinct_trimmed [] namespaces;
         tpErrors = (case tp of None \<Rightarrow> [] | Some del \<Rightarrow> List.map_filter del ns);
         prefixes = map (\<lambda>kind. kind @ orgID @ ''/'' @ rootID @ ''/'') [''sources/'', ''extractions/'', ''mutations/''];
         deleted = (case s3 of None \<Rightarrow> [] | Some del \<Rightarrow> map del prefixes) in
     \<lparr>ar_namespaces = ns,
      ar_objects_deleted = (\<Sum>d\<leftarrow>deleted. case d of Inl _ \<Rightarrow> 0 | Inr n \<Rightarrow> n),
      ar_errors = tpErrors @ List.map_filter (\<lambda>d. case d of Inl e \<Rightarrow> Some e | Inr _ \<Rightarrow> None) deleted\<rparr>)"

definition deleteRootArtifacts ::
  "(string \<Rightarrow> string option) option \<Rightarrow> (string \<Rightarrow> string + nat) option \<Rightarrow> database \<Rightarrow> string \<Rightarrow> string \<Rightarrow> artifact_result" where
  "deleteRootArtifacts tp s3 db orgID rootID =
     deleteKnownRootArtifacts tp s3 orgID rootID (map ns_namespace (ListRootIndexNamespaces db orgID rootID))"

text \<open>The three steps that \<^verbatim>\<open>handleDeleteRoot\<close> and \<^verbatim>\<open>handleAdminDeleteRoot\<close> share.\<close>

definition delete_root_steps ::
  "(string \<Rightarrow> string option) option \<Rightarrow> (string \<Rightarrow> string + nat) option \<Rightarrow> database \<Rightarrow> nat \<Rightarrow> string \<Rightarrow> string
    \<Rightarrow> artifact_result response \<times> database" where
  "delete_root_steps tp s3 db now orgID rootID =
    (case PrepareRootDeletion db now orgID rootID of
       Inl e \<Rightarrow> (Fail 500 ''preparing root deletion'', db)
     | Inr db1 \<Rightarrow>
        (let result = deleteRootArtifacts tp s3 db1 orgID rootID in
         if ar_errors result \<noteq> [] then (Fail 500 (concat (ar_errors result)), db1)
         else case DeleteRoot db1 orgID rootID of
            Inl e \<Rightarrow> (Fail 500 ''deleting root metadata'', db1)
          | Inr db2 \<Rightarrow> (Reply 200 result, db2)))"

definition handleDeleteRoot ::
  "(string \<Rightarrow> string option) option \<Rightarrow> (string \<Rightarrow> string + nat) option \<Rightarrow> database \<Rightarrow> nat \<Rightarrow> identity option \<Rightarrow> string
    \<Rightarrow> artifact_result response \<times> database" where
  "handleDeleteRoot tp s3 db now who rootID = (case who of
      None \<Rightarrow> (Fail 401 ''unauthorized'', db)
    | Some idn \<Rightarrow>
       if \<not> HasScope who ''root:delete'' [''delete'', ''write''] then (Fail 403 ''root delete scope required'', db)
       else case permitted_root db who rootID PermDelete of
          None \<Rightarrow> (Fail 404 ''root not found'', db)
        | Some root \<Rightarrow> delete_root_steps tp s3 db now (id_org idn) rootID)"

definition handleAdminDeleteRoot ::
  "(string \<Rightarrow> string option) option \<Rightarrow> (string \<Rightarrow> string + nat) option \<Rightarrow> database \<Rightarrow> nat \<Rightarrow> bool \<Rightarrow> string
    \<Rightarrow> artifact_result response \<times> database" where
  "handleAdminDeleteRoot tp s3 db now isAdmin rootID =
    (if \<not> isAdmin then (Fail 403 ''admin API key required'', db)
     else case find (\<lambda>r. root_id r = rootID) (roots db) of
        None \<Rightarrow> (Fail 404 ''root not found'', db)
      | Some root \<Rightarrow> delete_root_steps tp s3 db now (root_org root) (root_id root))"

section \<open>Who sees a root\<close>

lemma access_of_simps [simp]:
  "ra_root (access_of db orgID userID role r) = r"
  "ra_access (access_of db orgID userID role r)
    = fst (effectiveRootPermissions (root_scope r) (root_owner r) userID role (grants_of db orgID userID r))"
  by (simp_all add: access_of_def split: prod.splits)

lemma permission_in_order [simp]:
  "PermRead \<in> set permission_order" "PermSync \<in> set permission_order" "PermDelete \<in> set permission_order" "PermAdmin \<in> set permission_order"
  by simp_all

lemma allowed_iff_policy:
  "action \<in> set permission_order \<Longrightarrow>
   rootPermissionAllowed (fst (effectiveRootPermissions scope owner userID role grants)) action
    \<longleftrightarrow> policy_allows scope owner userID role grants action"
  by (rule rootPermissionAllowed_policy)

lemma grants_of_set:
  "set (grants_of db orgID userID r) = (\<lambda>g. \<lparr>grant_principal_type = rg_principal_type g, grant_permissions = rg_permissions g\<rparr>)
     ` {g \<in> set (root_grants db). grant_applies db orgID userID r g}"
  by (auto simp: grants_of_def)


text \<open>
  C32: the check of \<^verbatim>\<open>handleCreateRoot\<close> on the caller's role and scopes and the check that the SQL
  statement of \<^verbatim>\<open>createRoot\<close> repeats at commit time are the same policy: for a supported scope
  the handler lets the request through exactly when the statement would for the same role,
  scopes and owner.
\<close>

theorem createRoot_checks_agree:
  assumes "parseRootScope raw = Inr scope"
  shows "HasScope (Some idn) ''sync'' [''root:create'', ''write''] \<and> is_ok (root_scope_owner idn scope owner)
    \<longleftrightarrow> root_actor_allowed scope
          (if scope = RootScopeUser then (if owner = [] then id_user idn else owner) else [])
          (id_user idn) (id_role idn, id_scopes idn)"
proof -
  have scope: "scope = RootScopeOrg \<or> scope = RootScopeUser \<or> scope = RootScopeRestricted"
    using assms by (auto simp: parseRootScope_def Let_def split: if_splits)
  have create: "HasScope (Some idn) ''sync'' [''root:create'', ''write'']
      \<longleftrightarrow> scopes_allow (id_scopes idn) [''sync'', ''root:create'', ''write'', ''*'']"
    unfolding HasScope_def scopes_allow_def list_ex_iff by auto
  have admin: "HasScope (Some idn) ''org:admin'' [''admin'', ''write'']
      \<longleftrightarrow> scopes_allow (id_scopes idn) [''org:admin'', ''admin'', ''write'', ''*'']"
    unfolding HasScope_def scopes_allow_def list_ex_iff by auto
  from scope show ?thesis
    by (elim disjE) (simp_all add: root_scope_owner_def root_actor_allowed_def create admin HasMinRole_admin HasMinRole_editor Let_def)
qed

theorem createRoot_checks_agree_witness:
  "root_actor_allowed RootScopeRestricted [] ''u1'' (RoleOwner, [])"
proof -
  have scope: "parseRootScope ''restricted'' = Inr RootScopeRestricted" by code_simp
  have "HasScope (Some sample_owner) ''sync'' [''root:create'', ''write'']" by code_simp
  moreover have "is_ok (root_scope_owner sample_owner RootScopeRestricted [])" by code_simp
  ultimately have "root_actor_allowed RootScopeRestricted [] (id_user sample_owner) (id_role sample_owner, id_scopes sample_owner)"
    using createRoot_checks_agree[OF scope, of sample_owner "[]"] by simp
  then show ?thesis by (simp add: sample_owner_def)
qed

section \<open>Root deletion is fenced\<close>

lemma PrepareRootDeletion_fences:
  "PrepareRootDeletion db now orgID rootID = Inr db' \<Longrightarrow> \<not> live_root db' orgID rootID"
  by (auto simp: PrepareRootDeletion_def live_root_def list_ex_iff Let_def split: if_splits option.splits)

lemma PrepareRootDeletion_keeps:
  assumes "PrepareRootDeletion db now orgID rootID = Inr db'"
  shows "root_of db' orgID rootID \<noteq> None"
proof -
  let ?upd = "\<lambda>r. if root_id r = rootID \<and> root_org r = orgID
     then r\<lparr>root_deleting := (case root_deleting r of None \<Rightarrow> Some now | Some t \<Rightarrow> Some t)\<rparr> else r"
  obtain r where r: "r \<in> set (roots db)" "root_id r = rootID" "root_org r = orgID" and db': "roots db' = map ?upd (roots db)"
    using assms by (auto simp: PrepareRootDeletion_def list_ex_iff Let_def split: if_splits)
  have "?upd r \<in> set (roots db')" using r(1) by (simp only: db' set_map image_eqI)
  moreover have "root_id (?upd r) = rootID" "root_org (?upd r) = orgID" using r(2,3) by auto
  ultimately show ?thesis unfolding root_of_def find_cong_filter by blast
qed

lemma cascade_root_simps [simp]:
  "roots (cascade_root db r) = roots db"
  "file_catalog (cascade_root db r) = filter (\<lambda>f. fc_root f \<noteq> r) (file_catalog db)"
  "source_objects (cascade_root db r) = filter (\<lambda>x. so_root x \<noteq> r) (source_objects db)"
  "root_grants (cascade_root db r) = filter (\<lambda>g. rg_root g \<noteq> r) (root_grants db)"
  "root_acls (cascade_root db r) = filter (\<lambda>a. acl_root a \<noteq> r) (root_acls db)"
  by (simp_all add: cascade_root_def Let_def)

lemma DeleteRoot_clears:
  assumes "DeleteRoot db orgID rootID = Inr db'"
  shows "\<not> live_root db' orgID rootID \<and> root_of db' orgID rootID = None
    \<and> (\<forall>f\<in>set (file_catalog db'). fc_root f \<noteq> rootID) \<and> (\<forall>x\<in>set (source_objects db'). so_root x \<noteq> rootID)
    \<and> (\<forall>g\<in>set (root_grants db'). rg_root g \<noteq> rootID) \<and> (\<forall>a\<in>set (root_acls db'). acl_root a \<noteq> rootID)"
proof -
  have "db' = cascade_root (db\<lparr>roots := filter (\<lambda>r. \<not> (root_id r = rootID \<and> root_org r = orgID)) (roots db)\<rparr>) rootID"
    using assms by (simp add: DeleteRoot_def Let_def split: if_splits)
  then show ?thesis by (auto simp: live_root_def root_of_def list_ex_iff find_cong_filter)
qed

lemma delete_root_steps_cases:
  assumes "delete_root_steps tp s3 db now orgID rootID = (resp, db')"
  shows "(db' = db \<and> PrepareRootDeletion db now orgID rootID = Inl NoRows)
    \<or> (\<exists>msg. resp = Fail 500 msg \<and> PrepareRootDeletion db now orgID rootID = Inr db')
    \<or> (\<exists>db1 result. PrepareRootDeletion db now orgID rootID = Inr db1 \<and> resp = Reply 200 result \<and> ar_errors result = []
        \<and> DeleteRoot db1 orgID rootID = Inr db')"
proof (cases "PrepareRootDeletion db now orgID rootID")
  case (Inl e)
  then have "e = NoRows" by (auto simp: PrepareRootDeletion_def Let_def split: if_splits)
  with Inl assms show ?thesis by (auto simp: delete_root_steps_def)
next
  case (Inr db1)
  with assms show ?thesis
    by (auto simp: delete_root_steps_def Let_def split: if_splits sum.splits)
qed


definition sample_root_db :: database where
  "sample_root_db = sample_db\<lparr>roots := [\<lparr>root_id = ''r1'', root_org = ''o1'', root_name = ''docs'', root_source_path = ''/docs'',
     root_scope = RootScopeOrg, root_owner = [], root_vector_disabled = False, root_created = 1, root_deleting = None\<rparr>],
     root_index_namespaces := [\<lparr>ns_org = ''o1'', ns_root = ''r1'', ns_namespace = ''ns'', ns_retired = False\<rparr>]\<rparr>"


section \<open>Folder rules take effect\<close>

lemma getACLsForUser_set:
  "a \<in> set (getACLsForUser db orgID rootID userID role) \<longleftrightarrow>
   a \<in> set (root_acls db) \<and> acl_org a = orgID \<and> acl_root a = rootID \<and> acl_grant_to a \<in> set (acl_targets userID role)"
  by (auto simp: getACLsForUser_def)

lemma handleCreateACL_Reply:
  assumes "handleCreateACL db newID (Some idn) rootID (Some req) = (Reply code a, db')"
  shows "\<exists>pre. cleanPathPrefix (ar_prefix req) = Inr pre
    \<and> a = \<lparr>acl_id = newID, acl_org = id_org idn, acl_root = rootID, acl_prefix = pre, acl_grant_to = ar_grant_to req, acl_permission = ''none''\<rparr>
    \<and> db' = db\<lparr>root_acls := root_acls db @ [a]\<rparr> \<and> live_root db (id_org idn) rootID \<and> HasMinRole (id_role idn) RoleAdmin"
  using assms
  by (auto simp: handleCreateACL_def CreateACL_def Let_def split: if_splits sum.splits option.splits)

text \<open>
  Once \<^verbatim>\<open>handleCreateACL\<close> has answered, the folder is closed to the users that the rule names
  (by user, by role or all of them): the rules loaded for such a user deny every path below the
  folder, and the rules of the others are unchanged.
\<close>

theorem handleCreateACL_denies:
  assumes "handleCreateACL db newID (Some idn) rootID (Some req) = (Reply code a, db')"
  shows "(ar_grant_to req \<in> set (acl_targets userID role) \<longrightarrow> inside_root path \<longrightarrow>
      strict_prefix (prefix_parts (acl_prefix a)) (split_on slash path) \<longrightarrow>
      \<not> checkPermission (getACLsForUser db' (id_org idn) rootID userID role) path perm)
    \<and> (ar_grant_to req \<notin> set (acl_targets userID role) \<longrightarrow>
      getACLsForUser db' (id_org idn) rootID userID role = getACLsForUser db (id_org idn) rootID userID role)"
proof -
  obtain pre where pre: "cleanPathPrefix (ar_prefix req) = Inr pre"
    and a: "a = \<lparr>acl_id = newID, acl_org = id_org idn, acl_root = rootID, acl_prefix = pre, acl_grant_to = ar_grant_to req, acl_permission = ''none''\<rparr>"
    and db': "db' = db\<lparr>root_acls := root_acls db @ [a]\<rparr>"
    using handleCreateACL_Reply[OF assms] by blast
  have "\<not> checkPermission (getACLsForUser db' (id_org idn) rootID userID role) path perm"
    if t: "ar_grant_to req \<in> set (acl_targets userID role)" and p: "inside_root path"
      and s: "strict_prefix (prefix_parts (acl_prefix a)) (split_on slash path)"
  proof -
    have "a \<in> set (getACLsForUser db' (id_org idn) rootID userID role)"
      using t unfolding getACLsForUser_set db' by (simp add: a)
    moreover have "\<forall>x\<in>set [a]. \<exists>raw. cleanPathPrefix raw = Inr (acl_prefix x)" using pre by (auto simp: a)
    then have "\<not> checkPermission [a] path perm"
      using checkPermission_elements[OF p, of "[a]" perm] s by (simp add: a del: checkPermission.simps)
    then have "acl_blocks a path" by (simp add: acl_blocks_def split: if_splits)
    ultimately show ?thesis by (auto simp: folder.passes_iff)
  qed
  moreover have "getACLsForUser db' (id_org idn) rootID userID role = getACLsForUser db (id_org idn) rootID userID role"
    if "ar_grant_to req \<notin> set (acl_targets userID role)"
    using that by (simp add: getACLsForUser_def db' a)
  ultimately show ?thesis by blast
qed

theorem handleCreateACL_denies_witness:
  "\<not> checkPermission (getACLsForUser (snd (handleCreateACL sample_root_db ''a1'' (Some sample_owner) ''r1''
      (Some \<lparr>ar_prefix = ''private'', ar_grant_to = ''role:editor'', ar_permission = []\<rparr>))) ''o1'' ''r1'' ''u2'' RoleEditor)
      ''private/x.txt'' PermRead"
proof -
  let ?req = "\<lparr>ar_prefix = ''private'', ar_grant_to = ''role:editor'', ar_permission = []\<rparr>"
  let ?h = "handleCreateACL sample_root_db ''a1'' (Some sample_owner) ''r1'' (Some ?req)"
  let ?a = "\<lparr>acl_id = ''a1'', acl_org = ''o1'', acl_root = ''r1'', acl_prefix = ''/private/'', acl_grant_to = ''role:editor'', acl_permission = ''none''\<rparr>"
  have "fst ?h = Reply 201 ?a" by code_simp
  then have run: "?h = (Reply 201 ?a, snd ?h)" by (metis prod.collapse)
  have "ar_grant_to ?req \<in> set (acl_targets ''u2'' RoleEditor)" by code_simp
  moreover have "inside_root ''private/x.txt''" by code_simp
  moreover have "strict_prefix (prefix_parts (acl_prefix ?a)) (split_on slash ''private/x.txt'')" by code_simp
  ultimately show ?thesis
    using handleCreateACL_denies[OF run, of "''u2''" RoleEditor "''private/x.txt''" PermRead] by (simp add: sample_owner_def)
qed

end
