(* ===== verification/Capture_Catalog.thy ===== *)
theory Capture_Catalog
  imports Roots
begin

text \<open>
  The versioned catalog of captured files: \<^verbatim>\<open>internal/server/capture_manifests.go\<close>,
  \<^verbatim>\<open>capture_authorization.go\<close>, \<^verbatim>\<open>source_authorization.go\<close>, \<^verbatim>\<open>file_catalog.go\<close>, \<^verbatim>\<open>file_proofs.go\<close> and
  \<^verbatim>\<open>capture_proofs_api.go\<close>.  \<^verbatim>\<open>RegisterFileVersions\<close> is one transaction: its model returns the
  result and the database after it, which is the database before it whenever the result is
  an error.  Parameters stand for what the code takes from outside: \<open>uuid5\<close> for
  \<^verbatim>\<open>uuid.NewSHA1\<close> in the OID name space, \<open>newFileID\<close> for \<^verbatim>\<open>gen_random_uuid()\<close> (per path),
  \<open>sha\<close> for the hexadecimal SHA-256, \<open>marshal\<close> for \<^verbatim>\<open>json.Marshal\<close> of a manifest.  A violated
  primary key or unique constraint is the error \<open>DuplicateKey\<close>.
\<close>

record capture_file =
  cf_path :: string
  cf_previous :: string
  cf_deleted :: bool
  cf_source :: "source_manifest option"

record captured_version =
  cv_path :: string
  cv_previous :: string
  cv_hash :: string
  cv_size :: int
  cv_ref :: string
  cv_deleted :: bool
  cv_extents :: "source_extent list"

record registered_version =
  rv_file :: string
  rv_version :: string
  rv_sequence :: int
  rv_extraction :: string
  rv_work :: string
  rv_stage :: string

record capture_write =
  cw_file :: captured_version
  cw_reg :: registered_version
  cw_revision :: string
  cw_slot :: nat

datatype capture_error =
    CaptureIncomplete
  | CapturePathInvalid string
  | CaptureVersionInvalid string
  | CaptureRootMissing
  | CaptureRootDeleting
  | CaptureForbidden
  | CaptureNoRows
  | ManifestRefInvalid
  | CaptureReused string
  | VersionConflict string
  | ExtentUnavailable
  | PacksRetired "string list"
  | DuplicateKey
  | CommitFailed

section \<open>Manifest packs\<close>

definition digit :: "nat \<Rightarrow> char" where
  "digit d = ''0123456789'' ! d"

fun show_nat :: "nat \<Rightarrow> string" where
  "show_nat n = (if n < 10 then [digit n] else show_nat (n div 10) @ [digit (n mod 10)])"

declare show_nat.simps [simp del]

definition maxManifestPackBytes :: int where
  "maxManifestPackBytes = 16777216"

record manifest_pack = mp_key :: string mp_body :: bytes mp_refs :: "string list"

definition manifest_digest :: "(bytes \<Rightarrow> string) \<Rightarrow> (source_manifest option \<Rightarrow> bytes) \<Rightarrow> capture_file \<Rightarrow> string" where
  "manifest_digest sha marshal f = (if cf_deleted f then [] else sha (marshal (cf_source f)))"

text \<open>The map from digests to marshalled manifests, filled in the order of the files.\<close>

definition manifest_records :: "(bytes \<Rightarrow> string) \<Rightarrow> (source_manifest option \<Rightarrow> bytes) \<Rightarrow> capture_file list \<Rightarrow> string \<Rightarrow> bytes option" where
  "manifest_records sha marshal files =
     foldl (\<lambda>m f. if cf_deleted f then m else m(sha (marshal (cf_source f)) \<mapsto> marshal (cf_source f))) Map.empty files"

fun pack_records :: "(string \<Rightarrow> bytes option) \<Rightarrow> string list \<Rightarrow> bytes \<Rightarrow> (string \<times> string) list \<Rightarrow> (bytes \<times> (string \<times> string) list) option" where
  "pack_records rec [] body sufs = Some (body, sufs)"
| "pack_records rec (d # ds) body sufs =
    (let raw = (case rec d of None \<Rightarrow> [] | Some b \<Rightarrow> b) in
     if int (length raw) + 1 > maxManifestPackBytes - int (length body) then None
     else pack_records rec ds (body @ raw @ [CHR 0x0A])
            ((d, ''#'' @ show_nat (length body) @ '':'' @ show_nat (length raw) @ '':'' @ d) # sufs))"

definition packSourceManifests ::
  "(bytes \<Rightarrow> string) \<Rightarrow> (source_manifest option \<Rightarrow> bytes) \<Rightarrow> string \<Rightarrow> string \<Rightarrow> capture_file list \<Rightarrow> string + manifest_pack" where
  "packSourceManifests sha marshal orgID rootID files =
    (let live = filter (\<lambda>f. \<not> cf_deleted f) files;
         digests = map (manifest_digest sha marshal) files;
         keys = sort (remdups (map (\<lambda>f. sha (marshal (cf_source f))) live)) in
     if live = [] then Inr \<lparr>mp_key = [], mp_body = [], mp_refs = map (\<lambda>_. []) files\<rparr>
     else case pack_records (manifest_records sha marshal files) keys [] [] of
        None \<Rightarrow> Inl ''source manifest pack exceeds 16 MiB''
      | Some (body, sufs) \<Rightarrow>
         (let key = ''sources/'' @ orgID @ ''/'' @ rootID @ ''/manifests/'' @ sha body @ ''.jsonl'' in
          Inr \<lparr>mp_key = key, mp_body = body,
               mp_refs = map (\<lambda>d. if d = [] then [] else key @ (case map_of sufs d of None \<Rightarrow> [] | Some s \<Rightarrow> s)) digests\<rparr>))"

definition lower_hex64 :: "string \<Rightarrow> bool" where
  "lower_hex64 s \<longleftrightarrow> length s = 64 \<and> list_all (\<lambda>c. c \<in> set ''0123456789abcdef'') s"

definition decimal :: "string \<Rightarrow> bool" where
  "decimal s \<longleftrightarrow> s \<noteq> [] \<and> list_all (\<lambda>c. c \<in> set ''0123456789'') s \<and> hd s \<noteq> CHR ''0''"

text \<open>
  \<^verbatim>\<open>sourceManifestIdentity\<close>: the regular expression as a match on the parts between slashes,
  then on the file name, the two numbers and the checksum.
\<close>

definition sourceManifestIdentity :: "string \<Rightarrow> string option" where
  "sourceManifestIdentity ref =
    (if ref = [] then Some []
     else case split_on slash ref of
        [a, orgID, rootID, m, name] \<Rightarrow>
          (if a = ''sources'' \<and> orgID \<noteq> [] \<and> rootID \<noteq> [] \<and> m = ''manifests'' \<and> lower_hex64 (take 64 name)
              \<and> has_prefix (drop 64 name) ''.jsonl#'' then
             (case split_on CHR '':'' (drop 71 name) of
                [off, len, d] \<Rightarrow> if (off = ''0'' \<or> decimal off) \<and> decimal len \<and> lower_hex64 d
                    then Some (''sources/'' @ orgID @ ''/'' @ rootID @ ''/manifests/'' @ d) else None
              | _ \<Rightarrow> None)
           else None)
      | _ \<Rightarrow> None)"

section \<open>Authorization at commit time\<close>

definition authorizeCaptureCommit :: "database \<Rightarrow> nat \<Rightarrow> identity \<Rightarrow> root_row \<Rightarrow> capture_error + string" where
  "authorizeCaptureCommit db now idn root =
    (case member_of db (id_org idn) (id_user idn) of
       None \<Rightarrow> Inl CaptureForbidden
     | Some m \<Rightarrow>
        (let key = (if id_api_key idn = [] then Some [] else map_option key_scopes
               (find (\<lambda>k. key_id k = id_api_key idn \<and> key_org k = id_org idn \<and> key_user k = id_user idn \<and> key_live now k) (api_keys db)));
             groups = sort (map gm_group (filter (\<lambda>gm. gm_org gm = id_org idn \<and> gm_user gm = id_user idn
               \<and> list_ex (\<lambda>g. rg_org g = id_org idn \<and> rg_root g = root_id root \<and> rg_principal_type g = ''group''
                    \<and> rg_principal g = gm_group gm) (root_grants db)) (group_members db)));
             grants = map (\<lambda>g. \<lparr>grant_principal_type = rg_principal_type g, grant_permissions = rg_permissions g\<rparr>)
               (sort_key rg_id (filter (\<lambda>g. rg_org g = id_org idn \<and> rg_root g = root_id root \<and>
                  (rg_principal_type g = ''org'' \<and> rg_principal g = id_org idn
                   \<or> rg_principal_type g = ''user'' \<and> rg_principal g = id_user idn
                   \<or> rg_principal_type g = ''group'' \<and> rg_principal g \<in> set groups)) (root_grants db))) in
         case key of
           None \<Rightarrow> Inl CaptureForbidden
         | Some scopes \<Rightarrow>
             if id_api_key idn \<noteq> [] \<and> \<not> HasScope (Some \<lparr>id_user = [], id_org = [], id_role = [], id_email = [],
                   id_scopes = scopes, id_api_key = []\<rparr>) ''sync'' [''write''] then Inl CaptureForbidden
             else if \<not> rootPermissionAllowed (fst (effectiveRootPermissions (root_scope root) (root_owner root) (id_user idn)
                   (mem_role m) grants)) PermSync then Inl CaptureForbidden
             else Inr (mem_role m)))"

text \<open>The CASE expression of \<^verbatim>\<open>authorizeCaptureSources\<close> for one requested extent; None is no problem.\<close>

datatype extent_problem = Unavailable | Retired

definition within_extent :: "source_extent \<Rightarrow> extent_row \<Rightarrow> bool" where
  "within_extent e x \<longleftrightarrow> fx_key x = object_key e \<and> offset e \<ge> fx_offset x \<and> offset e - fx_offset x \<le> fx_length x
     \<and> extent_length e \<le> fx_length x - (offset e - fx_offset x)"

definition source_object :: "database \<Rightarrow> string \<Rightarrow> string \<Rightarrow> string \<Rightarrow> source_object_row option" where
  "source_object db orgID rootID key =
     find (\<lambda>x. so_org x = orgID \<and> so_root x = rootID \<and> so_completed x \<and> so_key x = key) (source_objects db)"

definition extent_check :: "database \<Rightarrow> identity \<Rightarrow> string \<Rightarrow> string \<Rightarrow> source_extent \<Rightarrow> extent_problem option" where
  "extent_check db idn rootID previous e = (case source_object db (id_org idn) rootID (object_key e) of
      None \<Rightarrow> Some Unavailable
    | Some x \<Rightarrow>
        if offset e < 0 \<or> extent_length e \<le> 0 \<or> offset e > so_size x \<or> extent_length e > so_size x - offset e
        then Some Unavailable
        else if previous \<noteq> [] \<and> list_ex (\<lambda>old. fx_version old = previous \<and> within_extent e old) (file_version_extents db)
        then (if so_retired x then Some Retired else None)
        else if so_uploader x \<noteq> id_user idn \<or> so_capture x \<noteq> None then Some Unavailable
        else if so_retired x then Some Retired
        else None)"

definition requested_extents :: "capture_write list \<Rightarrow> (string \<times> source_extent) list" where
  "requested_extents ws = concat (map (\<lambda>w. map (Pair (cv_previous (cw_file w))) (cv_extents (cw_file w))) ws)"

definition authorizeCaptureSources ::
  "database \<Rightarrow> identity \<Rightarrow> string \<Rightarrow> string \<Rightarrow> capture_write list \<Rightarrow> capture_error + database" where
  "authorizeCaptureSources db idn rootID captureID writes =
    (let requested = requested_extents writes;
         problem = (\<lambda>(previous, e). extent_check db idn rootID previous e);
         retired = sort (remdups (map (object_key \<circ> snd) (filter (\<lambda>q. problem q = Some Retired) requested))) in
     if requested = [] then Inr db
     else if list_ex (\<lambda>q. problem q = Some Unavailable) requested then Inl ExtentUnavailable
     else if retired \<noteq> [] then Inl (PacksRetired retired)
     else Inr (db\<lparr>source_objects := map (\<lambda>x. if so_org x = id_org idn \<and> so_root x = rootID \<and> so_completed x
            \<and> so_key x \<in> set (map (object_key \<circ> snd) requested) \<and> so_capture x = None \<and> so_uploader x = id_user idn
          then x\<lparr>so_capture := Some captureID\<rparr> else x) (source_objects db)\<rparr>))"

section \<open>Registration\<close>

definition validSHA256 :: "string \<Rightarrow> bool" where
  "validSHA256 value \<longleftrightarrow> has_prefix value ''sha256:'' \<and> hex_decodes (trim_prefix value ''sha256:'')
     \<and> length (trim_prefix value ''sha256:'') = 64"

definition version_metadata_ok :: "captured_version \<Rightarrow> bool" where
  "version_metadata_ok f \<longleftrightarrow> \<not> (cv_size f < 0 \<or> (\<not> cv_deleted f \<and> (cv_ref f = [] \<or> \<not> validSHA256 (cv_hash f)))
     \<or> (cv_deleted f \<and> (cv_size f \<noteq> 0 \<or> cv_ref f \<noteq> [] \<or> cv_hash f \<noteq> [])))"

fun check_captured :: "string list \<Rightarrow> captured_version list \<Rightarrow> capture_error option" where
  "check_captured seen [] = None"
| "check_captured seen (f # fs) =
    (if cleanFilePath (cv_path f) \<noteq> Inr (cv_path f) \<or> cv_path f \<in> set seen then Some (CapturePathInvalid (cv_path f))
     else if \<not> version_metadata_ok f then Some (CaptureVersionInvalid (cv_path f))
     else check_captured (cv_path f # seen) fs)"

definition file_at :: "database \<Rightarrow> string \<Rightarrow> string \<Rightarrow> file_row option" where
  "file_at db rootID path = find (\<lambda>f. fc_root f = rootID \<and> fc_path f = path) (file_catalog db)"

text \<open>The insertion of the missing catalog rows, in the order of the paths.\<close>

fun insert_catalog :: "(string \<Rightarrow> string) \<Rightarrow> string \<Rightarrow> string list \<Rightarrow> database \<Rightarrow> capture_error + database" where
  "insert_catalog newFileID rootID [] db = Inr db"
| "insert_catalog newFileID rootID (p # ps) db =
    (if file_at db rootID p \<noteq> None then insert_catalog newFileID rootID ps db
     else if list_ex (\<lambda>f. fc_id f = newFileID p) (file_catalog db) then Inl DuplicateKey
     else insert_catalog newFileID rootID ps (db\<lparr>file_catalog := file_catalog db @ [\<lparr>fc_id = newFileID p, fc_root = rootID,
            fc_path = p, fc_captured = [], fc_indexed_version = [], fc_indexed_extraction = [], fc_deleted = False\<rparr>]\<rparr>))"

definition captured_as :: "database \<Rightarrow> string \<Rightarrow> string \<Rightarrow> version_row option" where
  "captured_as db fileID captureID = find (\<lambda>v. fv_file v = fileID \<and> fv_capture v = captureID) (file_versions db)"

definition first_revision :: "database \<Rightarrow> string \<Rightarrow> string" where
  "first_revision db versionID = (case sort_key fe_sequence (filter (\<lambda>e. fe_version e = versionID) (file_extractions db)) of
      [] \<Rightarrow> [] | e # _ \<Rightarrow> fe_revision e)"

definition same_capture :: "version_row \<Rightarrow> captured_version \<Rightarrow> bool" where
  "same_capture v f \<longleftrightarrow> fv_hash v = cv_hash f \<and> fv_size v = cv_size f
     \<and> sourceManifestIdentity (fv_ref v) = sourceManifestIdentity (cv_ref f)
     \<and> fv_deleted v = cv_deleted f \<and> fv_previous v = cv_previous f"

definition registered :: "(string \<Rightarrow> string) \<Rightarrow> string \<Rightarrow> string \<Rightarrow> int \<Rightarrow> string \<Rightarrow> bool \<Rightarrow> registered_version" where
  "registered uuid5 fileID versionID seq revision deleted =
    (let extractionID = uuid5 (versionID @ '':'' @ revision);
         stage = (if deleted then ''index'' else ''transform'') in
     \<lparr>rv_file = fileID, rv_version = versionID, rv_sequence = seq, rv_extraction = extractionID,
      rv_work = uuid5 (extractionID @ '':'' @ stage), rv_stage = stage\<rparr>)"

text \<open>The body of the loop over the files: a replayed version, or a new one to write.\<close>

definition plan_version ::
  "(string \<Rightarrow> string) \<Rightarrow> database \<Rightarrow> string \<Rightarrow> string \<Rightarrow> string \<Rightarrow> nat \<times> captured_version
    \<Rightarrow> capture_error + registered_version \<times> capture_write option" where
  "plan_version uuid5 db rootID captureID revision slot_file =
    (case slot_file of (slot, f) \<Rightarrow>
     (case file_at db rootID (cv_path f) of
        None \<Rightarrow> Inl CaptureNoRows
      | Some h \<Rightarrow>
         (case captured_as db (fc_id h) captureID of
            Some v \<Rightarrow>
              if sourceManifestIdentity (fv_ref v) = None \<or> sourceManifestIdentity (cv_ref f) = None then Inl ManifestRefInvalid
              else if \<not> same_capture v f then Inl (CaptureReused (cv_path f))
              else if first_revision db (fv_id v) = [] then Inl CaptureNoRows
              else Inr (registered uuid5 (fc_id h) (fv_id v) (fv_sequence v) (first_revision db (fv_id v)) (cv_deleted f), None)
          | None \<Rightarrow>
              if fc_captured h \<noteq> cv_previous f then Inl (VersionConflict (cv_path f))
              else (let reg = registered uuid5 (fc_id h) (uuid5 (fc_id h @ '':'' @ captureID)) 0 revision (cv_deleted f)
                    in Inr (reg, Some \<lparr>cw_file = f, cw_reg = reg, cw_revision = revision, cw_slot = slot\<rparr>)))))"

text \<open>One row of the statement of \<^verbatim>\<open>writeCapturedVersions\<close>; the statement takes the rows in their order.\<close>

definition write_version :: "string \<Rightarrow> capture_write \<Rightarrow> database \<Rightarrow> capture_error + database" where
  "write_version captureID w db =
    (let f = cw_file w; reg = cw_reg w; seq = version_sequence db + 1; eseq = extraction_sequence db + 1 in
     if list_ex (\<lambda>v. fv_id v = rv_version reg \<or> (fv_file v = rv_file reg \<and> fv_capture v = captureID)) (file_versions db)
        \<or> list_ex (\<lambda>e. fe_id e = rv_extraction reg) (file_extractions db)
        \<or> list_ex (\<lambda>x. fw_id x = rv_work reg) (file_work db)
     then Inl DuplicateKey
     else
       (let old = find (\<lambda>c. fc_id c = rv_file reg) (file_catalog db);
            upd = (\<lambda>c. c\<lparr>fc_captured := rv_version reg, fc_deleted := cv_deleted f\<rparr>);
            db1 = db\<lparr>file_versions := file_versions db @ [\<lparr>fv_id = rv_version reg, fv_file = rv_file reg, fv_sequence = seq,
                       fv_capture = captureID, fv_previous = cv_previous f, fv_hash = cv_hash f, fv_size = cv_size f,
                       fv_ref = cv_ref f, fv_deleted = cv_deleted f\<rparr>],
                     version_sequence := seq,
                     file_version_extents := file_version_extents db @ map (\<lambda>(i, e). \<lparr>fx_version = rv_version reg, fx_ordinal = i,
                       fx_key = object_key e, fx_offset = offset e, fx_length = extent_length e\<rparr>) (enumerate 0 (cv_extents f)),
                     file_catalog := map (\<lambda>c. if fc_id c = rv_file reg then upd c else c) (file_catalog db),
                     file_extractions := file_extractions db @ [\<lparr>fe_id = rv_extraction reg, fe_version = rv_version reg,
                       fe_revision = cw_revision w, fe_status = (if cv_deleted f then ''complete'' else ''pending''), fe_sequence = eseq, fe_format = 1\<rparr>],
                     extraction_sequence := eseq,
                     file_work := file_work db @ [\<lparr>fw_id = rv_work reg, fw_extraction = rv_extraction reg, fw_stage = rv_stage reg,
                       fw_status = ''pending'', fw_attempts = 0\<rparr>]\<rparr>
        in Inr (case old of None \<Rightarrow> db1 | Some c \<Rightarrow> head_changed (Some c) (upd c) db1)))"

fun writeCapturedVersions ::
  "string \<Rightarrow> capture_write list \<Rightarrow> registered_version list \<Rightarrow> database \<Rightarrow> capture_error + registered_version list \<times> database" where
  "writeCapturedVersions captureID [] result db = Inr (result, db)"
| "writeCapturedVersions captureID (w # ws) result db =
    (case write_version captureID w db of
       Inl e \<Rightarrow> Inl e
     | Inr db' \<Rightarrow> writeCapturedVersions captureID ws
         (result[cw_slot w := (result ! cw_slot w)\<lparr>rv_sequence := version_sequence db'\<rparr>]) db')"

text \<open>The transaction between the root lock and the commit.\<close>

definition register_body ::
  "(string \<Rightarrow> string) \<Rightarrow> (string \<Rightarrow> string) \<Rightarrow> database \<Rightarrow> nat \<Rightarrow> identity \<Rightarrow> string \<Rightarrow> string \<Rightarrow> string
    \<Rightarrow> captured_version list \<Rightarrow> capture_error + registered_version list \<times> database" where
  "register_body uuid5 newFileID db now idn rootID captureID revision files =
    (case root_of db (id_org idn) rootID of
       None \<Rightarrow> Inl CaptureRootMissing
     | Some root \<Rightarrow>
        if root_deleting root \<noteq> None then Inl CaptureRootDeleting
        else try_then (authorizeCaptureCommit db now idn root) (\<lambda>role.
          let acls = getACLsForUser db (id_org idn) rootID (id_user idn) role in
          if \<not> list_all (\<lambda>f. checkPermission acls (cv_path f) ''write'') files then Inl CaptureForbidden
          else try_then (insert_catalog newFileID rootID (map cv_path files) db) (\<lambda>db1.
            try_then (try_map (plan_version uuid5 db1 rootID captureID revision) (enumerate 0 files)) (\<lambda>plan.
              let result = map fst plan; writes = List.map_filter snd plan in
              if writes = [] then Inr (result, db1)
              else try_then (authorizeCaptureSources db1 idn rootID captureID writes) (\<lambda>db2.
                writeCapturedVersions captureID writes result db2)))))"

definition RegisterFileVersions ::
  "(string \<Rightarrow> string) \<Rightarrow> (string \<Rightarrow> string) \<Rightarrow> bool \<Rightarrow> database \<Rightarrow> nat \<Rightarrow> identity option \<Rightarrow> string \<Rightarrow> string \<Rightarrow> string
    \<Rightarrow> captured_version list \<Rightarrow> (capture_error + registered_version list) \<times> database" where
  "RegisterFileVersions uuid5 newFileID commits db now who rootID captureID revision files =
    (case who of
       None \<Rightarrow> (Inl CaptureIncomplete, db)
     | Some idn \<Rightarrow>
        if id_org idn = [] \<or> id_user idn = [] \<or> captureID = [] \<or> revision = [] \<or> files = [] \<or> length files > 128
        then (Inl CaptureIncomplete, db)
        else case check_captured [] files of
           Some e \<Rightarrow> (Inl e, db)
         | None \<Rightarrow>
            (case register_body uuid5 newFileID db now idn rootID captureID revision files of
               Inl e \<Rightarrow> (Inl e, db)
             | Inr (result, db') \<Rightarrow> if commits then (Inr result, db') else (Inl CommitFailed, db)))"

section \<open>The catalog invariant\<close>

text \<open>
  Keys are unique, heads point to the newest version of their file, and the history of
  each file is linear: a version's predecessor is an older version of the same file and no two
  versions have the same predecessor.
\<close>

definition newest :: "database \<Rightarrow> string \<Rightarrow> version_row \<Rightarrow> bool" where
  "newest db fileID v \<longleftrightarrow> v \<in> set (file_versions db) \<and> fv_file v = fileID
     \<and> (\<forall>u\<in>set (file_versions db). fv_file u = fileID \<longrightarrow> fv_sequence u \<le> fv_sequence v)"

definition head_ok :: "database \<Rightarrow> file_row \<Rightarrow> bool" where
  "head_ok db f \<longleftrightarrow> (if fc_captured f = [] then \<forall>v\<in>set (file_versions db). fv_file v \<noteq> fc_id f
     else \<exists>v. newest db (fc_id f) v \<and> fv_id v = fc_captured f \<and> fv_deleted v = fc_deleted f)"

definition linear_history :: "database \<Rightarrow> bool" where
  "linear_history db \<longleftrightarrow>
    (\<forall>v\<in>set (file_versions db). fv_previous v \<noteq> [] \<longrightarrow>
       (\<exists>u\<in>set (file_versions db). fv_id u = fv_previous v \<and> fv_file u = fv_file v \<and> fv_sequence u < fv_sequence v))
    \<and> (\<forall>v\<in>set (file_versions db). \<forall>w\<in>set (file_versions db). fv_file v = fv_file w \<and> fv_previous v = fv_previous w \<longrightarrow> v = w)"

definition catalog_keys :: "database \<Rightarrow> bool" where
  "catalog_keys db \<longleftrightarrow> distinct (map (\<lambda>f. (fc_root f, fc_path f)) (file_catalog db)) \<and> distinct (map fc_id (file_catalog db))
     \<and> distinct (map fv_id (file_versions db)) \<and> distinct (map (\<lambda>v. (fv_file v, fv_capture v)) (file_versions db))
     \<and> distinct (map fv_sequence (file_versions db))
     \<and> (\<forall>v\<in>set (file_versions db). fv_id v \<noteq> [] \<and> fv_sequence v \<le> version_sequence db)
     \<and> (\<forall>v\<in>set (file_versions db). \<exists>f\<in>set (file_catalog db). fc_id f = fv_file v)
     \<and> (\<forall>e\<in>set (file_extractions db). \<exists>v\<in>set (file_versions db). fv_id v = fe_version e)"

definition catalog_wf :: "database \<Rightarrow> bool" where
  "catalog_wf db \<longleftrightarrow> catalog_keys db \<and> (\<forall>f\<in>set (file_catalog db). head_ok db f) \<and> linear_history db"

text \<open>The tables on which authorization depends: no capture writes them.\<close>

definition same_access :: "database \<Rightarrow> database \<Rightarrow> bool" where
  "same_access db db' \<longleftrightarrow> roots db' = roots db \<and> org_members db' = org_members db \<and> api_keys db' = api_keys db
     \<and> group_members db' = group_members db \<and> root_grants db' = root_grants db \<and> root_acls db' = root_acls db"

text \<open>What stays when captures are added to a database.\<close>

definition extends :: "database \<Rightarrow> database \<Rightarrow> bool" where
  "extends db db' \<longleftrightarrow> same_access db db'
     \<and> (\<forall>f\<in>set (file_catalog db). \<exists>f'\<in>set (file_catalog db'). fc_id f' = fc_id f \<and> fc_root f' = fc_root f \<and> fc_path f' = fc_path f)
     \<and> set (file_versions db) \<subseteq> set (file_versions db')
     \<and> (\<forall>v\<in>set (file_versions db). first_revision db' (fv_id v) = first_revision db (fv_id v))"

lemma extends_refl [simp]: "extends db db"
  by (auto simp: extends_def same_access_def)

lemma extends_trans: "extends a b \<Longrightarrow> extends b c \<Longrightarrow> extends a c"
  unfolding extends_def same_access_def by (metis (no_types, lifting) subsetD subsetI)

lemma extends_same: 
  "roots db' = roots db \<Longrightarrow> org_members db' = org_members db \<Longrightarrow> api_keys db' = api_keys db
   \<Longrightarrow> group_members db' = group_members db \<Longrightarrow> root_grants db' = root_grants db \<Longrightarrow> root_acls db' = root_acls db
   \<Longrightarrow> file_catalog db' = file_catalog db \<Longrightarrow> file_versions db' = file_versions db
   \<Longrightarrow> file_extractions db' = file_extractions db \<Longrightarrow> extends db db'"
  by (auto simp: extends_def same_access_def first_revision_def)

lemma head_changed_access [simp]:
  "api_keys (head_changed a b db) = api_keys db" "group_members (head_changed a b db) = group_members db"
  "root_grants (head_changed a b db) = root_grants db" "root_acls (head_changed a b db) = root_acls db"
  by (auto simp: head_changed_def)

section \<open>Catalog insertion\<close>

lemma file_at_Some: "file_at db r p = Some f \<Longrightarrow> f \<in> set (file_catalog db) \<and> fc_root f = r \<and> fc_path f = p"
  unfolding file_at_def by (auto dest: find_member_mem)

lemma file_at_keyed: "catalog_keys db \<Longrightarrow> f \<in> set (file_catalog db) \<Longrightarrow> file_at db (fc_root f) (fc_path f) = Some f"
  using find_keyed[of "\<lambda>f. (fc_root f, fc_path f)" "file_catalog db" f]
  by (simp add: file_at_def catalog_keys_def)

lemma file_at_None: "file_at db r p = None \<longleftrightarrow> (\<forall>f\<in>set (file_catalog db). \<not> (fc_root f = r \<and> fc_path f = p))"
  unfolding file_at_def by (simp add: find_cong_filter)

lemma insert_catalog_one_wf:
  assumes "catalog_wf db" "file_at db rootID p = None" "\<not> list_ex (\<lambda>f. fc_id f = i) (file_catalog db)"
  shows "catalog_wf (db\<lparr>file_catalog := file_catalog db @ [\<lparr>fc_id = i, fc_root = rootID, fc_path = p, fc_captured = [],
      fc_indexed_version = [], fc_indexed_extraction = [], fc_deleted = False\<rparr>]\<rparr>)"
proof -
  have "\<forall>v\<in>set (file_versions db). fv_file v \<noteq> i"
    using assms(1,3) unfolding catalog_wf_def catalog_keys_def list_ex_iff by metis
  with assms show ?thesis
    by (auto simp: catalog_wf_def catalog_keys_def linear_history_def head_ok_def newest_def file_at_None list_ex_iff)
qed

lemma insert_catalog_wf:
  assumes "insert_catalog newFileID rootID ps db = Inr db'" "catalog_wf db"
  shows "catalog_wf db' \<and> extends db db' \<and> set (file_catalog db) \<subseteq> set (file_catalog db')
    \<and> (\<forall>p\<in>set ps. file_at db' rootID p \<noteq> None) \<and> source_objects db' = source_objects db
    \<and> file_version_extents db' = file_version_extents db \<and> file_versions db' = file_versions db"
  using assms
proof (induction newFileID rootID ps db arbitrary: db' rule: insert_catalog.induct)
  case (2 newFileID rootID p ps db)
  show ?case
  proof (cases "file_at db rootID p = None")
    case False
    then have rest: "insert_catalog newFileID rootID ps db = Inr db'" using "2.prems"(1) by auto
    note ih = "2.IH"(1)[OF False rest "2.prems"(2)]
    obtain f where f: "file_at db rootID p = Some f" using False by auto
    have "\<exists>f'\<in>set (file_catalog db'). fc_root f' = rootID \<and> fc_path f' = p"
      using ih file_at_Some[OF f] by (auto simp: extends_def)
    then have "file_at db' rootID p \<noteq> None" unfolding file_at_None by blast
    with ih show ?thesis by auto
  next
    case True
    define n where "n = \<lparr>fc_id = newFileID p, fc_root = rootID, fc_path = p, fc_captured = [],
      fc_indexed_version = [], fc_indexed_extraction = [], fc_deleted = False\<rparr>"
    define db1 where "db1 = db\<lparr>file_catalog := file_catalog db @ [n]\<rparr>"
    have fresh: "\<not> list_ex (\<lambda>f. fc_id f = newFileID p) (file_catalog db)" and rest: "insert_catalog newFileID rootID ps db1 = Inr db'"
      using "2.prems"(1) True by (auto simp: db1_def n_def split: if_splits)
    have wf1: "catalog_wf db1"
      unfolding db1_def n_def using insert_catalog_one_wf[OF "2.prems"(2) True fresh] .
    have e1: "extends db db1"
      unfolding extends_def same_access_def by (auto simp: db1_def first_revision_def)
    note ih = "2.IH"(2)[OF _ fresh rest[unfolded db1_def n_def] wf1[unfolded db1_def n_def], folded n_def, folded db1_def]
    have "n \<in> set (file_catalog db')" using ih True by (auto simp: db1_def)
    moreover have "fc_root n = rootID" "fc_path n = p" by (simp_all add: n_def)
    ultimately have "file_at db' rootID p \<noteq> None" unfolding file_at_None by blast
    with ih True e1 show ?thesis by (auto simp: db1_def intro: extends_trans)
  qed
qed auto

lemma insert_catalog_noop:
  "\<forall>p\<in>set ps. file_at db rootID p \<noteq> None \<Longrightarrow> insert_catalog newFileID rootID ps db = Inr db"
  by (induction ps) auto

section \<open>Writing versions\<close>

text \<open>The row that \<^verbatim>\<open>writeCapturedVersions\<close> stores for a write.\<close>

definition version_of_write :: "string \<Rightarrow> capture_write \<Rightarrow> int \<Rightarrow> version_row" where
  "version_of_write captureID w seq = \<lparr>fv_id = rv_version (cw_reg w), fv_file = rv_file (cw_reg w), fv_sequence = seq,
     fv_capture = captureID, fv_previous = cv_previous (cw_file w), fv_hash = cv_hash (cw_file w), fv_size = cv_size (cw_file w),
     fv_ref = cv_ref (cw_file w), fv_deleted = cv_deleted (cw_file w)\<rparr>"

lemma version_of_write_simps [simp]:
  "fv_id (version_of_write c w n) = rv_version (cw_reg w)" "fv_file (version_of_write c w n) = rv_file (cw_reg w)"
  "fv_sequence (version_of_write c w n) = n" "fv_capture (version_of_write c w n) = c"
  "fv_previous (version_of_write c w n) = cv_previous (cw_file w)" "fv_hash (version_of_write c w n) = cv_hash (cw_file w)"
  "fv_size (version_of_write c w n) = cv_size (cw_file w)" "fv_ref (version_of_write c w n) = cv_ref (cw_file w)"
  "fv_deleted (version_of_write c w n) = cv_deleted (cw_file w)"
  by (simp_all add: version_of_write_def)

definition new_head :: "capture_write \<Rightarrow> file_row \<Rightarrow> file_row" where
  "new_head w c = (if fc_id c = rv_file (cw_reg w)
     then c\<lparr>fc_captured := rv_version (cw_reg w), fc_deleted := cv_deleted (cw_file w)\<rparr> else c)"

lemma new_head_simps [simp]:
  "fc_id (new_head w c) = fc_id c" "fc_root (new_head w c) = fc_root c" "fc_path (new_head w c) = fc_path c"
  by (simp_all add: new_head_def)

lemma write_version_Inr:
  assumes "write_version captureID w db = Inr db'"
  shows "file_versions db' = file_versions db @ [version_of_write captureID w (version_sequence db + 1)]"
    "version_sequence db' = version_sequence db + 1"
    "file_catalog db' = map (new_head w) (file_catalog db)"
    "file_extractions db' = file_extractions db @ [\<lparr>fe_id = rv_extraction (cw_reg w), fe_version = rv_version (cw_reg w),
        fe_revision = cw_revision w, fe_status = (if cv_deleted (cw_file w) then ''complete'' else ''pending''),
        fe_sequence = extraction_sequence db + 1, fe_format = 1\<rparr>]"
    "source_objects db' = source_objects db" "same_access db db'"
    "\<forall>v\<in>set (file_versions db). fv_id v \<noteq> rv_version (cw_reg w) \<and> \<not> (fv_file v = rv_file (cw_reg w) \<and> fv_capture v = captureID)"
proof -
  have fresh: "\<not> list_ex (\<lambda>v. fv_id v = rv_version (cw_reg w) \<or> (fv_file v = rv_file (cw_reg w) \<and> fv_capture v = captureID)) (file_versions db)"
    using assms by (auto simp: write_version_def Let_def split: if_splits)
  then show "\<forall>v\<in>set (file_versions db). fv_id v \<noteq> rv_version (cw_reg w) \<and> \<not> (fv_file v = rv_file (cw_reg w) \<and> fv_capture v = captureID)"
    by (auto simp: list_ex_iff)
  show "file_versions db' = file_versions db @ [version_of_write captureID w (version_sequence db + 1)]"
    "version_sequence db' = version_sequence db + 1"
    "file_extractions db' = file_extractions db @ [\<lparr>fe_id = rv_extraction (cw_reg w), fe_version = rv_version (cw_reg w),
        fe_revision = cw_revision w, fe_status = (if cv_deleted (cw_file w) then ''complete'' else ''pending''),
        fe_sequence = extraction_sequence db + 1, fe_format = 1\<rparr>]"
    "source_objects db' = source_objects db"
    using assms by (auto simp: write_version_def version_of_write_def Let_def split: if_splits option.splits)
  show "file_catalog db' = map (new_head w) (file_catalog db)"
    using assms by (auto simp: write_version_def new_head_def Let_def split: if_splits option.splits)
  show "same_access db db'"
    using assms by (auto simp: write_version_def same_access_def Let_def split: if_splits option.splits)
qed

text \<open>A write whose file exists and whose named predecessor is the current head.\<close>

definition write_ready :: "database \<Rightarrow> capture_write \<Rightarrow> bool" where
  "write_ready db w \<longleftrightarrow> rv_version (cw_reg w) \<noteq> [] \<and>
     (\<exists>f\<in>set (file_catalog db). fc_id f = rv_file (cw_reg w) \<and> fc_captured f = cv_previous (cw_file w))"

lemma write_version_keys:
  assumes "write_version captureID w db = Inr db'" "catalog_wf db" "write_ready db w"
  shows "catalog_keys db'"
proof -
  note W = write_version_Inr[OF assms(1)]
  have ids: "map fc_id (map (new_head w) fs) = map fc_id fs"
    "map (\<lambda>f. (fc_root f, fc_path f)) (map (new_head w) fs) = map (\<lambda>f. (fc_root f, fc_path f)) fs" for fs
    by (induction fs) auto
  have keys: "catalog_keys db" using assms(2) by (simp add: catalog_wf_def)
  have "distinct (map (\<lambda>f. (fc_root f, fc_path f)) (file_catalog db'))" "distinct (map fc_id (file_catalog db'))"
    using keys unfolding W(3) ids catalog_keys_def by blast+
  moreover have "distinct (map fv_id (file_versions db'))" "distinct (map (\<lambda>v. (fv_file v, fv_capture v)) (file_versions db'))"
    using keys W(7) unfolding W(1) catalog_keys_def by auto
  moreover have "distinct (map fv_sequence (file_versions db'))"
    using keys unfolding W(1) catalog_keys_def by fastforce
  moreover have "\<forall>v\<in>set (file_versions db'). fv_id v \<noteq> [] \<and> fv_sequence v \<le> version_sequence db'"
    using keys assms(3) unfolding W(1,2) catalog_keys_def write_ready_def by auto
  moreover have "\<forall>v\<in>set (file_versions db'). \<exists>f\<in>set (file_catalog db'). fc_id f = fv_file v"
    using keys assms(3) unfolding W(1,3) catalog_keys_def write_ready_def by auto
  moreover have "\<forall>e\<in>set (file_extractions db'). \<exists>v\<in>set (file_versions db'). fv_id v = fe_version e"
    using keys unfolding W(1,4) catalog_keys_def by auto
  ultimately show ?thesis unfolding catalog_keys_def by blast
qed

lemma write_version_heads:
  assumes "write_version captureID w db = Inr db'" "catalog_wf db" "write_ready db w" "c \<in> set (file_catalog db)"
  shows "head_ok db' (new_head w c)"
proof -
  note W = write_version_Inr[OF assms(1)]
  let ?v = "version_of_write captureID w (version_sequence db + 1)"
  have old: "head_ok db c" using assms(2,4) by (simp add: catalog_wf_def)
  have seq: "\<forall>u\<in>set (file_versions db). fv_sequence u \<le> version_sequence db"
    using assms(2) by (simp add: catalog_wf_def catalog_keys_def)
  show ?thesis
  proof (cases "fc_id c = rv_file (cw_reg w)")
    case True
    have "newest db' (fc_id c) ?v"
      using seq True unfolding newest_def W(1) by fastforce
    then show ?thesis
      using True assms(3) by (auto simp: head_ok_def new_head_def write_ready_def intro!: exI[of _ ?v])
  next
    case False
    then have "newest db' (fc_id c) u" if "newest db (fc_id c) u" for u
      using that unfolding newest_def W(1) by auto
    with old False show ?thesis
      unfolding head_ok_def new_head_def W(1) by (auto split: if_splits)
  qed
qed

lemma linear_pred:
  assumes "linear_history db" "v \<in> set (file_versions db)" "fv_previous v \<noteq> []"
  shows "\<exists>u\<in>set (file_versions db). fv_id u = fv_previous v \<and> fv_file u = fv_file v \<and> fv_sequence u < fv_sequence v"
  using assms by (simp add: linear_history_def)

lemma linear_unique:
  assumes "linear_history db" "v \<in> set (file_versions db)" "w \<in> set (file_versions db)"
    "fv_file v = fv_file w" "fv_previous v = fv_previous w"
  shows "v = w"
  using assms by (simp add: linear_history_def)

lemma write_version_linear:
  assumes "write_version captureID w db = Inr db'" "catalog_wf db" "write_ready db w"
  shows "linear_history db'"
proof -
  note W = write_version_Inr[OF assms(1)]
  let ?v = "version_of_write captureID w (version_sequence db + 1)"
  obtain f where f: "f \<in> set (file_catalog db)" "fc_id f = rv_file (cw_reg w)" "fc_captured f = cv_previous (cw_file w)"
    using assms(3) by (auto simp: write_ready_def)
  have head: "head_ok db f" and lin: "linear_history db"
    and seq: "\<forall>u\<in>set (file_versions db). fv_sequence u \<le> version_sequence db"
    and nonempty: "\<forall>u\<in>set (file_versions db). fv_id u \<noteq> []"
    and ids: "distinct (map fv_id (file_versions db))"
    using assms(2) f(1) by (auto simp: catalog_wf_def catalog_keys_def)
  have pred: "\<exists>u\<in>set (file_versions db'). fv_id u = fv_previous ?v \<and> fv_file u = fv_file ?v \<and> fv_sequence u < fv_sequence ?v"
    if ne: "fv_previous ?v \<noteq> []"
  proof -
    obtain u where "newest db (fc_id f) u" "fv_id u = fc_captured f"
      using head ne f(3) by (auto simp: head_ok_def)
    then show ?thesis using seq f unfolding W(1) newest_def by (intro bexI[of _ u]) fastforce+
  qed
  have nofork: "False" if u: "u \<in> set (file_versions db)" "fv_file u = fv_file ?v" "fv_previous u = fv_previous ?v" for u
  proof (cases "fc_captured f = []")
    case True
    then show False using head u f by (auto simp: head_ok_def)
  next
    case False
    then obtain h where h: "newest db (fc_id f) h" "fv_id h = fc_captured f" using head by (auto simp: head_ok_def)
    have "fv_previous u \<noteq> []" using u(3) f(3) False by simp
    then obtain p where p: "p \<in> set (file_versions db)" "fv_id p = fv_previous u" "fv_sequence p < fv_sequence u"
      using linear_pred[OF lin u(1)] by blast
    have "p = h" using ids p(1,2) h u(3) f(3) by (auto simp: newest_def distinct_map inj_on_def)
    with p(3) h u(1,2) f(2) show False unfolding newest_def by auto
  qed
  have split: "x \<in> set (file_versions db') \<longleftrightarrow> x \<in> set (file_versions db) \<or> x = ?v" for x
    unfolding W(1) by auto
  show ?thesis
    unfolding linear_history_def
  proof (intro conjI ballI impI)
    fix v assume v: "v \<in> set (file_versions db')" "fv_previous v \<noteq> []"
    from v(1)[unfolded split] show "\<exists>u\<in>set (file_versions db'). fv_id u = fv_previous v \<and> fv_file u = fv_file v \<and> fv_sequence u < fv_sequence v"
    proof
      assume "v \<in> set (file_versions db)"
      then obtain u where "u \<in> set (file_versions db)" "fv_id u = fv_previous v" "fv_file u = fv_file v" "fv_sequence u < fv_sequence v"
        using linear_pred[OF lin _ v(2)] by blast
      then show ?thesis using split by blast
    next
      assume "v = ?v"
      with pred v(2) show ?thesis by simp
    qed
  next
    fix v x assume vx: "v \<in> set (file_versions db')" "x \<in> set (file_versions db')"
      and eq: "fv_file v = fv_file x \<and> fv_previous v = fv_previous x"
    show "v = x"
    proof (cases "v \<in> set (file_versions db) \<and> x \<in> set (file_versions db)")
      case True
      with linear_unique[OF lin] eq show ?thesis by blast
    next
      case False
      with vx nofork[of v] nofork[of x] eq show ?thesis unfolding split by auto
    qed
  qed
qed

lemma first_revision_snoc:
  "file_extractions db' = file_extractions db @ [e] \<Longrightarrow> fe_version e \<noteq> vid \<Longrightarrow> first_revision db' vid = first_revision db vid"
  by (simp add: first_revision_def)

lemma write_version_wf:
  assumes "write_version captureID w db = Inr db'" "catalog_wf db" "write_ready db w"
  shows "catalog_wf db'" "extends db db'" "first_revision db' (rv_version (cw_reg w)) = cw_revision w"
proof -
  note W = write_version_Inr[OF assms(1)]
  show "catalog_wf db'"
    unfolding catalog_wf_def
    using write_version_keys[OF assms] write_version_heads[OF assms] write_version_linear[OF assms] by (simp add: W(3))
  have "first_revision db' (fv_id v) = first_revision db (fv_id v)" if "v \<in> set (file_versions db)" for v
    using W(7) that by (intro first_revision_snoc[OF W(4)]) auto
  then show "extends db db'"
    using W(6) unfolding extends_def W(1,3) by auto
  have "filter (\<lambda>e. fe_version e = rv_version (cw_reg w)) (file_extractions db) = []"
    using assms(2) W(7) unfolding catalog_wf_def catalog_keys_def filter_empty_conv by metis
  then show "first_revision db' (rv_version (cw_reg w)) = cw_revision w"
    by (simp add: first_revision_def W(4))
qed

lemma write_ready_after:
  assumes "write_version captureID w db = Inr db'" "write_ready db w'" "rv_file (cw_reg w') \<noteq> rv_file (cw_reg w)"
  shows "write_ready db' w'"
  using assms write_version_Inr(3)[OF assms(1)] by (fastforce simp: write_ready_def new_head_def)

text \<open>What a batch of writes leaves behind: every write is stored under its sequence number.\<close>

definition stored :: "database \<Rightarrow> string \<Rightarrow> capture_write \<Rightarrow> int \<Rightarrow> bool" where
  "stored db captureID w seq \<longleftrightarrow> version_of_write captureID w seq \<in> set (file_versions db)
     \<and> first_revision db (rv_version (cw_reg w)) = cw_revision w"

lemma stored_extends: "stored db captureID w seq \<Longrightarrow> extends db db' \<Longrightarrow> stored db' captureID w seq"
  unfolding stored_def extends_def by (metis subsetD version_of_write_simps(1))

lemma writeCapturedVersions_wf:
  assumes "writeCapturedVersions captureID ws result db = Inr (result', db')" "catalog_wf db"
    and "\<forall>w\<in>set ws. write_ready db w" "distinct (map (rv_file \<circ> cw_reg) ws)"
    and "distinct (map cw_slot ws)" "\<forall>w\<in>set ws. cw_slot w < length result"
  shows "catalog_wf db' \<and> extends db db' \<and> length result' = length result
    \<and> (\<forall>i. i \<notin> cw_slot ` set ws \<longrightarrow> result' ! i = result ! i)
    \<and> (\<forall>w\<in>set ws. \<exists>seq. stored db' captureID w seq \<and> result' ! cw_slot w = (result ! cw_slot w)\<lparr>rv_sequence := seq\<rparr>)
    \<and> file_catalog db' = map (\<lambda>c. fold new_head ws c) (file_catalog db)"
  using assms
proof (induction captureID ws result db rule: writeCapturedVersions.induct)
  case (2 captureID w ws result db)
  obtain db1 where w: "write_version captureID w db = Inr db1"
    using "2.prems"(1) by (auto split: sum.splits)
  let ?r = "result[cw_slot w := (result ! cw_slot w)\<lparr>rv_sequence := version_sequence db1\<rparr>]"
  have ready: "write_ready db w" using "2.prems"(3) by simp
  note W = write_version_Inr[OF w] and wf = write_version_wf[OF w "2.prems"(2) ready]
  have rest: "writeCapturedVersions captureID ws ?r db1 = Inr (result', db')" using "2.prems"(1) w by auto
  have ready': "\<forall>x\<in>set ws. write_ready db1 x"
    using "2.prems"(3,4) by (auto simp: image_iff intro!: write_ready_after[OF w])
  have ih: "catalog_wf db' \<and> extends db1 db' \<and> length result' = length ?r
    \<and> (\<forall>i. i \<notin> cw_slot ` set ws \<longrightarrow> result' ! i = ?r ! i)
    \<and> (\<forall>x\<in>set ws. \<exists>seq. stored db' captureID x seq \<and> result' ! cw_slot x = (?r ! cw_slot x)\<lparr>rv_sequence := seq\<rparr>)
    \<and> file_catalog db' = map (\<lambda>c. fold new_head ws c) (file_catalog db1)"
    using "2.IH"[OF w rest wf(1) ready'] "2.prems"(4-6) by simp
  have s1: "stored db1 captureID w (version_sequence db1)"
    using wf(3) unfolding stored_def W(1,2) by simp
  have slot: "cw_slot w \<notin> cw_slot ` set ws" "cw_slot w < length result" using "2.prems"(5,6) by auto
  have others: "\<forall>x\<in>set ws. ?r ! cw_slot x = result ! cw_slot x" using slot by (auto simp: image_iff nth_list_update)
  have "stored db' captureID w (version_sequence db1)" using stored_extends[OF s1] ih by blast
  moreover have "result' ! cw_slot w = (result ! cw_slot w)\<lparr>rv_sequence := version_sequence db1\<rparr>" using ih slot by simp
  ultimately show ?case
    using ih others extends_trans[OF wf(2)] slot W(3) by (auto simp: nth_list_update)
qed auto

section \<open>The plan of a registration\<close>

lemma check_captured_None:
  assumes "check_captured seen fs = None"
  shows "distinct (map cv_path fs) \<and> set (map cv_path fs) \<inter> set seen = {}
    \<and> (\<forall>f\<in>set fs. cleanFilePath (cv_path f) = Inr (cv_path f) \<and> version_metadata_ok f)"
  using assms
proof (induction seen fs rule: check_captured.induct)
  case (2 seen f fs)
  have f: "cleanFilePath (cv_path f) = Inr (cv_path f)" "cv_path f \<notin> set seen" "version_metadata_ok f"
    and rest: "check_captured (cv_path f # seen) fs = None"
    using "2.prems" by (simp_all split: if_splits)
  have bad: "\<not> (cleanFilePath (cv_path f) \<noteq> Inr (cv_path f) \<or> cv_path f \<in> set seen)" "\<not> \<not> version_metadata_ok f"
    using f by simp_all
  from "2.IH"[OF bad rest] f show ?case by auto
qed simp

lemma captured_as_Some:
  "captured_as db i c = Some v \<Longrightarrow> v \<in> set (file_versions db) \<and> fv_file v = i \<and> fv_capture v = c"
  unfolding captured_as_def by (auto dest: find_member_mem)

lemma captured_as_keyed:
  "catalog_keys db \<Longrightarrow> v \<in> set (file_versions db) \<Longrightarrow> captured_as db (fv_file v) (fv_capture v) = Some v"
  using find_keyed[of "\<lambda>v. (fv_file v, fv_capture v)" "file_versions db" v]
  by (simp add: captured_as_def catalog_keys_def)

text \<open>The stored state from which a replay of one file of a capture answers.\<close>

definition replays :: "(string \<Rightarrow> string) \<Rightarrow> database \<Rightarrow> string \<Rightarrow> string \<Rightarrow> captured_version \<Rightarrow> registered_version \<Rightarrow> bool" where
  "replays uuid5 db rootID captureID f r \<longleftrightarrow> (\<exists>h v. file_at db rootID (cv_path f) = Some h
     \<and> captured_as db (fc_id h) captureID = Some v \<and> same_capture v f
     \<and> sourceManifestIdentity (fv_ref v) \<noteq> None \<and> first_revision db (fv_id v) \<noteq> []
     \<and> r = registered uuid5 (fc_id h) (fv_id v) (fv_sequence v) (first_revision db (fv_id v)) (cv_deleted f))"

lemma replays_plan:
  "replays uuid5 db rootID captureID f r \<Longrightarrow> plan_version uuid5 db rootID captureID revision (i, f) = Inr (r, None)"
proof -
  assume "replays uuid5 db rootID captureID f r"
  then obtain h v where h: "file_at db rootID (cv_path f) = Some h" "captured_as db (fc_id h) captureID = Some v" "same_capture v f"
      "sourceManifestIdentity (fv_ref v) \<noteq> None" "first_revision db (fv_id v) \<noteq> []"
      "r = registered uuid5 (fc_id h) (fv_id v) (fv_sequence v) (first_revision db (fv_id v)) (cv_deleted f)"
    by (auto simp: replays_def)
  then have "sourceManifestIdentity (cv_ref f) \<noteq> None" by (simp add: same_capture_def)
  with h show ?thesis by (simp add: plan_version_def)
qed

lemma replays_extends:
  assumes "replays uuid5 db rootID captureID f r" "extends db db'" "catalog_wf db" "catalog_wf db'"
  shows "replays uuid5 db' rootID captureID f r"
proof -
  obtain h v where h: "file_at db rootID (cv_path f) = Some h" "captured_as db (fc_id h) captureID = Some v" "same_capture v f"
      "sourceManifestIdentity (fv_ref v) \<noteq> None" "first_revision db (fv_id v) \<noteq> []"
      "r = registered uuid5 (fc_id h) (fv_id v) (fv_sequence v) (first_revision db (fv_id v)) (cv_deleted f)"
    using assms(1) by (auto simp: replays_def)
  note hm = file_at_Some[OF h(1)] and vm = captured_as_Some[OF h(2)]
  have keys: "catalog_keys db'" using assms(4) by (simp add: catalog_wf_def)
  obtain h' where h': "h' \<in> set (file_catalog db')" "fc_id h' = fc_id h" "fc_root h' = rootID" "fc_path h' = cv_path f"
    using assms(2) hm unfolding extends_def by metis
  have "file_at db' rootID (cv_path f) = Some h'" using file_at_keyed[OF keys h'(1)] h'(3,4) by simp
  moreover have "v \<in> set (file_versions db')" "first_revision db' (fv_id v) = first_revision db (fv_id v)"
    using assms(2) vm unfolding extends_def by auto
  moreover from this have "captured_as db' (fc_id h') captureID = Some v"
    using captured_as_keyed[OF keys] vm h'(2) by metis
  ultimately show ?thesis using h h'(2) unfolding replays_def by auto
qed

lemma plan_version_old:
  assumes "plan_version uuid5 db rootID captureID revision (i, f) = Inr (reg, None)"
  shows "replays uuid5 db rootID captureID f reg"
  using assms
  by (auto simp: plan_version_def replays_def Let_def simp del: not_None_eq split: option.splits if_splits)

lemma plan_version_new:
  assumes "plan_version uuid5 db rootID captureID revision (i, f) = Inr (reg, Some w)"
  shows "\<exists>h. file_at db rootID (cv_path f) = Some h \<and> captured_as db (fc_id h) captureID = None \<and> fc_captured h = cv_previous f
    \<and> reg = registered uuid5 (fc_id h) (uuid5 (fc_id h @ '':'' @ captureID)) 0 revision (cv_deleted f)
    \<and> w = \<lparr>cw_file = f, cw_reg = reg, cw_revision = revision, cw_slot = i\<rparr>"
  using assms by (auto simp: plan_version_def Let_def split: option.splits if_splits)

lemma registered_simps [simp]:
  "rv_file (registered u fid vid seq rv d) = fid" "rv_version (registered u fid vid seq rv d) = vid"
  "(registered u fid vid seq rv d)\<lparr>rv_sequence := seq'\<rparr> = registered u fid vid seq' rv d"
  by (simp_all add: registered_def Let_def)

lemma map_filter_keys_distinct:
  assumes "\<forall>i<length plan. \<forall>w. snd (plan ! i) = Some w \<longrightarrow> g w = keys ! i" "length keys = length plan" "distinct keys"
  shows "distinct (map g (List.map_filter snd plan)) \<and> set (map g (List.map_filter snd plan)) \<subseteq> set keys"
  using assms
proof (induction plan arbitrary: keys)
  case (Cons x plan)
  obtain k ks where ks: "keys = k # ks" using Cons.prems(2) by (cases keys) auto
  have "\<forall>i<length plan. \<forall>w. snd (plan ! i) = Some w \<longrightarrow> g w = ks ! i"
  proof (intro allI impI)
    fix i w assume "i < length plan" "snd (plan ! i) = Some w"
    then show "g w = ks ! i" using Cons.prems(1)[rule_format, of "Suc i" w] ks by simp
  qed
  with Cons.IH[of ks] Cons.prems(2,3) ks
  have ih: "distinct (map g (List.map_filter snd plan))" "set (map g (List.map_filter snd plan)) \<subseteq> set ks" by auto
  show ?case
  proof (cases "snd x")
    case None
    then show ?thesis using ih ks by (auto simp: List.map_filter_simps)
  next
    case (Some w)
    then have "g w = k" using Cons.prems(1)[rule_format, of 0 w] ks by simp
    then show ?thesis using ih ks Some Cons.prems(3) by (auto simp: List.map_filter_simps)
  qed
qed (simp add: List.map_filter_simps)

lemma map_filter_mem: "w \<in> set (List.map_filter snd plan) \<longleftrightarrow> (\<exists>i<length plan. snd (plan ! i) = Some w)"
proof -
  have "w \<in> set (List.map_filter snd plan) \<longleftrightarrow> (\<exists>x\<in>set plan. snd x = Some w)"
    by (force simp: List.map_filter_def)
  then show ?thesis by (metis in_set_conv_nth)
qed

lemma catalog_wf_cong:
  "file_catalog db' = file_catalog db \<Longrightarrow> file_versions db' = file_versions db \<Longrightarrow> file_extractions db' = file_extractions db
   \<Longrightarrow> version_sequence db' = version_sequence db \<Longrightarrow> catalog_wf db' = catalog_wf db"
  by (simp add: catalog_wf_def catalog_keys_def head_ok_def newest_def linear_history_def)

lemma authorizeCaptureSources_frame:
  assumes "authorizeCaptureSources db idn rootID captureID ws = Inr db'"
  shows "file_catalog db' = file_catalog db" "file_versions db' = file_versions db" "file_extractions db' = file_extractions db"
    "version_sequence db' = version_sequence db" "extends db db'"
  using assms by (auto simp: authorizeCaptureSources_def Let_def split: if_splits intro!: extends_same)

section \<open>Registration keeps the invariant and can be replayed\<close>

text \<open>What a successful plan consists of, file by file.\<close>

lemma plan_all_nth:
  assumes "try_map (plan_version uuid5 db rootID captureID revision) (enumerate 0 files) = Inr plan"
  shows "length plan = length files" "i < length files \<Longrightarrow> plan_version uuid5 db rootID captureID revision (i, files ! i) = Inr (plan ! i)"
proof -
  have l: "list_all2 (\<lambda>x y. plan_version uuid5 db rootID captureID revision x = Inr y) (enumerate 0 files) plan"
    using assms by (simp add: try_map_Inr_iff)
  then show "length plan = length files" by (auto dest: list_all2_lengthD)
  assume "i < length files"
  with list_all2_nthD[OF l, of i] show "plan_version uuid5 db rootID captureID revision (i, files ! i) = Inr (plan ! i)"
    by (simp add: nth_enumerate_eq)
qed

lemma plan_writes:
  assumes plan: "try_map (plan_version uuid5 db rootID captureID revision) (enumerate 0 files) = Inr plan"
    and keys: "catalog_keys db" and uuid: "\<forall>s. uuid5 s \<noteq> []" and paths: "distinct (map cv_path files)"
    and present: "\<forall>f\<in>set files. file_at db rootID (cv_path f) \<noteq> None"
  defines "ws \<equiv> List.map_filter snd plan"
  shows "\<forall>w\<in>set ws. write_ready db w" "distinct (map (rv_file \<circ> cw_reg) ws)" "distinct (map cw_slot ws)"
    "\<forall>w\<in>set ws. cw_slot w < length files \<and> plan ! cw_slot w = (cw_reg w, Some w) \<and> cw_file w = files ! cw_slot w \<and> cw_revision w = revision"
proof -
  note P = plan_all_nth[OF plan]
  have new: "\<exists>h. file_at db rootID (cv_path (files ! i)) = Some h \<and> fc_captured h = cv_previous (files ! i)
      \<and> cw_reg w = registered uuid5 (fc_id h) (uuid5 (fc_id h @ '':'' @ captureID)) 0 revision (cv_deleted (files ! i))
      \<and> cw_file w = files ! i \<and> cw_slot w = i \<and> plan ! i = (cw_reg w, Some w) \<and> cw_revision w = revision"
    if "i < length files" "snd (plan ! i) = Some w" for i w
  proof -
    have "plan_version uuid5 db rootID captureID revision (i, files ! i) = Inr (fst (plan ! i), Some w)"
      using P(2)[OF that(1)] that(2) by (metis prod.collapse)
    from plan_version_new[OF this] that(2) show ?thesis by (auto simp: prod_eq_iff)
  qed
  have mem: "\<exists>i<length files. snd (plan ! i) = Some w" if "w \<in> set ws" for w
    using that P(1) by (simp add: ws_def map_filter_mem)
  show "\<forall>w\<in>set ws. write_ready db w"
  proof
    fix w assume "w \<in> set ws"
    then obtain i where i: "i < length files" "snd (plan ! i) = Some w" using mem by blast
    from new[OF this] obtain h where "file_at db rootID (cv_path (files ! i)) = Some h" "fc_captured h = cv_previous (cw_file w)"
      "rv_file (cw_reg w) = fc_id h" "rv_version (cw_reg w) \<noteq> []" using uuid by auto
    then show "write_ready db w" unfolding write_ready_def using file_at_Some by metis
  qed
  show "\<forall>w\<in>set ws. cw_slot w < length files \<and> plan ! cw_slot w = (cw_reg w, Some w) \<and> cw_file w = files ! cw_slot w \<and> cw_revision w = revision"
    using mem new by metis
  have "\<forall>i<length plan. \<forall>w. snd (plan ! i) = Some w \<longrightarrow> cw_slot w = [0..<length plan] ! i"
    using new P(1) by fastforce
  from map_filter_keys_distinct[OF this] show "distinct (map cw_slot ws)" by (simp add: ws_def)
  let ?fid = "\<lambda>f. fc_id (the (file_at db rootID (cv_path f)))"
  have "distinct (map ?fid files)"
  proof (unfold distinct_map, intro conjI)
    show "distinct files" using paths by (simp add: distinct_map)
    show "inj_on ?fid (set files)"
    proof (rule inj_onI)
      fix x y assume x: "x \<in> set files" and y: "y \<in> set files" and eq: "?fid x = ?fid y"
      obtain hx hy where h: "file_at db rootID (cv_path x) = Some hx" "file_at db rootID (cv_path y) = Some hy"
        using present x y by (metis option.exhaust)
      have "hx = hy" using keys file_at_Some[OF h(1)] file_at_Some[OF h(2)] eq h
        unfolding catalog_keys_def distinct_map inj_on_def by auto
      then have "cv_path x = cv_path y" using file_at_Some[OF h(1)] file_at_Some[OF h(2)] by simp
      then show "x = y" using paths x y by (auto simp: distinct_map inj_on_def)
    qed
  qed
  moreover have "\<forall>i<length plan. \<forall>w. snd (plan ! i) = Some w \<longrightarrow> (rv_file \<circ> cw_reg) w = map ?fid files ! i"
    using new P(1) by fastforce
  ultimately show "distinct (map (rv_file \<circ> cw_reg) ws)"
    using map_filter_keys_distinct[of plan "rv_file \<circ> cw_reg" "map ?fid files"] P(1) by (simp add: ws_def)
qed

lemma stored_replays:
  assumes "catalog_wf db" "stored db captureID w seq" "file_at db rootID (cv_path (cw_file w)) = Some h"
    and "cw_reg w = registered uuid5 (fc_id h) vid 0 revision (cv_deleted (cw_file w))" "cw_revision w = revision"
    and "revision \<noteq> []" "sourceManifestIdentity (cv_ref (cw_file w)) \<noteq> None"
  shows "replays uuid5 db rootID captureID (cw_file w) ((cw_reg w)\<lparr>rv_sequence := seq\<rparr>)"
proof -
  let ?v = "version_of_write captureID w seq"
  have "captured_as db (fv_file ?v) (fv_capture ?v) = Some ?v"
    using assms(1,2) by (intro captured_as_keyed) (auto simp: catalog_wf_def stored_def)
  then have v: "captured_as db (fc_id h) captureID = Some ?v" using assms(4) by simp
  moreover have "same_capture ?v (cw_file w)" by (simp add: same_capture_def)
  moreover have "first_revision db (fv_id ?v) = revision" using assms(2,5) by (simp add: stored_def)
  ultimately show ?thesis
    unfolding replays_def using assms(3,4,6,7) by (intro exI[of _ h] exI[of _ ?v]) auto
qed

text \<open>The stages of a successful registration.\<close>

lemma register_body_stages:
  assumes "register_body uuid5 newFileID db now idn rootID captureID revision files = Inr (result, db')"
  obtains root role db1 plan db2 where
    "root_of db (id_org idn) rootID = Some root" "root_deleting root = None" "authorizeCaptureCommit db now idn root = Inr role"
    "list_all (\<lambda>f. checkPermission (getACLsForUser db (id_org idn) rootID (id_user idn) role) (cv_path f) ''write'') files"
    "insert_catalog newFileID rootID (map cv_path files) db = Inr db1"
    "try_map (plan_version uuid5 db1 rootID captureID revision) (enumerate 0 files) = Inr plan"
    "if List.map_filter snd plan = [] then db2 = db1 \<and> result = map fst plan \<and> db' = db1
     else authorizeCaptureSources db1 idn rootID captureID (List.map_filter snd plan) = Inr db2
       \<and> writeCapturedVersions captureID (List.map_filter snd plan) (map fst plan) db2 = Inr (result, db')"
proof -
  obtain root where r: "root_of db (id_org idn) rootID = Some root" "root_deleting root = None"
    using assms by (auto simp: register_body_def split: option.splits if_splits)
  obtain role where a: "authorizeCaptureCommit db now idn root = Inr role"
    using assms r by (auto simp: register_body_def try_then_def split: sum.splits)
  have p: "list_all (\<lambda>f. checkPermission (getACLsForUser db (id_org idn) rootID (id_user idn) role) (cv_path f) ''write'') files"
    using assms r a by (auto simp: register_body_def Let_def split: if_splits)
  obtain db1 where i: "insert_catalog newFileID rootID (map cv_path files) db = Inr db1"
    using assms r a p by (auto simp: register_body_def Let_def try_then_def split: sum.splits)
  obtain plan where t: "try_map (plan_version uuid5 db1 rootID captureID revision) (enumerate 0 files) = Inr plan"
    using assms r a p i by (auto simp: register_body_def Let_def try_then_def split: sum.splits)
  have rest: "if List.map_filter snd plan = [] then result = map fst plan \<and> db' = db1
     else (\<exists>db2. authorizeCaptureSources db1 idn rootID captureID (List.map_filter snd plan) = Inr db2
       \<and> writeCapturedVersions captureID (List.map_filter snd plan) (map fst plan) db2 = Inr (result, db'))"
    using assms r a p i t by (auto simp: register_body_def Let_def try_then_Inr_iff)
  show thesis
  proof (cases "List.map_filter snd plan = []")
    case True
    then show thesis using that[OF r a p i t, of db1] rest by simp
  next
    case False
    then obtain db2 where "authorizeCaptureSources db1 idn rootID captureID (List.map_filter snd plan) = Inr db2"
      "writeCapturedVersions captureID (List.map_filter snd plan) (map fst plan) db2 = Inr (result, db')" using rest by auto
    then show thesis using that[OF r a p i t, of db2] False by simp
  qed
qed

lemma register_body_wf:
  assumes reg: "register_body uuid5 newFileID db now idn rootID captureID revision files = Inr (result, db')"
    and wf: "catalog_wf db" and uuid: "\<forall>s. uuid5 s \<noteq> []" and paths: "distinct (map cv_path files)"
  shows "catalog_wf db' \<and> extends db db' \<and> length result = length files \<and>
    (revision \<noteq> [] \<longrightarrow> (\<forall>f\<in>set files. sourceManifestIdentity (cv_ref f) \<noteq> None) \<longrightarrow>
      (\<forall>i<length files. replays uuid5 db' rootID captureID (files ! i) (result ! i)))"
proof -
  obtain root role db1 plan db2 where
    ins: "insert_catalog newFileID rootID (map cv_path files) db = Inr db1"
    and plan: "try_map (plan_version uuid5 db1 rootID captureID revision) (enumerate 0 files) = Inr plan"
    and fin: "if List.map_filter snd plan = [] then db2 = db1 \<and> result = map fst plan \<and> db' = db1
     else authorizeCaptureSources db1 idn rootID captureID (List.map_filter snd plan) = Inr db2
       \<and> writeCapturedVersions captureID (List.map_filter snd plan) (map fst plan) db2 = Inr (result, db')"
    using register_body_stages[OF reg] by metis
  note I = insert_catalog_wf[OF ins wf] and P = plan_all_nth[OF plan]
  have wf1: "catalog_wf db1" and e1: "extends db db1" and present: "\<forall>f\<in>set files. file_at db1 rootID (cv_path f) \<noteq> None"
    using I by auto
  have keys1: "catalog_keys db1" using wf1 by (simp add: catalog_wf_def)
  let ?ws = "List.map_filter snd plan"
  note PW = plan_writes[OF plan keys1 uuid paths present]
  have old: "replays uuid5 db1 rootID captureID (files ! i) (fst (plan ! i))"
    if "i < length files" "snd (plan ! i) = None" for i
    using P(2)[OF that(1)] that(2) plan_version_old by (metis prod.collapse)
  show ?thesis
  proof (cases "?ws = []")
    case True
    then have "snd (plan ! i) = None" if "i < length files" for i
      using map_filter_mem[of _ plan] P(1) that by (metis empty_iff empty_set option.exhaust)
    then show ?thesis using True fin wf1 e1 P(1) old by auto
  next
    case False
    then have src: "authorizeCaptureSources db1 idn rootID captureID ?ws = Inr db2"
      and wr: "writeCapturedVersions captureID ?ws (map fst plan) db2 = Inr (result, db')"
      using fin by auto
    note F = authorizeCaptureSources_frame[OF src]
    have wf2: "catalog_wf db2" using wf1 catalog_wf_cong[OF F(1-4)] by simp
    have ready2: "\<forall>w\<in>set ?ws. write_ready db2 w" using PW(1) by (simp add: write_ready_def F(1))
    have slots: "\<forall>w\<in>set ?ws. cw_slot w < length (map fst plan)" using PW(4) P(1) by simp
    note B = writeCapturedVersions_wf[OF wr wf2 ready2 PW(2,3) slots]
    have wf': "catalog_wf db'" and e2: "extends db2 db'" using B by auto
    have e12: "extends db1 db'" using extends_trans[OF F(5) e2] .
    have "replays uuid5 db' rootID captureID (files ! i) (result ! i)"
      if rev: "revision \<noteq> []" and refs: "\<forall>f\<in>set files. sourceManifestIdentity (cv_ref f) \<noteq> None" and i: "i < length files" for i
    proof (cases "snd (plan ! i)")
      case None
      then have "i \<notin> cw_slot ` set ?ws" using PW(4) by (auto simp: image_iff)
      then have "result ! i = fst (plan ! i)" using B i P(1) by auto
      then show ?thesis using replays_extends[OF old[OF i None] e12 wf1 wf'] by simp
    next
      case (Some w)
      then have w: "w \<in> set ?ws" using i P(1) by (auto simp: map_filter_mem)
      have pv: "plan_version uuid5 db1 rootID captureID revision (i, files ! i) = Inr (fst (plan ! i), Some w)"
        using P(2)[OF i] Some by (metis prod.collapse)
      obtain h where h: "file_at db1 rootID (cv_path (files ! i)) = Some h"
          "cw_reg w = registered uuid5 (fc_id h) (uuid5 (fc_id h @ '':'' @ captureID)) 0 revision (cv_deleted (files ! i))"
          "cw_file w = files ! i" "cw_slot w = i" "fst (plan ! i) = cw_reg w" "cw_revision w = revision"
        using plan_version_new[OF pv] by auto
      obtain seq where st: "stored db' captureID w seq" "result ! i = (fst (plan ! i))\<lparr>rv_sequence := seq\<rparr>"
        using B w h(4) i P(1) by auto
      obtain h' where h': "h' \<in> set (file_catalog db')" "fc_id h' = fc_id h" "fc_root h' = rootID" "fc_path h' = cv_path (files ! i)"
        using e12 file_at_Some[OF h(1)] unfolding extends_def by metis
      have "file_at db' rootID (cv_path (cw_file w)) = Some h'"
        using file_at_keyed[OF _ h'(1)] wf' h'(3,4) h(3) by (simp add: catalog_wf_def)
      moreover have "cw_reg w = registered uuid5 (fc_id h') (uuid5 (fc_id h @ '':'' @ captureID)) 0 revision (cv_deleted (cw_file w))"
        using h(2,3) h'(2) by simp
      ultimately show ?thesis
        using stored_replays[OF wf' st(1) _ _ h(6) rev] refs i h(3,5) st(2) by auto
    qed
    then show ?thesis using wf' B P(1) extends_trans[OF e1 e12] by auto
  qed
qed

lemma RegisterFileVersions_cases:
  assumes "RegisterFileVersions uuid5 newFileID commits db now who rootID captureID revision files = (res, db')"
  shows "(db' = db \<and> (\<exists>e. res = Inl e)) \<or>
    (\<exists>idn result. who = Some idn \<and> res = Inr result \<and> commits \<and> captureID \<noteq> [] \<and> revision \<noteq> [] \<and> files \<noteq> [] \<and> length files \<le> 128
      \<and> id_org idn \<noteq> [] \<and> id_user idn \<noteq> [] \<and> check_captured [] files = None
      \<and> register_body uuid5 newFileID db now idn rootID captureID revision files = Inr (result, db'))"
  using assms unfolding RegisterFileVersions_def
  by (auto split: option.splits if_splits sum.splits prod.splits)

text \<open>Any sequence of registrations, by any users and with any outcome.\<close>

inductive captures :: "(string \<Rightarrow> string) \<Rightarrow> database \<Rightarrow> database \<Rightarrow> bool" for uuid5 where
  no_capture: "captures uuid5 db db"
| capture: "captures uuid5 db db1
    \<Longrightarrow> RegisterFileVersions uuid5 newFileID commits db1 now who rootID captureID revision files = (res, db2)
    \<Longrightarrow> captures uuid5 db db2"

lemma RegisterFileVersions_wf:
  assumes "RegisterFileVersions uuid5 newFileID commits db now who rootID captureID revision files = (res, db')"
    and "catalog_wf db" "\<forall>s. uuid5 s \<noteq> []"
  shows "catalog_wf db' \<and> extends db db'"
  using RegisterFileVersions_cases[OF assms(1)]
proof
  assume "\<exists>idn result. who = Some idn \<and> res = Inr result \<and> commits \<and> captureID \<noteq> [] \<and> revision \<noteq> [] \<and> files \<noteq> [] \<and> length files \<le> 128
      \<and> id_org idn \<noteq> [] \<and> id_user idn \<noteq> [] \<and> check_captured [] files = None
      \<and> register_body uuid5 newFileID db now idn rootID captureID revision files = Inr (result, db')"
  then obtain idn result where "check_captured [] files = None"
      and r: "register_body uuid5 newFileID db now idn rootID captureID revision files = Inr (result, db')" by blast
  then have "distinct (map cv_path files)" using check_captured_None by blast
  from register_body_wf[OF r assms(2,3) this] show ?thesis by blast
qed (use assms in auto)

lemma captures_wf:
  assumes "captures uuid5 db db'" "catalog_wf db" "\<forall>s. uuid5 s \<noteq> []"
  shows "catalog_wf db' \<and> extends db db'"
  using assms
proof (induction rule: captures.induct)
  case (capture db db1 newFileID commits now who rootID captureID revision files res db2)
  then have "catalog_wf db1" "extends db db1" by auto
  with RegisterFileVersions_wf[OF capture.hyps(2)] capture.prems show ?case using extends_trans by blast
qed auto

end
