(* ===== verification/Capture_Registration.thy ===== *)
theory Capture_Registration
  imports Capture_Catalog
begin

text \<open>
  What a registration of captured versions guarantees: the history of every file stays
  linear, a retry of a capture answers as the first attempt did, a new version replaces exactly
  the head its client named, its bytes are ones the caller may use, and the manifest
  references stored with it can be resolved.
\<close>

section \<open>Histories\<close>

text \<open>
  C2: After any sequence of registrations, by any identities and with any outcome, keys are
  unique, every head is the newest version of its file, every version but the first names an
  older version of the same file as its predecessor, no two versions of a file have the same
  predecessor (no lost update), and no version has been removed.
\<close>

theorem captures_linear:
  assumes "captures uuid5 db db'" "catalog_wf db" "\<forall>s. uuid5 s \<noteq> []"
  shows "catalog_wf db' \<and> set (file_versions db) \<subseteq> set (file_versions db')"
  using captures_wf[OF assms] by (auto simp: extends_def)

section \<open>Authorization depends only on the access tables\<close>

lemma root_of_access: "same_access db db' \<Longrightarrow> root_of db' org r = root_of db org r"
  by (simp add: same_access_def root_of_def)

lemma acls_access: "same_access db db' \<Longrightarrow> getACLsForUser db' org r u role = getACLsForUser db org r u role"
  by (simp add: same_access_def getACLsForUser_def)

lemma find_agree: "(\<And>x. x \<in> set xs \<Longrightarrow> P x = Q x) \<Longrightarrow> find P xs = find Q xs"
  by (induction xs) auto

lemma authorize_access:
  assumes "same_access db db'" "\<forall>k\<in>set (api_keys db). key_live now' k = key_live now k"
  shows "authorizeCaptureCommit db' now' idn root = authorizeCaptureCommit db now idn root"
proof -
  have keys: "find (\<lambda>k. key_id k = id_api_key idn \<and> key_org k = id_org idn \<and> key_user k = id_user idn \<and> key_live now' k) (api_keys db)
      = find (\<lambda>k. key_id k = id_api_key idn \<and> key_org k = id_org idn \<and> key_user k = id_user idn \<and> key_live now k) (api_keys db)"
    using assms(2) by (intro find_agree) auto
  have eqs: "member_of db' = member_of db" "api_keys db' = api_keys db" "group_members db' = group_members db"
      "root_grants db' = root_grants db"
    using assms(1) by (auto simp: same_access_def member_of_def fun_eq_iff)
  show ?thesis unfolding authorizeCaptureCommit_def eqs keys ..
qed

lemma try_map_all_replayed:
  assumes "\<forall>i<length files. plan_version uuid5 db rootID captureID revision (k + i, files ! i) = Inr (result ! i, None)"
    and "length result = length files"
  shows "try_map (plan_version uuid5 db rootID captureID revision) (enumerate k files) = Inr (map (\<lambda>r. (r, None)) result)"
  using assms
proof (induction files arbitrary: k result)
  case (Cons f files)
  obtain r rs where r: "result = r # rs" using Cons.prems(2) by (cases result) auto
  have tail: "try_map (plan_version uuid5 db rootID captureID revision) (enumerate (Suc k) files) = Inr (map (\<lambda>r. (r, None)) rs)"
  proof (rule Cons.IH)
    show "\<forall>i<length files. plan_version uuid5 db rootID captureID revision (Suc k + i, files ! i) = Inr (rs ! i, None)"
      using Cons.prems(1) r by (metis add_Suc_right add_Suc_shift length_Cons not_less_eq nth_Cons_Suc)
  qed (use Cons.prems(2) r in simp)
  have "plan_version uuid5 db rootID captureID revision (k, f) = Inr (r, None)"
    using Cons.prems(1)[rule_format, of 0] r by simp
  with tail r show ?case by simp
qed simp

lemma map_filter_None [simp]: "List.map_filter snd (map (\<lambda>r. (r, None)) xs) = []"
  by (induction xs) (auto simp: List.map_filter_def)

text \<open>
  C7: Retries are idempotent.  Once a registration has succeeded, then, after any further
  registrations, repeating it returns the same identifiers and sequence numbers and changes
  nothing: whatever identifiers the database would draw for new files and whatever extraction
  revision the server has moved on to, as long as the caller's key has not expired in between.
\<close>

theorem RegisterFileVersions_replay:
  assumes "RegisterFileVersions uuid5 newFileID True db now (Some idn) rootID captureID revision files = (Inr result, db1)"
    and "catalog_wf db" "\<forall>s. uuid5 s \<noteq> []" "\<forall>f\<in>set files. sourceManifestIdentity (cv_ref f) \<noteq> None"
    and "captures uuid5 db1 db2" "revision' \<noteq> []" "\<forall>k\<in>set (api_keys db). key_live now' k = key_live now k"
  shows "RegisterFileVersions uuid5 newFileID' True db2 now' (Some idn) rootID captureID revision' files = (Inr result, db2)"
proof -
  have ok: "captureID \<noteq> []" "revision \<noteq> []" "files \<noteq> []" "length files \<le> 128" "id_org idn \<noteq> []" "id_user idn \<noteq> []"
      "check_captured [] files = None"
      and body: "register_body uuid5 newFileID db now idn rootID captureID revision files = Inr (result, db1)"
    using RegisterFileVersions_cases[OF assms(1)] by auto
  have paths: "distinct (map cv_path files)" using check_captured_None[OF ok(7)] by blast
  note first = register_body_wf[OF body assms(2,3) paths]
  have later: "catalog_wf db2" "extends db1 db2" using captures_wf[OF assms(5) _ assms(3)] first by auto
  have acc: "same_access db db2" using first later(2) extends_trans[of db db1 db2] by (auto simp: extends_def)
  have rep: "replays uuid5 db2 rootID captureID (files ! i) (result ! i)" if "i < length files" for i
    using first ok(2) assms(4) that later replays_extends by blast
  have present: "\<forall>p\<in>set (map cv_path files). file_at db2 rootID p \<noteq> None"
    using rep unfolding replays_def by (fastforce simp: in_set_conv_nth)
  have "try_map (plan_version uuid5 db2 rootID captureID revision') (enumerate 0 files) = Inr (map (\<lambda>r. (r, None)) result)"
    using replays_plan[OF rep] first by (intro try_map_all_replayed) auto
  moreover obtain root role where "root_of db (id_org idn) rootID = Some root" "root_deleting root = None"
      "authorizeCaptureCommit db now idn root = Inr role"
      "list_all (\<lambda>f. checkPermission (getACLsForUser db (id_org idn) rootID (id_user idn) role) (cv_path f) ''write'') files"
    using register_body_stages[OF body] by metis
  ultimately have "register_body uuid5 newFileID' db2 now' idn rootID captureID revision' files = Inr (result, db2)"
    using insert_catalog_noop[OF present] authorize_access[OF acc assms(7)] root_of_access[OF acc] acls_access[OF acc]
    by (simp add: register_body_def o_def)
  with ok assms(6) show ?thesis by (simp add: RegisterFileVersions_def)
qed

section \<open>Compare and swap\<close>

text \<open>The captured head of a path, as the client reads it: empty where there is none.\<close>

definition captured_head :: "database \<Rightarrow> string \<Rightarrow> string \<Rightarrow> string" where
  "captured_head db rootID path = (case file_at db rootID path of None \<Rightarrow> [] | Some h \<Rightarrow> fc_captured h)"

lemma fold_new_head_keys [simp]:
  "fc_id (fold new_head ws c) = fc_id c" "fc_root (fold new_head ws c) = fc_root c" "fc_path (fold new_head ws c) = fc_path c"
  by (induction ws arbitrary: c) auto

lemma fold_new_head_other:
  "fc_id c \<notin> (rv_file \<circ> cw_reg) ` set ws \<Longrightarrow> fold new_head ws c = c"
  by (induction ws arbitrary: c) (auto simp: new_head_def)

lemma fold_new_head_one:
  assumes "distinct (map (rv_file \<circ> cw_reg) ws)" "w \<in> set ws" "fc_id c = rv_file (cw_reg w)"
  shows "fc_captured (fold new_head ws c) = rv_version (cw_reg w)"
  using assms
proof (induction ws arbitrary: c)
  case (Cons x ws)
  show ?case
  proof (cases "x = w")
    case True
    then have "fc_id (new_head x c) \<notin> (rv_file \<circ> cw_reg) ` set ws" using Cons.prems by auto
    moreover have "fc_captured (new_head x c) = rv_version (cw_reg w)" using True Cons.prems(3) by (simp add: new_head_def)
    ultimately show ?thesis using fold_new_head_other by simp
  next
    case False
    then have "new_head x c = c" using Cons.prems by (auto simp: new_head_def image_iff)
    with False Cons show ?thesis by simp
  qed
qed simp

lemma file_at_fold:
  assumes "file_catalog db' = map (fold new_head ws) (file_catalog db)"
  shows "file_at db' r p = map_option (fold new_head ws) (file_at db r p)"
proof -
  have "find (\<lambda>f. fc_root f = r \<and> fc_path f = p) (map (fold new_head ws) fs)
      = map_option (fold new_head ws) (find (\<lambda>f. fc_root f = r \<and> fc_path f = p) fs)" for fs
    by (induction fs) auto
  then show ?thesis by (simp add: file_at_def assms)
qed

lemma insert_catalog_heads:
  assumes "insert_catalog newFileID rootID ps db = Inr db'"
  shows "captured_head db' r p = captured_head db r p
    \<and> (\<forall>h. file_at db r p = Some h \<longrightarrow> file_at db' r p = Some h) \<and> file_versions db' = file_versions db
    \<and> (\<forall>h. file_at db' r p = Some h \<longrightarrow> file_at db r p = Some h \<or> list_all (\<lambda>f. fc_id f \<noteq> fc_id h) (file_catalog db))"
  using assms
proof (induction newFileID rootID ps db arbitrary: db' rule: insert_catalog.induct)
  case (2 newFileID rootID q ps db)
  show ?case
  proof (cases "file_at db rootID q = None")
    case False
    then show ?thesis using "2.IH"(1)[OF False] "2.prems" by auto
  next
    case True
    define n where "n = \<lparr>fc_id = newFileID q, fc_root = rootID, fc_path = q, fc_captured = [],
      fc_indexed_version = [], fc_indexed_extraction = [], fc_deleted = False\<rparr>"
    define db1 where "db1 = db\<lparr>file_catalog := file_catalog db @ [n]\<rparr>"
    have fresh: "\<not> list_ex (\<lambda>f. fc_id f = newFileID q) (file_catalog db)" and rest: "insert_catalog newFileID rootID ps db1 = Inr db'"
      using "2.prems"(1) True by (auto simp: db1_def n_def split: if_splits)
    note ih = "2.IH"(2)[OF _ fresh rest[unfolded db1_def n_def], folded n_def, folded db1_def]
    have app: "find P (xs @ [x]) = (case find P xs of None \<Rightarrow> if P x then Some x else None | Some y \<Rightarrow> Some y)" for P xs and x :: file_row
      by (induction xs) auto
    have at: "file_at db1 r p = (case file_at db r p of None \<Rightarrow> if rootID = r \<and> q = p then Some n else None | Some h \<Rightarrow> Some h)"
      by (simp add: file_at_def db1_def app n_def cong: option.case_cong)
    have "captured_head db1 r p = captured_head db r p"
      by (simp add: captured_head_def at n_def split: option.split)
    moreover have "\<forall>h. file_at db r p = Some h \<longrightarrow> file_at db1 r p = Some h" by (simp add: at)
    moreover have "\<forall>h. file_at db1 r p = Some h \<longrightarrow> file_at db r p = Some h \<or> list_all (\<lambda>f. fc_id f \<noteq> fc_id h) (file_catalog db)"
      using fresh by (auto simp: at n_def list_all_iff list_ex_iff split: option.splits)
    moreover have "file_versions db1 = file_versions db" "list_all P (file_catalog db1) \<Longrightarrow> list_all P (file_catalog db)" for P
      by (auto simp: db1_def)
    ultimately show ?thesis using ih True by metis
  qed
qed auto

lemma write_stage:
  fixes plan :: "(registered_version \<times> capture_write option) list"
  defines "ws \<equiv> List.map_filter snd plan"
  assumes fin: "if ws = [] then db2 = db1 \<and> result = map fst plan \<and> db' = db1
     else authorizeCaptureSources db1 idn rootID captureID ws = Inr db2
       \<and> writeCapturedVersions captureID ws (map fst plan) db2 = Inr (result, db')"
    and wf1: "catalog_wf db1" and ready: "\<forall>w\<in>set ws. write_ready db1 w"
    and dist: "distinct (map (rv_file \<circ> cw_reg) ws)" "distinct (map cw_slot ws)"
    and slots: "\<forall>w\<in>set ws. cw_slot w < length files \<and> plan ! cw_slot w = (cw_reg w, Some w) \<and> cw_file w = files ! cw_slot w \<and> cw_revision w = revision"
    and len: "length plan = length files"
  shows "file_catalog db' = map (fold new_head ws) (file_catalog db1)
    \<and> (\<forall>j<length plan. snd (plan ! j) = None \<longrightarrow> result ! j = fst (plan ! j))
    \<and> (\<forall>w\<in>set ws. rv_version (result ! cw_slot w) = rv_version (cw_reg w))
    \<and> (\<forall>w\<in>set ws. \<exists>seq. stored db' captureID w seq \<and> result ! cw_slot w = (cw_reg w)\<lparr>rv_sequence := seq\<rparr>) \<and> extends db1 db' \<and> catalog_wf db'"
proof (cases "ws = []")
  case True
  then show ?thesis using fin len wf1 by simp
next
  case False
  then have src: "authorizeCaptureSources db1 idn rootID captureID ws = Inr db2"
    and wr: "writeCapturedVersions captureID ws (map fst plan) db2 = Inr (result, db')" using fin by auto
  note F = authorizeCaptureSources_frame[OF src]
  have "catalog_wf db2" using wf1 catalog_wf_cong[OF F(1-4)] by simp
  moreover have "\<forall>w\<in>set ws. write_ready db2 w" using ready by (simp add: write_ready_def F(1))
  moreover have "\<forall>w\<in>set ws. cw_slot w < length (map fst plan)" using slots len by simp
  ultimately have B: "catalog_wf db' \<and> extends db2 db' \<and> (\<forall>j. j \<notin> cw_slot ` set ws \<longrightarrow> result ! j = map fst plan ! j)
    \<and> (\<forall>w\<in>set ws. \<exists>seq. stored db' captureID w seq \<and> result ! cw_slot w = (map fst plan ! cw_slot w)\<lparr>rv_sequence := seq\<rparr>)
    \<and> file_catalog db' = map (\<lambda>c. fold new_head ws c) (file_catalog db2)"
    using writeCapturedVersions_wf[OF wr _ _ dist] by blast
  have st: "\<forall>w\<in>set ws. \<exists>seq. stored db' captureID w seq \<and> result ! cw_slot w = (cw_reg w)\<lparr>rv_sequence := seq\<rparr>"
    using B slots len by fastforce
  then have "\<forall>w\<in>set ws. rv_version (result ! cw_slot w) = rv_version (cw_reg w)" by fastforce
  moreover have "j \<notin> cw_slot ` set ws" if "snd (plan ! j) = None" for j using that slots by (auto simp: image_iff)
  moreover have "extends db1 db'" using extends_trans[OF F(5)] B by blast
  ultimately show ?thesis using B F(1) st by auto
qed

lemma register_body_swaps:
  assumes reg: "register_body uuid5 newFileID db now idn rootID captureID revision files = Inr (result, db')"
    and wf: "catalog_wf db" and uuid: "\<forall>s. uuid5 s \<noteq> []" and paths: "distinct (map cv_path files)" and i: "i < length files"
  shows "(\<exists>h v. file_at db rootID (cv_path (files ! i)) = Some h \<and> captured_as db (fc_id h) captureID = Some v
        \<and> same_capture v (files ! i) \<and> rv_version (result ! i) = fv_id v
        \<and> captured_head db' rootID (cv_path (files ! i)) = captured_head db rootID (cv_path (files ! i)))
    \<or> (captured_head db rootID (cv_path (files ! i)) = cv_previous (files ! i)
        \<and> captured_head db' rootID (cv_path (files ! i)) = rv_version (result ! i))"
proof -
  obtain root role db1 plan db2 where
    ins: "insert_catalog newFileID rootID (map cv_path files) db = Inr db1"
    and plan: "try_map (plan_version uuid5 db1 rootID captureID revision) (enumerate 0 files) = Inr plan"
    and fin: "if List.map_filter snd plan = [] then db2 = db1 \<and> result = map fst plan \<and> db' = db1
     else authorizeCaptureSources db1 idn rootID captureID (List.map_filter snd plan) = Inr db2
       \<and> writeCapturedVersions captureID (List.map_filter snd plan) (map fst plan) db2 = Inr (result, db')"
    using register_body_stages[OF reg] by metis
  let ?ws = "List.map_filter snd plan" and ?p = "cv_path (files ! i)"
  note I = insert_catalog_wf[OF ins wf] and H = insert_catalog_heads[OF ins, of rootID ?p] and P = plan_all_nth[OF plan]
  have wf1: "catalog_wf db1" and present: "\<forall>f\<in>set files. file_at db1 rootID (cv_path f) \<noteq> None" using I by auto
  have keys1: "catalog_keys db1" using wf1 by (simp add: catalog_wf_def)
  note PW = plan_writes[OF plan keys1 uuid paths present]
  note W = write_stage[OF fin wf1 PW P(1)]
  have cat: "file_catalog db' = map (fold new_head ?ws) (file_catalog db1)"
    and unwritten: "\<And>j. j < length plan \<Longrightarrow> snd (plan ! j) = None \<Longrightarrow> result ! j = fst (plan ! j)"
    and written: "\<And>w. w \<in> set ?ws \<Longrightarrow> rv_version (result ! cw_slot w) = rv_version (cw_reg w)"
    using W by blast+
  obtain h where h: "file_at db1 rootID ?p = Some h" using present i by fastforce
  have head': "captured_head db' rootID ?p = fc_captured (fold new_head ?ws h)"
    using h by (simp add: captured_head_def file_at_fold[OF cat])
  have head: "captured_head db rootID ?p = fc_captured h" using H h by (simp add: captured_head_def)
  show ?thesis
  proof (cases "snd (plan ! i)")
    case None
    then have "plan_version uuid5 db1 rootID captureID revision (i, files ! i) = Inr (fst (plan ! i), None)"
      using P(2)[OF i] by (metis prod.collapse)
    from plan_version_old[OF this] h obtain v where v: "captured_as db1 (fc_id h) captureID = Some v" "same_capture v (files ! i)"
      "rv_version (fst (plan ! i)) = fv_id v" unfolding replays_def by auto
    have vm: "v \<in> set (file_versions db)" "fv_file v = fc_id h" using captured_as_Some[OF v(1)] H by auto
    have "\<not> list_all (\<lambda>f. fc_id f \<noteq> fc_id h) (file_catalog db)"
      using wf vm unfolding catalog_wf_def catalog_keys_def list_all_iff by metis
    then have at: "file_at db rootID ?p = Some h" using H h by blast
    have "captured_as db (fc_id h) captureID = Some v" using v(1) H by (simp add: captured_as_def)
    moreover have "fc_id h \<notin> (rv_file \<circ> cw_reg) ` set ?ws"
    proof
      assume "fc_id h \<in> (rv_file \<circ> cw_reg) ` set ?ws"
      then obtain w where w: "w \<in> set ?ws" "rv_file (cw_reg w) = fc_id h" by auto
      then have slot: "cw_slot w < length files" "plan ! cw_slot w = (cw_reg w, Some w)" using PW(4) by auto
      then obtain g where g: "file_at db1 rootID (cv_path (files ! cw_slot w)) = Some g" "rv_file (cw_reg w) = fc_id g"
        using P(2)[OF slot(1)] plan_version_new by (metis registered_simps(1))
      have "g = h" using keys1 file_at_Some[OF g(1)] file_at_Some[OF h] g(2) w(2)
        unfolding catalog_keys_def distinct_map inj_on_def by auto
      then have "cv_path (files ! cw_slot w) = ?p" using file_at_Some[OF g(1)] file_at_Some[OF h] by simp
      then have "cw_slot w = i" using paths slot(1) i by (metis distinct_conv_nth length_map nth_map)
      with slot(2) None show False by simp
    qed
    ultimately show ?thesis
      using at v(2,3) unwritten[of i] None P(1) i head head' fold_new_head_other[of h ?ws] by auto
  next
    case (Some w)
    then have w: "w \<in> set ?ws" using i P(1) by (auto simp: map_filter_mem)
    have "plan_version uuid5 db1 rootID captureID revision (i, files ! i) = Inr (fst (plan ! i), Some w)"
      using P(2)[OF i] Some by (metis prod.collapse)
    from plan_version_new[OF this] h have n: "fc_captured h = cv_previous (files ! i)" "cw_slot w = i"
      "rv_file (cw_reg w) = fc_id h" by auto
    show ?thesis
      using n head head' written[OF w] fold_new_head_one[OF PW(2) w, of h] by auto
  qed
qed

text \<open>Every returned identifier belongs to a stored version of the file at that path with the captured content.\<close>

lemma register_body_stored:
  assumes reg: "register_body uuid5 newFileID db now idn rootID captureID revision files = Inr (result, db')"
    and wf: "catalog_wf db" and uuid: "\<forall>s. uuid5 s \<noteq> []" and paths: "distinct (map cv_path files)" and i: "i < length files"
  shows "\<exists>v\<in>set (file_versions db'). \<exists>f\<in>set (file_catalog db'). fv_file v = fc_id f \<and> fc_root f = rootID \<and> fc_path f = cv_path (files ! i)
    \<and> fv_id v = rv_version (result ! i) \<and> fv_sequence v = rv_sequence (result ! i) \<and> fv_hash v = cv_hash (files ! i)"
proof -
  obtain db1 plan db2 where
    ins: "insert_catalog newFileID rootID (map cv_path files) db = Inr db1"
    and plan: "try_map (plan_version uuid5 db1 rootID captureID revision) (enumerate 0 files) = Inr plan"
    and fin: "if List.map_filter snd plan = [] then db2 = db1 \<and> result = map fst plan \<and> db' = db1
     else authorizeCaptureSources db1 idn rootID captureID (List.map_filter snd plan) = Inr db2
       \<and> writeCapturedVersions captureID (List.map_filter snd plan) (map fst plan) db2 = Inr (result, db')"
    using register_body_stages[OF reg] by metis
  let ?ws = "List.map_filter snd plan"
  note I = insert_catalog_wf[OF ins wf] and P = plan_all_nth[OF plan]
  have wf1: "catalog_wf db1" and keys1: "catalog_keys db1" and present: "\<forall>f\<in>set files. file_at db1 rootID (cv_path f) \<noteq> None"
    using I by (auto simp: catalog_wf_def)
  note PW = plan_writes[OF plan keys1 uuid paths present]
  note W = write_stage[OF fin wf1 PW P(1)]
  obtain h where h: "file_at db1 rootID (cv_path (files ! i)) = Some h" using present i by fastforce
  obtain h' where h': "h' \<in> set (file_catalog db')" "fc_id h' = fc_id h" "fc_root h' = rootID" "fc_path h' = cv_path (files ! i)"
    using W file_at_Some[OF h] unfolding extends_def by metis
  show ?thesis
  proof (cases "snd (plan ! i)")
    case None
    then have "replays uuid5 db1 rootID captureID (files ! i) (fst (plan ! i))"
      using P(2)[OF i] plan_version_old by (metis prod.collapse)
    with h obtain v where v: "captured_as db1 (fc_id h) captureID = Some v" "same_capture v (files ! i)"
      "fst (plan ! i) = registered uuid5 (fc_id h) (fv_id v) (fv_sequence v) (first_revision db1 (fv_id v)) (cv_deleted (files ! i))"
      unfolding replays_def by auto
    have vm: "v \<in> set (file_versions db1)" "fv_file v = fc_id h" using captured_as_Some[OF v(1)] by auto
    then have "v \<in> set (file_versions db')" using W unfolding extends_def by blast
    moreover have "result ! i = fst (plan ! i)" using W None P(1) i by auto
    ultimately show ?thesis
      using h' vm v(2,3) by (intro bexI[of _ v] bexI[of _ h']) (auto simp: same_capture_def registered_def Let_def)
  next
    case (Some w)
    then have w: "w \<in> set ?ws" using i P(1) by (auto simp: map_filter_mem)
    have "plan_version uuid5 db1 rootID captureID revision (i, files ! i) = Inr (fst (plan ! i), Some w)"
      using P(2)[OF i] Some by (metis prod.collapse)
    from plan_version_new[OF this] h have n: "cw_slot w = i" "rv_file (cw_reg w) = fc_id h" "cw_file w = files ! i" by auto
    obtain seq where st: "stored db' captureID w seq" "result ! i = (cw_reg w)\<lparr>rv_sequence := seq\<rparr>"
      using W w n(1) by blast
    have "version_of_write captureID w seq \<in> set (file_versions db')" using st(1) by (simp add: stored_def)
    then show ?thesis using h' n st(2) by (intro bexI[of _ "version_of_write captureID w seq"] bexI[of _ h']) auto
  qed
qed

text \<open>
  C20: A successful registration is a compare-and-swap on every file: either the file was
  captured before under the same capture identifier with the same content, and then its head
  stays, or its head was the version the client named as predecessor and is now the returned
  version.  A registration that fails changes nothing.
\<close>

theorem RegisterFileVersions_swaps:
  assumes "RegisterFileVersions uuid5 newFileID commits db now (Some idn) rootID captureID revision files = (res, db')"
    and "catalog_wf db" "\<forall>s. uuid5 s \<noteq> []"
  shows "case res of
      Inl e \<Rightarrow> db' = db
    | Inr result \<Rightarrow> length result = length files \<and> (\<forall>i<length files.
        (\<exists>h v. file_at db rootID (cv_path (files ! i)) = Some h \<and> captured_as db (fc_id h) captureID = Some v
           \<and> same_capture v (files ! i) \<and> rv_version (result ! i) = fv_id v
           \<and> captured_head db' rootID (cv_path (files ! i)) = captured_head db rootID (cv_path (files ! i)))
        \<or> (captured_head db rootID (cv_path (files ! i)) = cv_previous (files ! i)
           \<and> captured_head db' rootID (cv_path (files ! i)) = rv_version (result ! i)))"
  using RegisterFileVersions_cases[OF assms(1)]
proof
  assume "\<exists>idn' result. Some idn = Some idn' \<and> res = Inr result \<and> commits \<and> captureID \<noteq> [] \<and> revision \<noteq> [] \<and> files \<noteq> []
      \<and> length files \<le> 128 \<and> id_org idn' \<noteq> [] \<and> id_user idn' \<noteq> [] \<and> check_captured [] files = None
      \<and> register_body uuid5 newFileID db now idn' rootID captureID revision files = Inr (result, db')"
  then obtain result where r: "res = Inr result" "check_captured [] files = None"
      "register_body uuid5 newFileID db now idn rootID captureID revision files = Inr (result, db')" by auto
  have paths: "distinct (map cv_path files)" using check_captured_None[OF r(2)] by blast
  show ?thesis
    using register_body_swaps[OF r(3) assms(2,3) paths] register_body_wf[OF r(3) assms(2,3) paths] unfolding r(1) by simp
qed auto

section \<open>Bytes a capture may use\<close>

definition extent_rows :: "capture_write \<Rightarrow> extent_row list" where
  "extent_rows w = map (\<lambda>(i, e). \<lparr>fx_version = rv_version (cw_reg w), fx_ordinal = i,
     fx_key = object_key e, fx_offset = offset e, fx_length = extent_length e\<rparr>) (enumerate 0 (cv_extents (cw_file w)))"

lemma extent_rows_mem:
  "x \<in> set (extent_rows w) \<Longrightarrow> \<exists>e\<in>set (cv_extents (cw_file w)). fx_key x = object_key e \<and> fx_offset x = offset e
     \<and> fx_length x = extent_length e"
  by (auto simp: extent_rows_def in_set_enumerate_eq)

lemma sort_Nil [simp]: "sort xs = [] \<longleftrightarrow> xs = []"
  by (metis set_empty set_sort)

lemma writeCapturedVersions_extents:
  "writeCapturedVersions captureID ws result db = Inr (result', db')
   \<Longrightarrow> file_version_extents db' = file_version_extents db @ concat (map extent_rows ws)"
proof (induction captureID ws result db arbitrary: result' db' rule: writeCapturedVersions.induct)
  case (2 captureID w ws result db)
  then obtain db1 where w: "write_version captureID w db = Inr db1" by (auto split: sum.splits)
  have one: "file_version_extents db1 = file_version_extents db @ extent_rows w"
    using w by (auto simp: write_version_def extent_rows_def Let_def split: if_splits option.splits)
  have "writeCapturedVersions captureID ws (result[cw_slot w := (result ! cw_slot w)\<lparr>rv_sequence := version_sequence db1\<rparr>]) db1
      = Inr (result', db')"
    using "2.prems" w by simp
  from "2.IH"[OF w this] one show ?case by simp
qed auto

lemma extent_check_None:
  assumes "extent_check db idn rootID previous e = None"
  shows "\<exists>x\<in>set (source_objects db). so_key x = object_key e \<and> so_org x = id_org idn \<and> so_root x = rootID
    \<and> so_completed x \<and> \<not> so_retired x \<and> 0 \<le> offset e \<and> 0 < extent_length e \<and> offset e + extent_length e \<le> so_size x
    \<and> (so_uploader x = id_user idn \<and> so_capture x = None
       \<or> (\<exists>y\<in>set (file_version_extents db). fx_version y = previous \<and> fx_key y = object_key e
            \<and> fx_offset y \<le> offset e \<and> offset e + extent_length e \<le> fx_offset y + fx_length y))"
proof -
  obtain x where x: "source_object db (id_org idn) rootID (object_key e) = Some x"
    using assms by (cases "source_object db (id_org idn) rootID (object_key e)") (simp_all add: extent_check_def)
  then have mem: "x \<in> set (source_objects db)" "so_org x = id_org idn" "so_root x = rootID" "so_completed x" "so_key x = object_key e"
    by (auto simp: source_object_def dest: find_member_mem)
  from assms x have "0 \<le> offset e" "0 < extent_length e" "offset e + extent_length e \<le> so_size x" "\<not> so_retired x"
    "so_uploader x = id_user idn \<and> so_capture x = None
     \<or> (previous \<noteq> [] \<and> list_ex (\<lambda>y. fx_version y = previous \<and> within_extent e y) (file_version_extents db))"
    by (auto simp: extent_check_def split: if_splits)
  moreover have "\<exists>y\<in>set (file_version_extents db). fx_version y = previous \<and> fx_key y = object_key e
      \<and> fx_offset y \<le> offset e \<and> offset e + extent_length e \<le> fx_offset y + fx_length y"
    if "list_ex (\<lambda>y. fx_version y = previous \<and> within_extent e y) (file_version_extents db)"
    using that unfolding list_ex_iff within_extent_def by (elim bexE) (rule bexI, auto)
  ultimately show ?thesis using mem by blast
qed

lemma authorizeCaptureSources_allows:
  assumes "authorizeCaptureSources db idn rootID captureID ws = Inr db'"
  shows "\<forall>(previous, e)\<in>set (requested_extents ws). extent_check db idn rootID previous e = None"
proof (clarify)
  fix previous e assume q: "(previous, e) \<in> set (requested_extents ws)"
  have "extent_check db idn rootID previous e \<noteq> Some Unavailable" "extent_check db idn rootID previous e \<noteq> Some Retired"
    using assms q by (auto simp: authorizeCaptureSources_def Let_def list_ex_iff filter_empty_conv split: if_splits)
  then show "extent_check db idn rootID previous e = None"
    by (metis extent_problem.exhaust option.exhaust)
qed


section \<open>Manifest references\<close>

lemma digit_mem: "d < 10 \<Longrightarrow> digit d \<in> set ''0123456789''"
  unfolding digit_def by (rule nth_mem) simp

lemma digit_zero: "d < 10 \<Longrightarrow> digit d = CHR ''0'' \<longleftrightarrow> d = 0"
  using nth_eq_iff_index_eq[of "''0123456789''" d 0] by (simp add: digit_def)

lemma show_nat_set: "\<forall>d<10. digit d \<in> D \<Longrightarrow> set (show_nat n) \<subseteq> D \<and> show_nat n \<noteq> []"
proof (induction n rule: show_nat.induct)
  case (1 n)
  show ?case
  proof (cases "n < 10")
    case True
    then have "show_nat n = [digit n]" by (subst show_nat.simps) simp
    then show ?thesis using 1 True by simp
  next
    case False
    then have "show_nat n = show_nat (n div 10) @ [digit (n mod 10)]" by (subst show_nat.simps) simp
    then show ?thesis using 1 False by simp
  qed
qed

lemma show_nat_digits: "set (show_nat n) \<subseteq> set ''0123456789'' \<and> show_nat n \<noteq> []"
  using digit_mem by (intro show_nat_set) blast

lemma show_nat_lead: "n > 0 \<Longrightarrow> hd (show_nat n) \<noteq> CHR ''0''"
proof (induction n rule: show_nat.induct)
  case (1 n)
  show ?case
  proof (cases "n < 10")
    case True
    then show ?thesis using digit_zero[of n] 1 by (subst show_nat.simps) simp
  next
    case False
    then have eq: "show_nat n = show_nat (n div 10) @ [digit (n mod 10)]" by (subst show_nat.simps) simp
    then show ?thesis unfolding eq using 1 False show_nat_digits[of "n div 10"] by simp
  qed
qed

lemma show_nat_decimal: "n > 0 \<Longrightarrow> decimal (show_nat n)"
  unfolding decimal_def list_all_iff using show_nat_digits[of n] show_nat_lead[of n] by blast

lemma show_nat_0: "show_nat 0 = ''0''"
  by (subst show_nat.simps) (simp add: digit_def)

lemma show_nat_free: "c \<notin> set ''0123456789'' \<Longrightarrow> c \<notin> set (show_nat n)"
  using show_nat_digits[of n] by blast

lemma lower_hex64_free: "lower_hex64 d \<Longrightarrow> c \<notin> set ''0123456789abcdef'' \<Longrightarrow> c \<notin> set d"
  unfolding lower_hex64_def list_all_iff by blast
text \<open>The bytes stored for a digest, and a reference that locates them in a pack.\<close>

definition record_bytes :: "(string \<Rightarrow> bytes option) \<Rightarrow> string \<Rightarrow> bytes" where
  "record_bytes rec d = (case rec d of None \<Rightarrow> [] | Some b \<Rightarrow> b)"

definition located :: "(string \<Rightarrow> bytes option) \<Rightarrow> bytes \<Rightarrow> string \<times> string \<Rightarrow> bool" where
  "located rec body ds \<longleftrightarrow> (\<exists>off. snd ds = ''#'' @ show_nat off @ '':'' @ show_nat (length (record_bytes rec (fst ds))) @ '':'' @ fst ds
     \<and> take (length (record_bytes rec (fst ds))) (drop off body) = record_bytes rec (fst ds))"

lemma located_append: "located rec body ds \<Longrightarrow> located rec (body @ rest) ds"
proof -
  assume "located rec body ds"
  then obtain off where off: "snd ds = ''#'' @ show_nat off @ '':'' @ show_nat (length (record_bytes rec (fst ds))) @ '':'' @ fst ds"
    "take (length (record_bytes rec (fst ds))) (drop off body) = record_bytes rec (fst ds)" by (auto simp: located_def)
  then have "take (length (record_bytes rec (fst ds))) (drop off (body @ rest)) = record_bytes rec (fst ds)"
    by (metis (no_types, lifting) append_Nil2 diff_is_0_eq drop_append length_take min.cobounded1 take0 take_append)
  with off(1) show ?thesis by (auto simp: located_def)
qed

lemma pack_records_sound:
  assumes "pack_records rec ds body sufs = Some (body', sufs')" "\<forall>x\<in>set sufs. located rec body x" "int (length body) \<le> maxManifestPackBytes"
  shows "int (length body') \<le> maxManifestPackBytes \<and> (\<forall>x\<in>set sufs'. located rec body' x) \<and> fst ` set sufs' = fst ` set sufs \<union> set ds"
  using assms
proof (induction rec ds body sufs rule: pack_records.induct)
  case (2 rec d ds body sufs)
  let ?raw = "record_bytes rec d"
  let ?suf = "''#'' @ show_nat (length body) @ '':'' @ show_nat (length ?raw) @ '':'' @ d"
  have fits: "\<not> maxManifestPackBytes - int (length body) < int (length ?raw) + 1"
    and rest: "pack_records rec ds (body @ ?raw @ [CHR 0x0A]) ((d, ?suf) # sufs) = Some (body', sufs')"
    using "2.prems"(1) by (auto simp: record_bytes_def Let_def split: if_splits)
  have "located rec (body @ ?raw @ [CHR 0x0A]) (d, ?suf)" by (auto simp: located_def)
  moreover have "\<forall>x\<in>set sufs. located rec (body @ ?raw @ [CHR 0x0A]) x" using "2.prems"(2) located_append by blast
  moreover have "int (length (body @ ?raw @ [CHR 0x0A])) \<le> maxManifestPackBytes" using fits "2.prems"(3) by simp
  ultimately have "int (length body') \<le> maxManifestPackBytes \<and> (\<forall>x\<in>set sufs'. located rec body' x)
      \<and> fst ` set sufs' = fst ` set ((d, ?suf) # sufs) \<union> set ds"
    using "2.IH"[of ?raw] fits rest unfolding record_bytes_def by (auto simp: not_less)
  then show ?case by auto
qed auto

lemma manifest_records_inv:
  "manifest_records sha marshal files d = Some b \<Longrightarrow> \<exists>f\<in>set files. \<not> cf_deleted f \<and> b = marshal (cf_source f) \<and> sha b = d"
proof (induction files rule: rev_induct)
  case (snoc f files)
  then show ?case by (auto simp: manifest_records_def split: if_splits)
qed (simp add: manifest_records_def)

lemma manifest_records_dom:
  "f \<in> set files \<Longrightarrow> \<not> cf_deleted f \<Longrightarrow> manifest_records sha marshal files (sha (marshal (cf_source f))) \<noteq> None"
  by (induction files rule: rev_induct) (auto simp: manifest_records_def)

lemma map_of_mem: "x \<in> fst ` set xs \<Longrightarrow> \<exists>y. map_of xs x = Some y \<and> (x, y) \<in> set xs"
  by (metis map_of_SomeD map_of_eq_None_iff option.exhaust)

lemma pack_ref:
  assumes pack: "packSourceManifests sha marshal org root files = Inr p" and i: "i < length files" "\<not> cf_deleted (files ! i)"
    and hex: "\<forall>b. lower_hex64 (sha b)"
  defines "d \<equiv> sha (marshal (cf_source (files ! i)))"
  shows "\<exists>off f. f \<in> set files \<and> mp_refs p ! i = mp_key p @ ''#'' @ show_nat off @ '':'' @ show_nat (length (marshal (cf_source f))) @ '':'' @ d
    \<and> take (length (marshal (cf_source f))) (drop off (mp_body p)) = marshal (cf_source f) \<and> sha (marshal (cf_source f)) = d"
    and "mp_key p = ''sources/'' @ org @ ''/'' @ root @ ''/manifests/'' @ sha (mp_body p) @ ''.jsonl''"
    and "int (length (mp_body p)) \<le> maxManifestPackBytes"
proof -
  let ?rec = "manifest_records sha marshal files"
  let ?keys = "sort (remdups (map (\<lambda>f. sha (marshal (cf_source f))) (filter (\<lambda>f. \<not> cf_deleted f) files)))"
  have live: "filter (\<lambda>f. \<not> cf_deleted f) files \<noteq> []" using i by (auto simp: filter_empty_conv)
  then obtain body' sufs where pr: "pack_records ?rec ?keys [] [] = Some (body', sufs)"
    using pack by (auto simp: packSourceManifests_def Let_def split: option.splits)
  have p: "mp_key p = ''sources/'' @ org @ ''/'' @ root @ ''/manifests/'' @ sha body' @ ''.jsonl''" "mp_body p = body'"
    "mp_refs p = map (\<lambda>d. if d = [] then [] else mp_key p @ (case map_of sufs d of None \<Rightarrow> [] | Some s \<Rightarrow> s)) (map (manifest_digest sha marshal) files)"
    using pack live pr by (auto simp: packSourceManifests_def Let_def)
  have S: "int (length body') \<le> maxManifestPackBytes \<and> (\<forall>x\<in>set sufs. located ?rec body' x) \<and> fst ` set sufs = set ?keys"
    using pack_records_sound[OF pr] by (simp add: maxManifestPackBytes_def)
  then show "int (length (mp_body p)) \<le> maxManifestPackBytes" "mp_key p = ''sources/'' @ org @ ''/'' @ root @ ''/manifests/'' @ sha (mp_body p) @ ''.jsonl''"
    using p by simp_all
  have mem: "d \<in> fst ` set sufs" using S i by (auto simp: d_def)
  obtain s where s: "map_of sufs d = Some s" "(d, s) \<in> set sufs" using map_of_mem[OF mem] by (elim exE conjE)
  have "?rec d \<noteq> None" using manifest_records_dom[of "files ! i" files sha marshal] i by (simp add: d_def)
  then obtain b where b: "?rec d = Some b" by (cases "?rec d") auto
  obtain f where f: "f \<in> set files" "b = marshal (cf_source f)" "sha b = d" using manifest_records_inv[OF b] by blast
  have rb: "record_bytes ?rec d = b" using b by (simp add: record_bytes_def)
  have "located ?rec body' (d, s)" using S s(2) by blast
  then obtain off where off: "s = ''#'' @ show_nat off @ '':'' @ show_nat (length b) @ '':'' @ d" "take (length b) (drop off body') = b"
    unfolding located_def fst_conv snd_conv rb by blast
  have "lower_hex64 d" using hex by (simp add: d_def)
  then have "manifest_digest sha marshal (files ! i) = d" "d \<noteq> []"
    using i by (auto simp: manifest_digest_def d_def lower_hex64_def)
  then have "mp_refs p ! i = mp_key p @ s" using p(3) i(1) s(1) by simp
  with off f p(2) show "\<exists>off f. f \<in> set files \<and> mp_refs p ! i = mp_key p @ ''#'' @ show_nat off @ '':'' @ show_nat (length (marshal (cf_source f))) @ '':'' @ d
    \<and> take (length (marshal (cf_source f))) (drop off (mp_body p)) = marshal (cf_source f) \<and> sha (marshal (cf_source f)) = d"
    by blast
qed

lemma sourceManifestIdentity_ref:
  assumes "lower_hex64 k" "lower_hex64 d" "len > 0" "org \<noteq> []" "root \<noteq> []" "slash \<notin> set org" "slash \<notin> set root"
  shows "sourceManifestIdentity (''sources/'' @ org @ ''/'' @ root @ ''/manifests/'' @ k @ ''.jsonl#'' @ show_nat off @ '':'' @ show_nat len @ '':'' @ d)
    = Some (''sources/'' @ org @ ''/'' @ root @ ''/manifests/'' @ d)"
proof -
  let ?name = "k @ ''.jsonl#'' @ show_nat off @ '':'' @ show_nat len @ '':'' @ d"
  have colon: "CHR '':'' \<notin> set (show_nat off)" "CHR '':'' \<notin> set (show_nat len)" "CHR '':'' \<notin> set d"
    by (rule show_nat_free lower_hex64_free[OF assms(2)]; simp)+
  have k: "length k = 64" using assms(1) by (simp add: lower_hex64_def)
  have "slash \<notin> set k" "slash \<notin> set d" "slash \<notin> set (show_nat off)" "slash \<notin> set (show_nat len)"
    by (rule show_nat_free lower_hex64_free[OF assms(1)] lower_hex64_free[OF assms(2)]; simp)+
  then have "slash \<notin> set ?name" by simp
  then have parts: "split_on slash (''sources/'' @ org @ ''/'' @ root @ ''/manifests/'' @ ?name) = [''sources'', org, root, ''manifests'', ?name]"
    using split_join[of "[''sources'', org, root, ''manifests'', ?name]" slash] assms(6,7) by simp
  have nums: "split_on CHR '':'' (show_nat off @ '':'' @ show_nat len @ '':'' @ d) = [show_nat off, show_nat len, d]"
    using split_join[of "[show_nat off, show_nat len, d]" "CHR '':''"] colon by simp
  have off: "show_nat off = ''0'' \<or> decimal (show_nat off)" using show_nat_0 show_nat_decimal[of off] by (cases "off = 0") auto
  have "take 64 ?name = k" "has_prefix (drop 64 ?name) ''.jsonl#''" "drop 71 ?name = show_nat off @ '':'' @ show_nat len @ '':'' @ d"
    using k by (simp_all add: has_prefix_def)
  then show ?thesis
    unfolding sourceManifestIdentity_def parts using assms off show_nat_decimal[OF assms(3)] nums by simp
qed

text \<open>
  C21: Every file of a capture that is not a deletion gets a reference \<^verbatim>\<open>key#offset:length:digest\<close> whose
  bytes, read back from the uploaded pack, have the digest of the file's manifest; the pack
  is at most 16 MiB; and the identity that a retry compares depends on the organisation,
  the root and that digest alone, not on the batch in which the manifest was packed.
\<close>

theorem packSourceManifests_refs:
  assumes "packSourceManifests sha marshal org root files = Inr p" "i < length files" "\<not> cf_deleted (files ! i)"
    and "\<forall>b. lower_hex64 (sha b)" "\<forall>m. marshal m \<noteq> []"
    and "org \<noteq> []" "root \<noteq> []" "slash \<notin> set org" "slash \<notin> set root"
  shows "length (mp_body p) \<le> 16777216 \<and>
    (\<exists>off raw. mp_refs p ! i = mp_key p @ ''#'' @ show_nat off @ '':'' @ show_nat (length raw) @ '':'' @ sha (marshal (cf_source (files ! i)))
       \<and> take (length raw) (drop off (mp_body p)) = raw \<and> sha raw = sha (marshal (cf_source (files ! i)))) \<and>
    sourceManifestIdentity (mp_refs p ! i) = Some (''sources/'' @ org @ ''/'' @ root @ ''/manifests/'' @ sha (marshal (cf_source (files ! i))))"
proof -
  note R = pack_ref[OF assms(1-4)]
  from R(1) obtain off and f :: capture_file where f: "mp_refs p ! i = mp_key p @ ''#'' @ show_nat off @ '':'' @ show_nat (length (marshal (cf_source f))) @ '':'' @ sha (marshal (cf_source (files ! i)))"
    "take (length (marshal (cf_source f))) (drop off (mp_body p)) = marshal (cf_source f)"
    "sha (marshal (cf_source f)) = sha (marshal (cf_source (files ! i)))" by blast
  have "length (marshal (cf_source f)) > 0" using assms(5) by simp
  from sourceManifestIdentity_ref[OF _ _ this assms(6-9), of "sha (mp_body p)" "sha (marshal (cf_source (files ! i)))" off] assms(4)
  have "sourceManifestIdentity (mp_refs p ! i) = Some (''sources/'' @ org @ ''/'' @ root @ ''/manifests/'' @ sha (marshal (cf_source (files ! i))))"
    unfolding f(1) R(2) by simp
  with R(3) f show ?thesis by (auto simp: maxManifestPackBytes_def)
qed

section \<open>A concrete capture\<close>

definition sample_hash :: string where
  "sample_hash = ''sha256:'' @ replicate 64 CHR ''a''"

definition sample_ref :: string where
  "sample_ref = ''sources/o1/r1/manifests/'' @ replicate 64 CHR ''b'' @ ''.jsonl#0:7:'' @ replicate 64 CHR ''c''"

definition sample_capture :: captured_version where
  "sample_capture = \<lparr>cv_path = ''a/b.txt'', cv_previous = [], cv_hash = sample_hash, cv_size = 5, cv_ref = sample_ref,
     cv_deleted = False, cv_extents = [\<lparr>object_key = ''pack'', offset = 1, extent_length = 5\<rparr>]\<rparr>"

definition sample_capture_db :: database where
  "sample_capture_db = sample_root_db\<lparr>source_objects := [\<lparr>so_key = ''pack'', so_org = ''o1'', so_root = ''r1'', so_size = 9,
     so_uploader = ''u1'', so_capture = None, so_completed = True, so_retired = False, so_authorized_until = 0\<rparr>]\<rparr>"

abbreviation sample_register :: "database \<Rightarrow> (capture_error + registered_version list) \<times> database" where
  "sample_register db \<equiv> RegisterFileVersions (\<lambda>s. ''v'' @ s) (\<lambda>p. ''f'' @ p) True db 7 (Some sample_owner) ''r1'' ''c1'' ''rev'' [sample_capture]"

abbreviation sample_registered :: registered_version where
  "sample_registered \<equiv> registered (\<lambda>s. ''v'' @ s) ''fa/b.txt'' ''vfa/b.txt:c1'' 1 ''rev'' False"

lemma sample_register_run:
  "fst (sample_register sample_capture_db) = Inr [sample_registered]"
  by code_simp

lemma sample_register_pair:
  "sample_register sample_capture_db = (Inr [sample_registered], snd (sample_register sample_capture_db))"
  using sample_register_run by (metis prod.collapse)

lemma sample_capture_wf: "catalog_wf sample_capture_db"
  by (simp add: catalog_wf_def catalog_keys_def linear_history_def sample_capture_db_def sample_root_db_def sample_db_def empty_database_def)

theorem captures_linear_witness:
  "catalog_wf (snd (sample_register sample_capture_db)) \<and> set (file_versions sample_capture_db) \<subseteq> set (file_versions (snd (sample_register sample_capture_db)))"
proof -
  have step: "captures (\<lambda>s. ''v'' @ s) sample_capture_db (snd (sample_register sample_capture_db))"
    by (rule captures.capture[OF captures.no_capture sample_register_pair])
  have ids: "\<forall>s. (\<lambda>s. ''v'' @ s) s \<noteq> []" by simp
  show ?thesis by (rule captures_linear[OF step sample_capture_wf ids])
qed

theorem RegisterFileVersions_replay_witness:
  "RegisterFileVersions (\<lambda>s. ''v'' @ s) (\<lambda>p. ''other'') True (snd (sample_register sample_capture_db)) 7 (Some sample_owner) ''r1'' ''c1'' ''rev2'' [sample_capture]
   = (Inr [sample_registered], snd (sample_register sample_capture_db))"
proof -
  have refs: "\<forall>f\<in>set [sample_capture]. sourceManifestIdentity (cv_ref f) \<noteq> None" by code_simp
  show ?thesis
    by (rule RegisterFileVersions_replay[OF sample_register_pair sample_capture_wf _ refs captures.no_capture]) auto
qed

theorem RegisterFileVersions_swaps_witness:
  "captured_head sample_capture_db ''r1'' ''a/b.txt'' = [] \<and>
   captured_head (snd (sample_register sample_capture_db)) ''r1'' ''a/b.txt'' = rv_version sample_registered"
proof -
  have ids: "\<forall>s. (\<lambda>s. ''v'' @ s) s \<noteq> []" by simp
  have none: "file_at sample_capture_db ''r1'' ''a/b.txt'' = None" by code_simp
  show ?thesis
    using RegisterFileVersions_swaps[OF sample_register_pair sample_capture_wf ids] none
    by (simp add: sample_capture_def del: append.simps)
qed


theorem packSourceManifests_refs_witness:
  "\<exists>p. packSourceManifests (\<lambda>b. replicate 64 CHR ''a'') (\<lambda>m. ''{}'') ''o1'' ''r1''
      [\<lparr>cf_path = ''a/b.txt'', cf_previous = [], cf_deleted = False, cf_source = None\<rparr>] = Inr p
    \<and> sourceManifestIdentity (mp_refs p ! 0) = Some (''sources/o1/r1/manifests/'' @ replicate 64 CHR ''a'')"
proof -
  let ?files = "[\<lparr>cf_path = ''a/b.txt'', cf_previous = [], cf_deleted = False, cf_source = None\<rparr>]"
  let ?pack = "packSourceManifests (\<lambda>b. replicate 64 CHR ''a'') (\<lambda>m. ''{}'') ''o1'' ''r1'' ?files"
  have "isl ?pack = False" by code_simp
  then obtain p where p: "?pack = Inr p" by (cases ?pack) auto
  have hex: "\<forall>b. lower_hex64 ((\<lambda>b. replicate 64 CHR ''a'') b)" by (simp add: lower_hex64_def list_all_iff)
  have "sourceManifestIdentity (mp_refs p ! 0) = Some (''sources/'' @ ''o1'' @ ''/'' @ ''r1'' @ ''/manifests/'' @ replicate 64 CHR ''a'')"
    using packSourceManifests_refs[OF p, of 0] hex by simp
  with p show ?thesis by simp
qed

end
