(* ===== verification/Capture_Proofs.thy ===== *)
theory Capture_Proofs
  imports Capture_Registration
begin

text \<open>
  The capture endpoints and the content proofs: \<^verbatim>\<open>RecordCapturedProofs\<close> of \<^verbatim>\<open>file_proofs.go\<close>,
  \<^verbatim>\<open>handleCapturedProofs\<close> of \<^verbatim>\<open>capture_proofs_api.go\<close>, \<^verbatim>\<open>captureIdentity\<close> and
  \<^verbatim>\<open>handleRegisterFileVersions\<close> of \<^verbatim>\<open>capture_api.go\<close>.  A request body is None when it does not
  decode.  \<open>uuid_ok\<close> stands for \<^verbatim>\<open>uuid.Parse\<close>, \<open>upload\<close> for the upload of a manifest pack, and the
  two flags for whether the statements on the two tables reach the database.  The texts of
  registration errors are not modelled; their status, code and object keys are.
\<close>

section \<open>Recording proofs\<close>

definition proof_of :: "database \<Rightarrow> string \<Rightarrow> string \<Rightarrow> string \<Rightarrow> string \<Rightarrow> proof_row option" where
  "proof_of db orgID userID rootID path = find (\<lambda>p. pf_org p = orgID \<and> pf_user p = userID \<and> pf_root p = rootID \<and> pf_path p = path)
     (file_content_proofs db)"

text \<open>\<^verbatim>\<open>INSERT ... ON CONFLICT DO UPDATE ... WHERE\<close>: \<open>newer\<close> compares the stored sequence with the new one.\<close>

definition upsert_proof :: "(int \<Rightarrow> int \<Rightarrow> bool) \<Rightarrow> proof_row \<Rightarrow> database \<Rightarrow> database" where
  "upsert_proof newer p db =
    (case proof_of db (pf_org p) (pf_user p) (pf_root p) (pf_path p) of
       None \<Rightarrow> proof_changed (pf_root p) (pf_path p) (db\<lparr>file_content_proofs := file_content_proofs db @ [p]\<rparr>)
     | Some old \<Rightarrow>
        if newer (pf_sequence old) (pf_sequence p)
        then (let db' = db\<lparr>file_content_proofs := map (\<lambda>q. if pf_org q = pf_org p \<and> pf_user q = pf_user p \<and> pf_root q = pf_root p
                    \<and> pf_path q = pf_path p then p else q) (file_content_proofs db)\<rparr>
              in if old = p then db' else proof_changed (pf_root p) (pf_path p) db')
        else db)"

text \<open>The rows selected by the statement of \<^verbatim>\<open>RecordCapturedProofs\<close>, one per captured version.\<close>

definition captured_proof_rows :: "database \<Rightarrow> string \<Rightarrow> string \<Rightarrow> string \<Rightarrow> string list \<Rightarrow> proof_row list" where
  "captured_proof_rows db orgID userID rootID ids =
    [\<lparr>pf_org = root_org r, pf_user = userID, pf_root = fc_root f, pf_path = fc_path f, pf_sequence = fv_sequence v,
      pf_hash = fv_hash v, pf_deleted = fv_deleted v\<rparr>.
      v \<leftarrow> file_versions db, f \<leftarrow> file_catalog db, r \<leftarrow> roots db,
      fc_id f = fv_file v \<and> root_id r = fc_root f \<and> root_org r = orgID \<and> fc_root f = rootID \<and> fv_id v \<in> set ids \<and> root_deleting r = None]"

definition RecordCapturedProofs :: "database \<Rightarrow> string \<Rightarrow> string \<Rightarrow> string \<Rightarrow> registered_version list \<Rightarrow> database" where
  "RecordCapturedProofs db orgID userID rootID versions =
     fold (upsert_proof (<)) (captured_proof_rows db orgID userID rootID (map rv_version versions)) db"

section \<open>Endpoints\<close>

definition captureIdentity :: "database \<Rightarrow> identity option \<Rightarrow> string \<Rightarrow> (nat \<times> string) + identity" where
  "captureIdentity db who rootID = (case who of
      None \<Rightarrow> Inl (401, ''unauthorized'')
    | Some idn \<Rightarrow>
        if \<not> HasScope who ''sync'' [''write''] then Inl (403, ''sync scope required'')
        else (case permitted_root db who rootID PermSync of
            None \<Rightarrow> Inl (404, ''root not found'')
          | Some _ \<Rightarrow> Inr idn))"

record file_proof = fp_path :: string fp_version :: string fp_hash :: string

fun check_proofs :: "root_acl list \<Rightarrow> string list \<Rightarrow> file_proof list \<Rightarrow> (nat \<times> string) option" where
  "check_proofs acls seen [] = None"
| "check_proofs acls seen (f # fs) =
    (if cleanFilePath (fp_path f) \<noteq> Inr (fp_path f) \<or> fp_path f \<in> set seen \<or> fp_version f = [] \<or> fp_hash f = []
     then Some (400, ''invalid or duplicate file proof'')
     else if acls \<noteq> [] \<and> \<not> checkPermission acls (fp_path f) ''write'' then Some (403, ''proof path is not writable'')
     else check_proofs acls (fp_path f # seen) fs)"

text \<open>The rows that the validation query of \<^verbatim>\<open>handleCapturedProofs\<close> counts.\<close>

definition matching_proofs :: "database \<Rightarrow> string \<Rightarrow> file_proof list \<Rightarrow> (file_proof \<times> version_row) list" where
  "matching_proofs db rootID files = [(p, v). p \<leftarrow> files, f \<leftarrow> file_catalog db, v \<leftarrow> file_versions db,
     fc_root f = rootID \<and> fc_path f = fp_path p \<and> \<not> fc_deleted f \<and> fv_id v = fc_captured f \<and> fv_id v = fp_version p
     \<and> fv_hash v = fp_hash p \<and> \<not> fv_deleted v]"

definition proof_rows :: "database \<Rightarrow> identity \<Rightarrow> string \<Rightarrow> file_proof list \<Rightarrow> proof_row list" where
  "proof_rows db idn rootID files =
    [\<lparr>pf_org = id_org idn, pf_user = id_user idn, pf_root = rootID, pf_path = fp_path p, pf_sequence = fv_sequence v,
      pf_hash = fv_hash v, pf_deleted = False\<rparr>. p \<leftarrow> files, v \<leftarrow> file_versions db, fv_id v = fp_version p]"

definition handleCapturedProofs ::
  "bool \<Rightarrow> database \<Rightarrow> identity option \<Rightarrow> string \<Rightarrow> file_proof list option \<Rightarrow> nat response \<times> database" where
  "handleCapturedProofs commits db who rootID input =
    (case captureIdentity db who rootID of
       Inl (status, e) \<Rightarrow> (Fail status e, db)
     | Inr idn \<Rightarrow>
        (case input of
           None \<Rightarrow> (Fail 400 ''invalid capture request'', db)
         | Some files \<Rightarrow>
            if length files < 1 \<or> length files > 128 then (Fail 400 ''files must contain 1..128 proofs'', db)
            else (case check_proofs (getACLsForUser db (id_org idn) rootID (id_user idn) (id_role idn)) [] files of
                Some (status, e) \<Rightarrow> (Fail status e, db)
              | None \<Rightarrow>
                 if \<not> live_root db (id_org idn) rootID then (Fail 409 ''root unavailable'', db)
                 else if length (matching_proofs db rootID files) \<noteq> length files
                 then (Fail 409 ''proof does not match current captured versions; refresh catalog'', db)
                 else if \<not> commits then (Fail 500 ''proof persistence failed'', db)
                 else (Reply 200 (length (matching_proofs db rootID files)),
                       fold (upsert_proof (\<le>)) (proof_rows db idn rootID files) db))))"

datatype capture_response =
    CaptureFail (cr_status: nat) (cr_code: string) (cr_keys: "string list")
  | CaptureAccepted (cr_capture: string) (cr_versions: "registered_version list")

definition capture_error_response :: "capture_error \<Rightarrow> capture_response" where
  "capture_error_response e = (case e of
      VersionConflict _ \<Rightarrow> CaptureFail 409 ''capture_version_conflict'' []
    | CaptureRootDeleting \<Rightarrow> CaptureFail 409 [] []
    | CaptureForbidden \<Rightarrow> CaptureFail 403 [] []
    | PacksRetired keys \<Rightarrow> CaptureFail 409 ''source_pack_reupload_required'' keys
    | ExtentUnavailable \<Rightarrow> CaptureFail 400 [] []
    | _ \<Rightarrow> CaptureFail 500 [] [])"

definition check_capture_file :: "root_acl list \<Rightarrow> capture_file \<Rightarrow> nat option" where
  "check_capture_file acls f =
    (if cleanFilePath (cf_path f) \<noteq> Inr (cf_path f) \<or> \<not> checkPermission acls (cf_path f) ''write'' then Some 403
     else if cf_deleted f then (if cf_source f \<noteq> None then Some 400 else None)
     else (case cf_source f of
         None \<Rightarrow> Some 400
       | Some m \<Rightarrow> if \<not> is_ok (ValidateManifest m) then Some 400 else None))"

definition captured_versions :: "capture_file list \<Rightarrow> string list \<Rightarrow> captured_version list" where
  "captured_versions files refs = map (\<lambda>(f, ref).
     (case (cf_deleted f, cf_source f) of
        (False, Some m) \<Rightarrow> \<lparr>cv_path = cf_path f, cv_previous = cf_previous f, cv_hash = content_hash m, cv_size = manifest_size m,
           cv_ref = ref, cv_deleted = False, cv_extents = extents m\<rparr>
      | _ \<Rightarrow> \<lparr>cv_path = cf_path f, cv_previous = cf_previous f, cv_hash = [], cv_size = 0, cv_ref = [], cv_deleted = cf_deleted f, cv_extents = []\<rparr>))
     (zip files refs)"

definition extractionRevision :: string where
  "extractionRevision = ''visual-gemini-3.5-flash-lite-v2''"

record capture_env =
  env_uuid5 :: "string \<Rightarrow> string"
  env_file_id :: "string \<Rightarrow> string"
  env_uuid_ok :: "string \<Rightarrow> bool"
  env_sha :: "bytes \<Rightarrow> string"
  env_marshal :: "source_manifest option \<Rightarrow> bytes"
  env_upload :: "string \<Rightarrow> bytes \<Rightarrow> bool"
  env_commits :: bool
  env_proofs :: bool

definition handleRegisterFileVersions ::
  "capture_env \<Rightarrow> database \<Rightarrow> nat \<Rightarrow> identity option \<Rightarrow> string \<Rightarrow> (string \<times> capture_file list) option \<Rightarrow> capture_response \<times> database" where
  "handleRegisterFileVersions env db now who rootID input =
    (case captureIdentity db who rootID of
       Inl (status, _) \<Rightarrow> (CaptureFail status [] [], db)
     | Inr idn \<Rightarrow>
        (case input of
           None \<Rightarrow> (CaptureFail 400 [] [], db)
         | Some (captureID, files) \<Rightarrow>
            if \<not> env_uuid_ok env captureID \<or> length files < 1 \<or> length files > 128 then (CaptureFail 400 [] [], db)
            else (case List.map_filter (check_capture_file (getACLsForUser db (id_org idn) rootID (id_user idn) (id_role idn))) files of
                status # _ \<Rightarrow> (CaptureFail status [] [], db)
              | [] \<Rightarrow>
                 (case packSourceManifests (env_sha env) (env_marshal env) (id_org idn) rootID files of
                    Inl _ \<Rightarrow> (CaptureFail 400 [] [], db)
                  | Inr pack \<Rightarrow>
                     if mp_key pack \<noteq> [] \<and> \<not> env_upload env (mp_key pack) (mp_body pack) then (CaptureFail 503 [] [], db)
                     else (case RegisterFileVersions (env_uuid5 env) (env_file_id env) (env_commits env) db now (Some idn) rootID captureID
                              extractionRevision (captured_versions files (mp_refs pack)) of
                         (Inl e, db') \<Rightarrow> (capture_error_response e, db')
                       | (Inr result, db') \<Rightarrow>
                          if \<not> env_proofs env then (CaptureFail 500 [] [], db')
                          else (CaptureAccepted captureID result, RecordCapturedProofs db' (id_org idn) (id_user idn) rootID result))))))"

section \<open>Proofs only move forward\<close>

text \<open>
  The two statements that write proofs differ in how they treat a proof of the same sequence
  number; what their callers rely on is the same contract.
\<close>

locale proof_upsert =
  fixes newer :: "int \<Rightarrow> int \<Rightarrow> bool"
  assumes keeps: "newer old new \<Longrightarrow> old \<le> new"
    and replaces: "\<not> newer old new \<Longrightarrow> new \<le> old"
begin

lemma upsert_lookup:
  "proof_of (upsert_proof newer p db) org user root path =
    (if (org, user, root, path) = (pf_org p, pf_user p, pf_root p, pf_path p)
     then (case proof_of db org user root path of
             None \<Rightarrow> Some p | Some old \<Rightarrow> if newer (pf_sequence old) (pf_sequence p) then Some p else Some old)
     else proof_of db org user root path)"
proof -
  let ?key = "\<lambda>a b c d q. pf_org q = a \<and> pf_user q = b \<and> pf_root q = c \<and> pf_path q = d"
  let ?upd = "\<lambda>q. if pf_org q = pf_org p \<and> pf_user q = pf_user p \<and> pf_root q = pf_root p \<and> pf_path q = pf_path p then p else q"
  have app: "find (?key a b c d) (xs @ [p]) = (case find (?key a b c d) xs of None \<Rightarrow> if ?key a b c d p then Some p else None | Some y \<Rightarrow> Some y)"
    for xs a b c d by (induction xs) auto
  have map: "find (?key a b c d) (map ?upd xs) = (if ?key a b c d p then map_option (\<lambda>_. p) (find (?key a b c d) xs) else find (?key a b c d) xs)"
    for xs a b c d by (induction xs) auto
  show ?thesis
    unfolding upsert_proof_def by (auto simp: proof_of_def app map Let_def split: option.splits)
qed

lemma upsert_forward:
  "proof_of db org user root path = Some q \<Longrightarrow> \<exists>q'. proof_of (upsert_proof newer p db) org user root path = Some q' \<and> pf_sequence q \<le> pf_sequence q'"
  using keeps by (auto simp: upsert_lookup)

lemma upserts_forward:
  "proof_of db org user root path = Some q \<Longrightarrow> \<exists>q'. proof_of (fold (upsert_proof newer) ps db) org user root path = Some q' \<and> pf_sequence q \<le> pf_sequence q'"
proof (induction ps arbitrary: db q)
  case (Cons p ps)
  obtain q1 where "proof_of (upsert_proof newer p db) org user root path = Some q1" "pf_sequence q \<le> pf_sequence q1"
    using upsert_forward[OF Cons.prems] by blast
  with Cons.IH[of "upsert_proof newer p db" q1] show ?case by fastforce
qed simp

lemma upserts_reach:
  assumes "p \<in> set ps"
  shows "\<exists>q. proof_of (fold (upsert_proof newer) ps db) (pf_org p) (pf_user p) (pf_root p) (pf_path p) = Some q \<and> pf_sequence p \<le> pf_sequence q"
  using assms
proof (induction ps arbitrary: db)
  case (Cons x ps)
  show ?case
  proof (cases "p \<in> set ps")
    case True
    with Cons.IH show ?thesis by simp
  next
    case False
    then have "x = p" using Cons.prems by simp
    then have "\<exists>q. proof_of (upsert_proof newer x db) (pf_org p) (pf_user p) (pf_root p) (pf_path p) = Some q \<and> pf_sequence p \<le> pf_sequence q"
      using replaces by (auto simp: upsert_lookup split: option.split)
    then show ?thesis using upserts_forward[of "upsert_proof newer x db"] by fastforce
  qed
qed simp

lemma upsert_rows: "set (file_content_proofs (upsert_proof newer p db)) \<subseteq> insert p (set (file_content_proofs db))"
  by (auto simp: upsert_proof_def Let_def split: option.split)

lemma upserts_rows: "set (file_content_proofs (fold (upsert_proof newer) ps db)) \<subseteq> set ps \<union> set (file_content_proofs db)"
proof (induction ps arbitrary: db)
  case (Cons p ps)
  from Cons[of "upsert_proof newer p db"] upsert_rows[of p db] show ?case by auto
qed simp

lemma upserts_tables [simp]:
  "file_versions (fold (upsert_proof newer) ps db) = file_versions db"
  "file_catalog (fold (upsert_proof newer) ps db) = file_catalog db"
  "file_extractions (fold (upsert_proof newer) ps db) = file_extractions db"
  "version_sequence (fold (upsert_proof newer) ps db) = version_sequence db"
  "roots (fold (upsert_proof newer) ps db) = roots db"
proof -
  have one: "file_versions (upsert_proof newer p db) = file_versions db" "file_catalog (upsert_proof newer p db) = file_catalog db"
    "file_extractions (upsert_proof newer p db) = file_extractions db" "version_sequence (upsert_proof newer p db) = version_sequence db"
    "roots (upsert_proof newer p db) = roots db" for p db
    by (auto simp: upsert_proof_def Let_def split: option.split)
  show "file_versions (fold (upsert_proof newer) ps db) = file_versions db" "file_catalog (fold (upsert_proof newer) ps db) = file_catalog db"
    "file_extractions (fold (upsert_proof newer) ps db) = file_extractions db" "version_sequence (fold (upsert_proof newer) ps db) = version_sequence db"
    "roots (fold (upsert_proof newer) ps db) = roots db"
    by (induction ps arbitrary: db) (auto simp: one)
qed

end

interpretation captured: proof_upsert "(<)"
  by unfold_locales auto

interpretation bootstrap: proof_upsert "(\<le>)"
  by unfold_locales auto

text \<open>Every proof certifies a version captured at its path.\<close>

definition proofs_sound :: "database \<Rightarrow> bool" where
  "proofs_sound db \<longleftrightarrow> (\<forall>p\<in>set (file_content_proofs db). \<exists>f\<in>set (file_catalog db). \<exists>v\<in>set (file_versions db).
     fc_root f = pf_root p \<and> fc_path f = pf_path p \<and> fv_file v = fc_id f \<and> fv_sequence v = pf_sequence p \<and> fv_hash v = pf_hash p)"

lemma proof_of_mem: "proof_of db org user root path = Some p \<Longrightarrow> p \<in> set (file_content_proofs db) \<and> pf_org p = org \<and> pf_user p = user
    \<and> pf_root p = root \<and> pf_path p = path"
  unfolding proof_of_def by (auto dest: find_member_mem)

lemma captured_proof_rows_mem:
  "p \<in> set (captured_proof_rows db org user root ids) \<longleftrightarrow> (\<exists>v\<in>set (file_versions db). \<exists>f\<in>set (file_catalog db). \<exists>r\<in>set (roots db).
     fc_id f = fv_file v \<and> root_id r = fc_root f \<and> root_org r = org \<and> fc_root f = root \<and> fv_id v \<in> set ids \<and> root_deleting r = None
     \<and> p = \<lparr>pf_org = root_org r, pf_user = user, pf_root = fc_root f, pf_path = fc_path f, pf_sequence = fv_sequence v,
            pf_hash = fv_hash v, pf_deleted = fv_deleted v\<rparr>)"
  by (auto simp: captured_proof_rows_def)

lemma RecordCapturedProofs_sound: "proofs_sound db \<Longrightarrow> proofs_sound (RecordCapturedProofs db org user root vs)"
proof -
  assume sound: "proofs_sound db"
  let ?rows = "captured_proof_rows db org user root (map rv_version vs)"
  have "p \<in> set ?rows \<union> set (file_content_proofs db)" if "p \<in> set (file_content_proofs (RecordCapturedProofs db org user root vs))" for p
    using that captured.upserts_rows[of ?rows db] unfolding RecordCapturedProofs_def by blast
  moreover have "\<exists>f\<in>set (file_catalog db). \<exists>v\<in>set (file_versions db). fc_root f = pf_root p \<and> fc_path f = pf_path p \<and> fv_file v = fc_id f
      \<and> fv_sequence v = pf_sequence p \<and> fv_hash v = pf_hash p" if "p \<in> set ?rows" for p
    using that unfolding captured_proof_rows_mem by fastforce
  ultimately show ?thesis using sound unfolding proofs_sound_def by (fastforce simp: RecordCapturedProofs_def)
qed

lemma proofs_sound_hash:
  assumes "catalog_wf db" "proofs_sound db" "proof_of db org user root path = Some q" "v \<in> set (file_versions db)" "fv_sequence v = pf_sequence q"
  shows "pf_hash q = fv_hash v"
proof -
  obtain u where u: "u \<in> set (file_versions db)" "fv_sequence u = pf_sequence q" "fv_hash u = pf_hash q"
    using assms(2) proof_of_mem[OF assms(3)] unfolding proofs_sound_def by blast
  then have "u = v" using assms(1,4,5) by (auto simp: catalog_wf_def catalog_keys_def distinct_map inj_on_def)
  with u show ?thesis by simp
qed

section \<open>Acknowledged captures\<close>

lemma captured_versions_nth:
  assumes "i < length files" "length refs = length files"
  shows "length (captured_versions files refs) = length files" "cv_path (captured_versions files refs ! i) = cf_path (files ! i)"
    "\<not> cf_deleted (files ! i) \<Longrightarrow> cf_source (files ! i) = Some m \<Longrightarrow> cv_hash (captured_versions files refs ! i) = content_hash m"
  using assms by (auto simp: captured_versions_def split: option.split bool.split)

lemma pack_refs_length: "packSourceManifests sha marshal org root files = Inr p \<Longrightarrow> length (mp_refs p) = length files"
  by (auto simp: packSourceManifests_def Let_def split: if_splits option.splits prod.splits)

lemma root_of_live: "root_of db org r = Some root \<Longrightarrow> root \<in> set (roots db) \<and> root_id root = r \<and> root_org root = org"
  unfolding root_of_def by (auto dest: find_member_mem)

lemma RegisterFileVersions_proofs_sound:
  assumes "RegisterFileVersions uuid5 newFileID commits db now who rootID captureID revision files = (res, db')"
    and "catalog_wf db" "\<forall>s. uuid5 s \<noteq> []" "proofs_sound db" "file_content_proofs db' = file_content_proofs db"
  shows "proofs_sound db'"
  unfolding proofs_sound_def assms(5)
proof
  fix p assume "p \<in> set (file_content_proofs db)"
  then obtain f v where fv: "f \<in> set (file_catalog db)" "v \<in> set (file_versions db)" "fc_root f = pf_root p" "fc_path f = pf_path p"
      "fv_file v = fc_id f" "fv_sequence v = pf_sequence p" "fv_hash v = pf_hash p"
    using assms(4) unfolding proofs_sound_def by blast
  have ext: "extends db db'" using RegisterFileVersions_wf[OF assms(1-3)] by blast
  obtain f' where "f' \<in> set (file_catalog db')" "fc_id f' = fc_id f" "fc_root f' = fc_root f" "fc_path f' = fc_path f"
    using ext fv(1) unfolding extends_def by blast
  moreover have "v \<in> set (file_versions db')" using ext fv(2) unfolding extends_def by blast
  ultimately show "\<exists>f\<in>set (file_catalog db'). \<exists>v\<in>set (file_versions db'). fc_root f = pf_root p \<and> fc_path f = pf_path p
      \<and> fv_file v = fc_id f \<and> fv_sequence v = pf_sequence p \<and> fv_hash v = pf_hash p"
    using fv by metis
qed

lemma writeCapturedVersions_proofs: "writeCapturedVersions c ws r db = Inr (r', db') \<Longrightarrow> file_content_proofs db' = file_content_proofs db"
proof (induction c ws r db arbitrary: r' db' rule: writeCapturedVersions.induct)
  case (2 captureID w ws result db)
  then obtain db1 where w: "write_version captureID w db = Inr db1" by (auto split: sum.splits)
  have one: "file_content_proofs db1 = file_content_proofs db"
    using w by (auto simp: write_version_def Let_def split: if_splits option.splits)
  have "writeCapturedVersions captureID ws (result[cw_slot w := (result ! cw_slot w)\<lparr>rv_sequence := version_sequence db1\<rparr>]) db1
      = Inr (r', db')"
    using "2.prems" w by simp
  from "2.IH"[OF w this] one show ?case by simp
qed auto

lemma insert_catalog_proofs: "insert_catalog n r ps db = Inr db' \<Longrightarrow> file_content_proofs db' = file_content_proofs db"
  by (induction n r ps db arbitrary: db' rule: insert_catalog.induct) (auto split: if_splits)

lemma register_body_proofs:
  assumes "register_body uuid5 newFileID db now idn rootID captureID revision files = Inr (result, db')"
  shows "file_content_proofs db' = file_content_proofs db"
proof -
  obtain db1 plan db2 where
    ins: "insert_catalog newFileID rootID (map cv_path files) db = Inr db1"
    and fin: "if List.map_filter snd plan = [] then db2 = db1 \<and> result = map fst plan \<and> db' = db1
     else authorizeCaptureSources db1 idn rootID captureID (List.map_filter snd plan) = Inr db2
       \<and> writeCapturedVersions captureID (List.map_filter snd plan) (map fst plan) db2 = Inr (result, db')"
    using register_body_stages[OF assms] by metis
  have "file_content_proofs db2 = file_content_proofs db1"
    using fin by (auto simp: authorizeCaptureSources_def Let_def split: if_splits)
  moreover have "file_content_proofs db' = file_content_proofs db2"
    using fin by (auto split: if_splits dest: writeCapturedVersions_proofs)
  ultimately show ?thesis using insert_catalog_proofs[OF ins] by simp
qed

lemma handleRegister_accepted:
  assumes "handleRegisterFileVersions env db now who rootID input = (CaptureAccepted c result, db')"
  obtains idn files pack db1 where "who = Some idn" "input = Some (c, files)"
    "packSourceManifests (env_sha env) (env_marshal env) (id_org idn) rootID files = Inr pack"
    "RegisterFileVersions (env_uuid5 env) (env_file_id env) (env_commits env) db now (Some idn) rootID c extractionRevision
       (captured_versions files (mp_refs pack)) = (Inr result, db1)"
    "db' = RecordCapturedProofs db1 (id_org idn) (id_user idn) rootID result"
    "\<forall>f\<in>set files. check_capture_file (getACLsForUser db (id_org idn) rootID (id_user idn) (id_role idn)) f = None"
proof -
  obtain idn where i: "captureIdentity db who rootID = Inr idn"
    using assms by (auto simp: handleRegisterFileVersions_def split: sum.splits)
  then have who: "who = Some idn" by (auto simp: captureIdentity_def split: option.splits if_splits)
  obtain c' files where inp: "input = Some (c', files)"
    using assms i by (auto simp: handleRegisterFileVersions_def split: option.splits)
  let ?bad = "List.map_filter (check_capture_file (getACLsForUser db (id_org idn) rootID (id_user idn) (id_role idn))) files"
  have bad: "?bad = []" using assms i inp by (auto simp: handleRegisterFileVersions_def split: if_splits list.splits)
  have checked: "\<forall>f\<in>set files. check_capture_file (getACLsForUser db (id_org idn) rootID (id_user idn) (id_role idn)) f = None"
    using bad by (simp add: List.map_filter_def filter_empty_conv)
  obtain pack where p: "packSourceManifests (env_sha env) (env_marshal env) (id_org idn) rootID files = Inr pack"
    using assms i inp bad by (auto simp: handleRegisterFileVersions_def split: if_splits sum.splits)
  let ?run = "RegisterFileVersions (env_uuid5 env) (env_file_id env) (env_commits env) db now (Some idn) rootID c' extractionRevision
       (captured_versions files (mp_refs pack))"
  have "not_failed (fst ?run)" if "\<And>e. not_failed (Inl e) = False" "\<And>r. not_failed (Inr r) = True" for not_failed
    using assms i inp bad p that
    by (cases ?run; cases "fst ?run") (auto simp: handleRegisterFileVersions_def capture_error_response_def split: if_splits capture_error.splits)
  from this[of "\<lambda>r. case r of Inl _ \<Rightarrow> False | Inr _ \<Rightarrow> True"] obtain r db1 where run: "?run = (Inr r, db1)"
    by (cases ?run) (auto split: sum.splits)
  have "c' = c" "r = result" "db' = RecordCapturedProofs db1 (id_org idn) (id_user idn) rootID result"
    using assms i inp bad p run by (auto simp: handleRegisterFileVersions_def split: if_splits)
  with that who inp p run checked show thesis by blast
qed

lemma RecordCapturedProofs_wf: "catalog_wf (RecordCapturedProofs db org user root vs) = catalog_wf db"
  unfolding RecordCapturedProofs_def by (rule catalog_wf_cong) simp_all

lemma accepted_invariants:
  assumes run: "handleRegisterFileVersions env db now (Some idn) rootID (Some (captureID, files)) = (CaptureAccepted c result, db')"
    and wf: "catalog_wf db" and sound: "proofs_sound db" and uuid: "\<forall>s. env_uuid5 env s \<noteq> []"
  shows "catalog_wf db' \<and> proofs_sound db'"
proof -
  obtain pack :: manifest_pack and db1 where
      reg: "RegisterFileVersions (env_uuid5 env) (env_file_id env) (env_commits env) db now (Some idn) rootID c extractionRevision
       (captured_versions files (mp_refs pack)) = (Inr result, db1)"
      and db': "db' = RecordCapturedProofs db1 (id_org idn) (id_user idn) rootID result"
    by (rule handleRegister_accepted[OF run]) auto
  have "file_content_proofs db1 = file_content_proofs db"
    using RegisterFileVersions_cases[OF reg] register_body_proofs by auto
  from RegisterFileVersions_proofs_sound[OF reg wf uuid sound this] RegisterFileVersions_wf[OF reg wf uuid]
  show ?thesis by (simp add: db' RecordCapturedProofs_wf RecordCapturedProofs_sound)
qed


section \<open>Bootstrapping proofs\<close>

lemma head_version:
  assumes "catalog_wf db" "f \<in> set (file_catalog db)" "v \<in> set (file_versions db)" "fv_id v = fc_captured f"
  shows "fv_file v = fc_id f"
proof -
  have "fv_id v \<noteq> []" "head_ok db f" using assms by (auto simp: catalog_wf_def catalog_keys_def)
  then obtain u where "newest db (fc_id f) u" "fv_id u = fc_captured f" using assms(4) by (auto simp: head_ok_def)
  moreover from this have "u = v" using assms by (auto simp: catalog_wf_def catalog_keys_def newest_def distinct_map inj_on_def)
  ultimately show ?thesis by (simp add: newest_def)
qed

lemma concat_at_most_one:
  assumes "distinct (map k xs)" "\<And>x. g x \<noteq> [] \<Longrightarrow> k x = c" "\<And>x. length (g x) \<le> 1"
  shows "length (concat (map g xs)) \<le> 1"
  using assms(1)
proof (induction xs)
  case (Cons x xs)
  show ?case
  proof (cases "g x = []")
    case False
    have "g y = []" if y: "y \<in> set xs" for y
    proof (rule ccontr)
      assume "g y \<noteq> []"
      then have "k y = k x" using assms(2)[of x] assms(2)[of y] False by simp
      then show False using Cons.prems y by (auto simp: image_iff)
    qed
    then have none: "concat (map g xs) = []" by simp
    show ?thesis using assms(3)[of x] by (simp only: list.map concat.simps none append_Nil2)
  qed (use Cons in simp)
qed simp

lemma concat_full:
  assumes "\<And>x. length (g x) \<le> 1" "length (concat (map g xs)) = length xs" "x \<in> set xs"
  shows "g x \<noteq> []"
  using assms(2,3)
proof (induction xs)
  case (Cons y ys)
  have "length (concat (map g zs)) \<le> length zs" for zs
  proof (induction zs)
    case (Cons z zs)
    then show ?case using assms(1)[of z] by simp
  qed simp
  from this[of ys] have "length (concat (map g ys)) = length ys" "length (g y) = 1" using Cons.prems(1) assms(1)[of y] by simp_all
  with Cons.IH Cons.prems(2) show ?case by auto
qed simp

lemma matching_proofs_full:
  assumes "catalog_keys db" "length (matching_proofs db rootID files) = length files" "p \<in> set files"
  shows "\<exists>f\<in>set (file_catalog db). \<exists>v\<in>set (file_versions db). fc_root f = rootID \<and> fc_path f = fp_path p \<and> \<not> fc_deleted f
    \<and> fv_id v = fc_captured f \<and> fv_id v = fp_version p \<and> fv_hash v = fp_hash p"
proof -
  let ?inner = "\<lambda>p f v. if fc_root f = rootID \<and> fc_path f = fp_path p \<and> \<not> fc_deleted f \<and> fv_id v = fc_captured f \<and> fv_id v = fp_version p
     \<and> fv_hash v = fp_hash p \<and> \<not> fv_deleted v then [(p, v)] else []"
  let ?row = "\<lambda>p. concat (map (\<lambda>f. concat (map (?inner p f) (file_versions db))) (file_catalog db))"
  have inner: "length (concat (map (?inner p f) (file_versions db))) \<le> 1" for p f
    using assms(1) by (intro concat_at_most_one[of fv_id _ _ "fp_version p"]) (auto simp: catalog_keys_def split: if_splits)
  have row: "length (?row p) \<le> 1" for p
    using assms(1) inner
    by (intro concat_at_most_one[of "\<lambda>f. (fc_root f, fc_path f)" _ _ "(rootID, fp_path p)"]) (auto simp: catalog_keys_def split: if_splits)
  have "matching_proofs db rootID files = concat (map ?row files)" by (simp add: matching_proofs_def)
  then have "length (concat (map ?row files)) = length files" using assms(2) by simp
  from concat_full[of ?row, OF row this assms(3)] have "?row p \<noteq> []" .
  then show ?thesis by (auto split: if_splits)
qed

text \<open>
  C22: \<^verbatim>\<open>handleCapturedProofs\<close> accepts a batch as a whole or not at all.  On success every
  submitted pair of version and hash was the current head of an undeleted file, and the caller
  now has a proof for each path that is at least as new as that head; proofs stay sound.
  Otherwise the database is unchanged.
\<close>

theorem handleCapturedProofs_all_or_nothing:
  assumes wf: "catalog_wf db" and sound: "proofs_sound db"
    and run: "handleCapturedProofs commits db (Some idn) rootID (Some files) = (r, db')"
  shows "case r of
      Fail status e \<Rightarrow> db' = db
    | Reply status n \<Rightarrow> n = length files \<and> proofs_sound db' \<and> (\<forall>p\<in>set files. \<exists>f\<in>set (file_catalog db). \<exists>v\<in>set (file_versions db).
        fc_root f = rootID \<and> fc_path f = fp_path p \<and> \<not> fc_deleted f \<and> fc_captured f = fp_version p \<and> fv_id v = fp_version p \<and> fv_hash v = fp_hash p
        \<and> (\<exists>q. proof_of db' (id_org idn) (id_user idn) rootID (fp_path p) = Some q \<and> fv_sequence v \<le> pf_sequence q
             \<and> (pf_sequence q = fv_sequence v \<longrightarrow> pf_hash q = fp_hash p)))"
proof (cases r)
  case (Fail status e)
  then show ?thesis using run by (auto simp: handleCapturedProofs_def split: sum.splits if_splits option.splits)
next
  case (Reply status n)
  have ci: "captureIdentity db (Some idn) rootID = Inr idn"
    using run Reply by (auto simp: handleCapturedProofs_def captureIdentity_def split: option.splits if_splits)
  let ?rows = "proof_rows db idn rootID files"
  have n: "n = length files" "length (matching_proofs db rootID files) = length files" and db': "db' = fold (upsert_proof (\<le>)) ?rows db"
    using run Reply ci by (auto simp: handleCapturedProofs_def split: option.splits if_splits)
  have keys: "catalog_keys db" using wf by (simp add: catalog_wf_def)
  note M = matching_proofs_full[OF keys n(2)]
  have tables: "file_catalog db' = file_catalog db" "file_versions db' = file_versions db" by (simp_all add: db')
  have s': "proofs_sound db'"
    unfolding proofs_sound_def tables
  proof
    fix q assume "q \<in> set (file_content_proofs db')"
    then consider "q \<in> set ?rows" | "q \<in> set (file_content_proofs db)" using bootstrap.upserts_rows[of ?rows db] db' by blast
    then show "\<exists>f\<in>set (file_catalog db). \<exists>v\<in>set (file_versions db). fc_root f = pf_root q \<and> fc_path f = pf_path q \<and> fv_file v = fc_id f
        \<and> fv_sequence v = pf_sequence q \<and> fv_hash v = pf_hash q"
    proof cases
      case 1
      then obtain p v where pv: "p \<in> set files" "v \<in> set (file_versions db)" "fv_id v = fp_version p"
          "q = \<lparr>pf_org = id_org idn, pf_user = id_user idn, pf_root = rootID, pf_path = fp_path p, pf_sequence = fv_sequence v, pf_hash = fv_hash v, pf_deleted = False\<rparr>"
        by (auto simp: proof_rows_def)
      from M[OF pv(1)] obtain f u where fu: "f \<in> set (file_catalog db)" "u \<in> set (file_versions db)" "fc_root f = rootID" "fc_path f = fp_path p"
          "fv_id u = fc_captured f" "fv_id u = fp_version p" by blast
      have "u = v" using keys fu pv(2,3) by (auto simp: catalog_keys_def distinct_map inj_on_def)
      moreover have "fv_file u = fc_id f" using head_version[OF wf fu(1,2,5)] .
      ultimately show ?thesis using fu pv(4) by (intro bexI[of _ f] bexI[of _ v]) auto
    qed (use sound in \<open>auto simp: proofs_sound_def\<close>)
  qed
  have wf': "catalog_wf db'" using wf unfolding db' by (subst catalog_wf_cong[of _ db]) simp_all
  have "\<exists>f\<in>set (file_catalog db). \<exists>v\<in>set (file_versions db).
        fc_root f = rootID \<and> fc_path f = fp_path p \<and> \<not> fc_deleted f \<and> fc_captured f = fp_version p \<and> fv_id v = fp_version p \<and> fv_hash v = fp_hash p
        \<and> (\<exists>q. proof_of db' (id_org idn) (id_user idn) rootID (fp_path p) = Some q \<and> fv_sequence v \<le> pf_sequence q
             \<and> (pf_sequence q = fv_sequence v \<longrightarrow> pf_hash q = fp_hash p))" if p: "p \<in> set files" for p
  proof -
    from M[OF p] obtain f v where fv: "f \<in> set (file_catalog db)" "v \<in> set (file_versions db)" "fc_root f = rootID" "fc_path f = fp_path p"
      "\<not> fc_deleted f" "fv_id v = fc_captured f" "fv_id v = fp_version p" "fv_hash v = fp_hash p" by blast
    let ?q = "\<lparr>pf_org = id_org idn, pf_user = id_user idn, pf_root = rootID, pf_path = fp_path p, pf_sequence = fv_sequence v, pf_hash = fv_hash v, pf_deleted = False\<rparr>"
    have "?q \<in> set ?rows" using p fv(2,7) by (auto simp: proof_rows_def)
    from bootstrap.upserts_reach[OF this, of db] obtain q where
      q: "proof_of db' (id_org idn) (id_user idn) rootID (fp_path p) = Some q" "fv_sequence v \<le> pf_sequence q" by (auto simp: db')
    have "pf_sequence q = fv_sequence v \<longrightarrow> pf_hash q = fp_hash p"
      using proofs_sound_hash[OF wf' s' q(1), of v] fv(2,8) tables by auto
    with fv q show ?thesis by (intro bexI[of _ f] bexI[of _ v]) auto
  qed
  with n s' show ?thesis unfolding Reply by simp
qed

section \<open>A concrete acknowledgement\<close>

definition sample_env :: capture_env where
  "sample_env = \<lparr>env_uuid5 = (\<lambda>s. ''v'' @ s), env_file_id = (\<lambda>p. ''f'' @ p), env_uuid_ok = (\<lambda>_. True),
     env_sha = (\<lambda>_. replicate 64 CHR ''b''), env_marshal = (\<lambda>_. ''{}''), env_upload = (\<lambda>_ _. True), env_commits = True, env_proofs = True\<rparr>"

definition sample_files :: "capture_file list" where
  "sample_files = [\<lparr>cf_path = ''a/b.txt'', cf_previous = [], cf_deleted = False,
     cf_source = Some \<lparr>manifest_format = 1, content_hash = sample_hash, manifest_size = 5,
       extents = [\<lparr>object_key = ''pack'', offset = 1, extent_length = 5\<rparr>]\<rparr>\<rparr>]"

abbreviation sample_accept :: "capture_response \<times> database" where
  "sample_accept \<equiv> handleRegisterFileVersions sample_env sample_capture_db 7 (Some sample_owner) ''r1'' (Some (''c1'', sample_files))"

lemma sample_accept_run: "fst sample_accept = CaptureAccepted ''c1'' [registered (\<lambda>s. ''v'' @ s) ''fa/b.txt'' ''vfa/b.txt:c1'' 1 extractionRevision False]"
  by code_simp

lemma sample_accept_pair:
  "sample_accept = (CaptureAccepted ''c1'' [registered (\<lambda>s. ''v'' @ s) ''fa/b.txt'' ''vfa/b.txt:c1'' 1 extractionRevision False], snd sample_accept)"
  using sample_accept_run by (metis prod.collapse)

lemma sample_sound: "proofs_sound sample_capture_db"
  by (simp add: proofs_sound_def sample_capture_db_def sample_root_db_def sample_db_def empty_database_def)

lemma sample_env_ids: "\<forall>s. env_uuid5 sample_env s \<noteq> []"
  by (simp add: sample_env_def)


abbreviation sample_proof :: file_proof where
  "sample_proof \<equiv> \<lparr>fp_path = ''a/b.txt'', fp_version = ''vfa/b.txt:c1'', fp_hash = sample_hash\<rparr>"

theorem handleCapturedProofs_all_or_nothing_witness:
  "\<exists>f\<in>set (file_catalog (snd sample_accept)). fc_root f = ''r1'' \<and> fc_path f = ''a/b.txt'' \<and> fc_captured f = ''vfa/b.txt:c1''"
proof -
  let ?run = "handleCapturedProofs True (snd sample_accept) (Some sample_owner) ''r1'' (Some [sample_proof])"
  have "fst ?run = Reply 200 1" by code_simp
  then have run: "?run = (Reply 200 1, snd ?run)" by (metis prod.collapse)
  have "catalog_wf (snd sample_accept)" "proofs_sound (snd sample_accept)"
    using accepted_invariants[OF sample_accept_pair sample_capture_wf sample_sound sample_env_ids] by auto
  from handleCapturedProofs_all_or_nothing[OF this run] show ?thesis by auto
qed

end
