(* ===== verification/Source_Uploads.thy ===== *)
theory Source_Uploads
  imports Capture_Proofs
begin

text \<open>
  Uploads of source packs: the pack endpoints of \<^verbatim>\<open>internal/server/capture_api.go\<close>, the multipart
  endpoints of \<^verbatim>\<open>capture_multipart.go\<close> and the multipart client of
  \<^verbatim>\<open>internal/storage/immutable_multipart.go\<close>.  The object store itself is outside the program: its
  answers are parameters (\<open>head\<close> for HEAD, \<open>list_parts\<close>, \<open>create\<close>, \<open>complete\<close>, \<open>presign\<close>), an object
  being its size and the upload identity in its metadata.  A signed URL is given with the two
  query parameters the code parses from it.  \<open>parse_uuid\<close> stands for \<^verbatim>\<open>uuid.Parse\<close> followed by the
  canonical text.  Times are seconds.
\<close>

datatype s3_error = ApiError string | TransportError

type_synonym head_answer = "s3_error + int \<times> string"

datatype 'a upload_response = UploadFail (up_status: nat) (up_code: string) (up_keys: "string list") | UploadOk 'a

section \<open>The multipart client\<close>

definition verifyImmutableMultipartObject :: "(string \<Rightarrow> head_answer) \<Rightarrow> string \<Rightarrow> string \<Rightarrow> int \<Rightarrow> s3_error option" where
  "verifyImmutableMultipartObject head key idt sz = (case head key of
      Inl e \<Rightarrow> Some e
    | Inr (n, i) \<Rightarrow> if n \<noteq> sz \<or> i \<noteq> idt then Some TransportError else None)"

datatype multipart_status = SessionActive | SessionCompleted | SessionExpired | SessionUnknown

definition CheckImmutableMultipartUpload ::
  "(string \<Rightarrow> string \<Rightarrow> s3_error option) \<Rightarrow> (string \<Rightarrow> head_answer) \<Rightarrow> string \<Rightarrow> string \<Rightarrow> string \<Rightarrow> int \<Rightarrow> multipart_status" where
  "CheckImmutableMultipartUpload list_parts head key uploadID idt sz = (case list_parts key uploadID of
      None \<Rightarrow> SessionActive
    | Some e \<Rightarrow> if e \<noteq> ApiError ''NoSuchUpload'' then SessionUnknown
        else (case verifyImmutableMultipartObject head key idt sz of
            None \<Rightarrow> SessionCompleted
          | Some v \<Rightarrow> if v = ApiError ''NotFound'' \<or> v = ApiError ''NoSuchKey'' then SessionExpired else SessionUnknown))"

definition CreateImmutableMultipartUpload :: "(string \<Rightarrow> string \<Rightarrow> s3_error + string) \<Rightarrow> string \<Rightarrow> string \<Rightarrow> string option" where
  "CreateImmutableMultipartUpload create key idt =
    (if key = [] \<or> idt = [] then None
     else case create key idt of Inl _ \<Rightarrow> None | Inr uploadID \<Rightarrow> if uploadID = [] then None else Some uploadID)"

type_synonym completed_part = "int \<times> string"

definition contiguous_parts :: "completed_part list \<Rightarrow> bool" where
  "contiguous_parts parts \<longleftrightarrow> list_all (\<lambda>(i, n, etag). n = int i + 1 \<and> etag \<noteq> []) (enumerate 0 parts)"

text \<open>
  The answer of \<^verbatim>\<open>CompleteMultipartUpload\<close> is not looked at when the object verifies, so the model
  takes only what HEAD says after it.
\<close>

definition CompleteImmutableMultipartUpload :: "(string \<Rightarrow> head_answer) \<Rightarrow> string \<Rightarrow> string \<Rightarrow> string \<Rightarrow> int \<Rightarrow> completed_part list \<Rightarrow> bool" where
  "CompleteImmutableMultipartUpload head key uploadID idt sz parts =
    (if key = [] \<or> uploadID = [] \<or> idt = [] \<or> sz < 1 \<or> length parts < 1 \<or> length parts > 10000 then False
     else if \<not> contiguous_parts parts then False
     else verifyImmutableMultipartObject head key idt sz = None)"

section \<open>Upload rows\<close>

definition update_objects :: "(source_object_row \<Rightarrow> bool) \<Rightarrow> (source_object_row \<Rightarrow> source_object_row) \<Rightarrow> database \<Rightarrow> (source_object_row \<times> database) option" where
  "update_objects P f db = (case find P (source_objects db) of
      None \<Rightarrow> None
    | Some x \<Rightarrow> Some (f x, db\<lparr>source_objects := map (\<lambda>y. if P y then f y else y) (source_objects db)\<rparr>))"

definition authorize_until :: "nat \<Rightarrow> source_object_row \<Rightarrow> source_object_row" where
  "authorize_until now x = x\<lparr>so_authorized_until := now + 900\<rparr>"

definition multipart_of :: "database \<Rightarrow> string \<Rightarrow> multipart_row option" where
  "multipart_of db key = find (\<lambda>m. mu_key m = key) (source_multipart_uploads db)"

definition object_row :: "string \<Rightarrow> string \<Rightarrow> string \<Rightarrow> int \<Rightarrow> string \<Rightarrow> nat \<Rightarrow> source_object_row" where
  "object_row key orgID rootID sz userID now = \<lparr>so_key = key, so_org = orgID, so_root = rootID, so_size = sz, so_uploader = userID,
     so_capture = None, so_completed = False, so_retired = False, so_authorized_until = now + 900\<rparr>"

definition root_live :: "database \<Rightarrow> string \<Rightarrow> bool" where
  "root_live db rootID \<longleftrightarrow> list_ex (\<lambda>r. root_id r = rootID \<and> root_deleting r = None) (roots db)"

definition writeRetiredSourcePack :: "database \<Rightarrow> string \<Rightarrow> string \<Rightarrow> string \<Rightarrow> 'a upload_response option" where
  "writeRetiredSourcePack db rootID key userID =
    (case find (\<lambda>x. so_key x = key \<and> so_root x = rootID \<and> so_uploader x = userID) (source_objects db) of
       Some x \<Rightarrow> if so_retired x then Some (UploadFail 409 ''source_pack_reupload_required'' [key]) else None
     | None \<Rightarrow> None)"

definition upload_conflict :: "database \<Rightarrow> string \<Rightarrow> string \<Rightarrow> string \<Rightarrow> nat \<Rightarrow> 'a upload_response" where
  "upload_conflict db rootID key userID status = (case writeRetiredSourcePack db rootID key userID of
      Some r \<Rightarrow> r | None \<Rightarrow> UploadFail status [] [])"

record signed_url = su_url :: string su_issued :: "nat option" su_expires :: "int option"

definition pinSignedSourceUpload :: "database \<Rightarrow> string \<Rightarrow> string \<Rightarrow> signed_url \<Rightarrow> database option" where
  "pinSignedSourceUpload db key userID signed = (case (su_issued signed, su_expires signed) of
      (Some issued, Some seconds) \<Rightarrow>
        if seconds < 1 \<or> seconds > 900 then None
        else map_option snd (update_objects
          (\<lambda>x. so_key x = key \<and> so_uploader x = userID \<and> \<not> so_retired x \<and> root_live db (so_root x))
          (\<lambda>x. x\<lparr>so_authorized_until := max (so_authorized_until x) (issued + nat seconds)\<rparr>) db)
    | _ \<Rightarrow> None)"

section \<open>Single-request packs\<close>

definition pack_register :: "database \<Rightarrow> nat \<Rightarrow> string \<Rightarrow> identity \<Rightarrow> string \<Rightarrow> int \<Rightarrow> string \<Rightarrow> (string \<times> database) option" where
  "pack_register db now newKey idn rootID sz objectKey =
    (if \<not> live_root db (id_org idn) rootID then None
     else if objectKey = [] then
       (if list_ex (\<lambda>x. so_key x = newKey) (source_objects db) then None
        else Some (newKey, db\<lparr>source_objects := source_objects db @ [object_row newKey (id_org idn) rootID sz (id_user idn) now]\<rparr>))
     else map_option (\<lambda>(x, db'). (so_key x, db')) (update_objects
       (\<lambda>x. so_key x = objectKey \<and> so_org x = id_org idn \<and> so_root x = rootID \<and> so_size x = sz \<and> so_uploader x = id_user idn
          \<and> \<not> so_retired x \<and> multipart_of db objectKey = None) (authorize_until now) db))"

definition handleSourcePackInit ::
  "(string \<Rightarrow> int \<Rightarrow> signed_url option) \<Rightarrow> database \<Rightarrow> nat \<Rightarrow> string \<Rightarrow> identity option \<Rightarrow> string \<Rightarrow> (int \<times> string) option
    \<Rightarrow> (string \<times> string) upload_response \<times> database" where
  "handleSourcePackInit presign db now uuid who rootID input =
    (case captureIdentity db who rootID of
       Inl (status, _) \<Rightarrow> (UploadFail status [] [], db)
     | Inr idn \<Rightarrow>
        (case input of
           None \<Rightarrow> (UploadFail 400 [] [], db)
         | Some (sz, objectKey) \<Rightarrow>
            if sz < 1 \<or> sz > 134217728 then (UploadFail 400 [] [], db)
            else let newKey = ''sources/'' @ id_org idn @ ''/'' @ rootID @ ''/packs/'' @ uuid in
             (case pack_register db now newKey idn rootID sz objectKey of
                None \<Rightarrow> (upload_conflict db rootID objectKey (id_user idn) 409, db)
              | Some (key, db1) \<Rightarrow>
                 (case presign key sz of
                    None \<Rightarrow> (UploadFail 503 [] [], db1)
                  | Some signed \<Rightarrow>
                     (case pinSignedSourceUpload db1 key (id_user idn) signed of
                        None \<Rightarrow> (UploadFail 503 [] [], db1)
                      | Some db2 \<Rightarrow> (UploadOk (key, su_url signed), db2))))))"

definition handleSourcePackComplete ::
  "(string \<Rightarrow> head_answer) \<Rightarrow> database \<Rightarrow> nat \<Rightarrow> identity option \<Rightarrow> string \<Rightarrow> string option \<Rightarrow> string upload_response \<times> database" where
  "handleSourcePackComplete head db now who rootID input =
    (case captureIdentity db who rootID of
       Inl (status, _) \<Rightarrow> (UploadFail status [] [], db)
     | Inr idn \<Rightarrow>
        (case input of
           None \<Rightarrow> (UploadFail 400 [] [], db)
         | Some key \<Rightarrow>
            (case update_objects (\<lambda>x. so_key x = key \<and> so_org x = id_org idn \<and> so_root x = rootID \<and> so_uploader x = id_user idn
                    \<and> \<not> so_retired x \<and> multipart_of db key = None) (authorize_until now) db of
               None \<Rightarrow> (upload_conflict db rootID key (id_user idn) 404, db)
             | Some (x, db1) \<Rightarrow>
                (case head key of
                   Inl _ \<Rightarrow> (UploadFail 409 [] [], db1)
                 | Inr (actual, _) \<Rightarrow>
                    if actual \<noteq> so_size x then (UploadFail 409 [] [], db1)
                    else (case update_objects (\<lambda>x. so_key x = key \<and> so_org x = id_org idn \<and> so_root x = rootID \<and> so_uploader x = id_user idn
                                \<and> \<not> so_retired x \<and> root_live db1 (so_root x)) (\<lambda>x. x\<lparr>so_completed := True\<rparr>) db1 of
                        None \<Rightarrow> (UploadFail 500 [] [], db1)
                      | Some (_, db2) \<Rightarrow> (UploadOk key, db2))))))"

section \<open>Multipart packs\<close>

definition capturePartSize :: int where
  "capturePartSize = 16777216"

definition part_count :: "int \<Rightarrow> int \<Rightarrow> int" where
  "part_count sz partSize = (sz + partSize - 1) div partSize"

definition part_length :: "int \<Rightarrow> int \<Rightarrow> int \<Rightarrow> int" where
  "part_length sz partSize n = min partSize (sz - (n - 1) * partSize)"

record multipart_init = mi_key :: string mi_upload :: string mi_part_size :: int mi_parts :: int mi_complete :: bool

text \<open>The transaction of \<^verbatim>\<open>handleCaptureMultipartInit\<close>.\<close>

definition multipart_register :: "database \<Rightarrow> nat \<Rightarrow> identity \<Rightarrow> string \<Rightarrow> string \<Rightarrow> int \<Rightarrow> (multipart_row \<times> bool \<times> database) option" where
  "multipart_register db now idn rootID key sz =
    (if \<not> live_root db (id_org idn) rootID then None
     else let db1 = (if list_ex (\<lambda>x. so_key x = key) (source_objects db) then db
            else db\<lparr>source_objects := source_objects db @ [object_row key (id_org idn) rootID sz (id_user idn) now]\<rparr>) in
      (case update_objects (\<lambda>x. so_key x = key \<and> so_size x = sz \<and> so_uploader x = id_user idn \<and> \<not> so_retired x) (authorize_until now) db1 of
         None \<Rightarrow> None
       | Some (x, db2) \<Rightarrow>
          (let db3 = (if multipart_of db2 key \<noteq> None then db2
               else db2\<lparr>source_multipart_uploads := source_multipart_uploads db2 @
                      [\<lparr>mu_key = key, mu_upload = [], mu_part_size = capturePartSize, mu_parts = None\<rparr>]\<rparr>)
           in map_option (\<lambda>m. (m, so_completed x, db3)) (multipart_of db3 key))))"

text \<open>The first initializer to persist a session wins.\<close>

definition claim_session :: "database \<Rightarrow> string \<Rightarrow> string \<Rightarrow> (string \<times> database) option" where
  "claim_session db key created =
    (if \<not> list_ex (\<lambda>x. so_key x = key \<and> \<not> so_retired x) (source_objects db) then None
     else (case multipart_of db key of
         None \<Rightarrow> None
       | Some m \<Rightarrow> let winner = (if mu_upload m = [] then created else mu_upload m) in
           Some (winner, db\<lparr>source_multipart_uploads := map (\<lambda>m. if mu_key m = key \<and> mu_upload m = [] then m\<lparr>mu_upload := created\<rparr> else m)
             (source_multipart_uploads db)\<rparr>)))"

definition accept_completed :: "database \<Rightarrow> identity \<Rightarrow> string \<Rightarrow> string \<Rightarrow> string \<Rightarrow> database option" where
  "accept_completed db idn rootID key uploadID =
    map_option snd (update_objects (\<lambda>x. so_key x = key \<and> so_org x = id_org idn \<and> so_root x = rootID \<and> root_live db (so_root x) \<and> \<not> so_retired x
      \<and> list_ex (\<lambda>m. mu_key m = key \<and> mu_upload m = uploadID \<and> mu_parts m \<noteq> None) (source_multipart_uploads db))
      (\<lambda>x. x\<lparr>so_completed := True\<rparr>) db)"

definition handleCaptureMultipartInit ::
  "(string \<Rightarrow> string option) \<Rightarrow> (string \<Rightarrow> string \<Rightarrow> s3_error + string) \<Rightarrow> (string \<Rightarrow> string \<Rightarrow> s3_error option) \<Rightarrow> (string \<Rightarrow> head_answer)
    \<Rightarrow> database \<Rightarrow> nat \<Rightarrow> identity option \<Rightarrow> string \<Rightarrow> (string \<times> int) option \<Rightarrow> multipart_init upload_response \<times> database" where
  "handleCaptureMultipartInit parse_uuid create list_parts head db now who rootID input =
    (case captureIdentity db who rootID of
       Inl (status, _) \<Rightarrow> (UploadFail status [] [], db)
     | Inr idn \<Rightarrow>
        (case input of
           None \<Rightarrow> (UploadFail 400 [] [], db)
         | Some (requestID, sz) \<Rightarrow>
           (case parse_uuid requestID of
              None \<Rightarrow> (UploadFail 400 [] [], db)
            | Some uuid \<Rightarrow>
               if sz < 1 \<or> sz > 134217728 then (UploadFail 400 [] [], db)
               else let key = ''sources/'' @ id_org idn @ ''/'' @ rootID @ ''/multipart/'' @ uuid in
                (case multipart_register db now idn rootID key sz of
                   None \<Rightarrow> (upload_conflict db rootID key (id_user idn) 409, db)
                 | Some (m, done, db1) \<Rightarrow>
                    (let result = (\<lambda>uploadID complete. \<lparr>mi_key = key, mi_upload = uploadID, mi_part_size = mu_part_size m,
                            mi_parts = part_count sz (mu_part_size m), mi_complete = complete\<rparr>) in
                     if mu_upload m = [] then
                       (case CreateImmutableMultipartUpload create key key of
                          None \<Rightarrow> (UploadFail 503 [] [], db1)
                        | Some created \<Rightarrow>
                           (case claim_session db1 key created of
                              None \<Rightarrow> (UploadFail 503 [] [], db1)
                            | Some (winner, db2) \<Rightarrow> (UploadOk (result winner done), db2)))
                     else if done then (UploadOk (result (mu_upload m) True), db1)
                     else (case CheckImmutableMultipartUpload list_parts head key (mu_upload m) key sz of
                         SessionExpired \<Rightarrow> (UploadFail 409 ''source_multipart_expired'' [], db1)
                       | SessionUnknown \<Rightarrow> (UploadFail 503 [] [], db1)
                       | SessionActive \<Rightarrow> (UploadOk (result (mu_upload m) False), db1)
                       | SessionCompleted \<Rightarrow>
                           (case accept_completed db1 idn rootID key (mu_upload m) of
                              None \<Rightarrow> (UploadFail 503 [] [], db1)
                            | Some db2 \<Rightarrow> (UploadOk (result (mu_upload m) True), db2))))))))"

definition handleCaptureMultipartPart ::
  "(string \<Rightarrow> string \<Rightarrow> int \<Rightarrow> int \<Rightarrow> signed_url option) \<Rightarrow> database \<Rightarrow> nat \<Rightarrow> identity option \<Rightarrow> string \<Rightarrow> (string \<times> int) option
    \<Rightarrow> (string \<times> int) upload_response \<times> database" where
  "handleCaptureMultipartPart presign db now who rootID input =
    (case captureIdentity db who rootID of
       Inl (status, _) \<Rightarrow> (UploadFail status [] [], db)
     | Inr idn \<Rightarrow>
        (case input of
           None \<Rightarrow> (UploadFail 400 [] [], db)
         | Some (key, partNumber) \<Rightarrow>
            (case multipart_of db key of
               None \<Rightarrow> (upload_conflict db rootID key (id_user idn) 409, db)
             | Some m \<Rightarrow>
                (case update_objects (\<lambda>x. so_key x = key \<and> so_org x = id_org idn \<and> so_root x = rootID \<and> so_uploader x = id_user idn
                        \<and> \<not> so_retired x \<and> \<not> so_completed x \<and> mu_parts m = None \<and> mu_upload m \<noteq> []) (authorize_until now) db of
                   None \<Rightarrow> (upload_conflict db rootID key (id_user idn) 409, db)
                 | Some (x, db1) \<Rightarrow>
                    if partNumber < 1 \<or> partNumber > part_count (so_size x) (mu_part_size m) then (UploadFail 400 [] [], db1)
                    else let len = part_length (so_size x) (mu_part_size m) partNumber in
                     (case presign key (mu_upload m) partNumber len of
                        None \<Rightarrow> (UploadFail 503 [] [], db1)
                      | Some signed \<Rightarrow>
                         (case pinSignedSourceUpload db1 key (id_user idn) signed of
                            None \<Rightarrow> (UploadFail 503 [] [], db1)
                          | Some db2 \<Rightarrow> (UploadOk (su_url signed, len), db2)))))))"

text \<open>The statement that freezes the list of completed parts.\<close>

definition freeze_parts :: "database \<Rightarrow> nat \<Rightarrow> identity \<Rightarrow> string \<Rightarrow> string \<Rightarrow> completed_part list \<Rightarrow> (source_object_row \<times> string \<times> database) option" where
  "freeze_parts db now idn rootID key parts =
    (case update_objects (\<lambda>x. so_key x = key \<and> so_org x = id_org idn \<and> so_root x = rootID \<and> so_uploader x = id_user idn \<and> \<not> so_retired x)
            (authorize_until now) db of
       None \<Rightarrow> None
     | Some (x, db1) \<Rightarrow>
        (case multipart_of db1 key of
           None \<Rightarrow> None
         | Some m \<Rightarrow>
            if mu_upload m = [] \<or> \<not> (mu_parts m = None \<or> mu_parts m = Some parts) \<or> part_count (so_size x) (mu_part_size m) \<noteq> int (length parts)
            then None
            else Some (x, mu_upload m, db1\<lparr>source_multipart_uploads :=
                   map (\<lambda>u. if mu_key u = key then u\<lparr>mu_parts := Some parts\<rparr> else u) (source_multipart_uploads db1)\<rparr>)))"

definition handleCaptureMultipartComplete ::
  "(string \<Rightarrow> head_answer) \<Rightarrow> database \<Rightarrow> nat \<Rightarrow> identity option \<Rightarrow> string \<Rightarrow> (string \<times> completed_part list) option
    \<Rightarrow> string upload_response \<times> database" where
  "handleCaptureMultipartComplete head db now who rootID input =
    (case captureIdentity db who rootID of
       Inl (status, _) \<Rightarrow> (UploadFail status [] [], db)
     | Inr idn \<Rightarrow>
        (case input of
           None \<Rightarrow> (UploadFail 400 [] [], db)
         | Some (key, parts) \<Rightarrow>
            if length parts < 1 \<or> length parts > 8 then (UploadFail 400 [] [], db)
            else if \<not> contiguous_parts parts \<or> list_ex (\<lambda>(n, etag). length etag > 1024) parts then (UploadFail 400 [] [], db)
            else (case freeze_parts db now idn rootID key parts of
                None \<Rightarrow> (upload_conflict db rootID key (id_user idn) 409, db)
              | Some (x, uploadID, db1) \<Rightarrow>
                 if so_completed x then (UploadOk key, db1)
                 else if \<not> CompleteImmutableMultipartUpload head key uploadID key (so_size x) parts then (UploadFail 503 [] [], db1)
                 else (case update_objects (\<lambda>x. so_key x = key \<and> so_org x = id_org idn \<and> so_root x = rootID \<and> \<not> so_retired x
                             \<and> root_live db1 (so_root x)) (\<lambda>x. x\<lparr>so_completed := True\<rparr>) db1 of
                     None \<Rightarrow> (UploadFail 503 [] [], db1)
                   | Some (_, db2) \<Rightarrow> (UploadOk key, db2)))))"

section \<open>What uploads keep\<close>

type_synonym object_store = "string \<Rightarrow> (int \<times> string) option"

text \<open>HEAD may fail, but what it reports is what the store holds.\<close>

definition honest :: "(string \<Rightarrow> head_answer) \<Rightarrow> object_store \<Rightarrow> bool" where
  "honest head st \<longleftrightarrow> (\<forall>k x. head k = Inr x \<longrightarrow> st k = Some x)"

definition upload_keys :: "database \<Rightarrow> bool" where
  "upload_keys db \<longleftrightarrow> distinct (map so_key (source_objects db)) \<and> distinct (map mu_key (source_multipart_uploads db))"

text \<open>Every completed pack that is not retired is in the store with its declared size.\<close>

definition packs_stored :: "database \<Rightarrow> object_store \<Rightarrow> bool" where
  "packs_stored db st \<longleftrightarrow> (\<forall>x\<in>set (source_objects db). so_completed x \<and> \<not> so_retired x \<longrightarrow> (\<exists>i. st (so_key x) = Some (so_size x, i)))"

text \<open>Upload rows keep their identity; a session identifier and a frozen list of parts never change.\<close>

definition same_object :: "source_object_row \<Rightarrow> source_object_row \<Rightarrow> bool" where
  "same_object x y \<longleftrightarrow> so_key y = so_key x \<and> so_org y = so_org x \<and> so_root y = so_root x \<and> so_size y = so_size x \<and> so_uploader y = so_uploader x
     \<and> (so_completed x \<longrightarrow> so_completed y) \<and> (so_retired x \<longrightarrow> so_retired y)"

definition same_session :: "multipart_row \<Rightarrow> multipart_row \<Rightarrow> bool" where
  "same_session m n \<longleftrightarrow> mu_key n = mu_key m \<and> mu_part_size n = mu_part_size m \<and> (mu_upload m \<noteq> [] \<longrightarrow> mu_upload n = mu_upload m)
     \<and> (mu_parts m \<noteq> None \<longrightarrow> mu_parts n = mu_parts m)"

definition progress :: "database \<Rightarrow> database \<Rightarrow> bool" where
  "progress db db' \<longleftrightarrow> (\<forall>x\<in>set (source_objects db). \<exists>y\<in>set (source_objects db'). same_object x y)
     \<and> (\<forall>m\<in>set (source_multipart_uploads db). \<exists>n\<in>set (source_multipart_uploads db'). same_session m n)"

definition confirmed :: "object_store \<Rightarrow> database \<Rightarrow> database \<Rightarrow> bool" where
  "confirmed st db db' \<longleftrightarrow> (\<forall>y\<in>set (source_objects db'). so_completed y \<and> \<not> so_retired y \<longrightarrow>
     (\<exists>x\<in>set (source_objects db). so_key x = so_key y \<and> so_size x = so_size y \<and> so_completed x \<and> \<not> so_retired x)
     \<or> (\<exists>i. st (so_key y) = Some (so_size y, i)))"

definition upload_change :: "object_store \<Rightarrow> database \<Rightarrow> database \<Rightarrow> bool" where
  "upload_change st db db' \<longleftrightarrow> upload_keys db' \<and> progress db db' \<and> confirmed st db db'"

lemma same_object_refl [simp]: "same_object x x" and same_session_refl [simp]: "same_session m m"
  by (simp_all add: same_object_def same_session_def)

lemma progress_refl [simp]: "progress db db"
  unfolding progress_def by (meson same_object_refl same_session_refl)

lemma progress_trans:
  assumes "progress a b" "progress b c"
  shows "progress a c"
proof -
  have o: "same_object x y \<Longrightarrow> same_object y z \<Longrightarrow> same_object x z" for x y z by (auto simp: same_object_def)
  have s: "same_session l m \<Longrightarrow> same_session m n \<Longrightarrow> same_session l n" for l m n by (auto simp: same_session_def)
  show ?thesis using assms unfolding progress_def by (meson o s)
qed

lemma upload_change_refl: "upload_keys db \<Longrightarrow> upload_change st db db"
  by (auto simp: upload_change_def confirmed_def)

lemma upload_change_trans:
  assumes "upload_change st a b" "upload_change st b c"
  shows "upload_change st a c"
proof -
  have "confirmed st a c"
    unfolding confirmed_def
  proof (intro ballI impI)
    fix z assume z: "z \<in> set (source_objects c)" "so_completed z \<and> \<not> so_retired z"
    from assms(2) z consider y where "y \<in> set (source_objects b)" "so_key y = so_key z" "so_size y = so_size z" "so_completed y" "\<not> so_retired y"
      | i where "st (so_key z) = Some (so_size z, i)"
      unfolding upload_change_def confirmed_def by blast
    then show "(\<exists>x\<in>set (source_objects a). so_key x = so_key z \<and> so_size x = so_size z \<and> so_completed x \<and> \<not> so_retired x)
        \<or> (\<exists>i. st (so_key z) = Some (so_size z, i))"
    proof cases
      case 1
      then show ?thesis using assms(1) unfolding upload_change_def confirmed_def by metis
    qed blast
  qed
  with assms progress_trans show ?thesis unfolding upload_change_def by blast
qed

lemma update_objects_Some:
  assumes "update_objects P f db = Some (x', db')"
  obtains x where "x \<in> set (source_objects db)" "P x" "x' = f x"
    "db' = db\<lparr>source_objects := map (\<lambda>y. if P y then f y else y) (source_objects db)\<rparr>"
  using assms unfolding update_objects_def by (auto split: option.splits dest: find_member_mem)

lemma update_objects_member:
  assumes "update_objects P f db = Some (x', db')"
  shows "x' \<in> set (source_objects db') \<and> (\<exists>x\<in>set (source_objects db). P x \<and> x' = f x)"
  using assms by (rule update_objects_Some) auto

lemma progress_map:
  assumes "\<And>x. same_object x (f x)" "source_objects db' = map f (source_objects db)" "source_multipart_uploads db' = source_multipart_uploads db"
  shows "progress db db'"
  unfolding progress_def assms(2,3) set_map using assms(1) by (meson imageI same_session_refl)

lemma update_objects_change:
  assumes "update_objects P f db = Some (x', db')" "upload_keys db"
    and "\<And>x. same_object x (f x) \<and> so_retired (f x) = so_retired x"
    and "\<And>x. P x \<Longrightarrow> x \<in> set (source_objects db) \<Longrightarrow> so_completed (f x) \<Longrightarrow> so_completed x \<or> (\<exists>i. st (so_key x) = Some (so_size x, i))"
  shows "upload_change st db db'"
proof -
  from assms(1) have db': "db' = db\<lparr>source_objects := map (\<lambda>y. if P y then f y else y) (source_objects db)\<rparr>"
    by (rule update_objects_Some)
  have keys: "map so_key (map (\<lambda>y. if P y then f y else y) xs) = map so_key xs" for xs
    using assms(3) by (simp add: same_object_def)
  have rows: "source_objects db' = map (\<lambda>y. if P y then f y else y) (source_objects db)" by (simp add: db')
  have "map so_key (source_objects db') = map so_key (source_objects db)" unfolding rows by (rule keys)
  moreover have "source_multipart_uploads db' = source_multipart_uploads db" by (simp add: db')
  ultimately have "upload_keys db'" using assms(2) unfolding upload_keys_def by metis
  moreover have "progress db db'" by (rule progress_map[OF _ rows]) (use assms(3) in \<open>simp_all add: db'\<close>)
  moreover have "confirmed st db db'"
    unfolding confirmed_def
  proof (intro ballI impI)
    fix y assume "y \<in> set (source_objects db')" and y: "so_completed y \<and> \<not> so_retired y"
    then obtain x where x: "x \<in> set (source_objects db)" "y = (if P x then f x else x)" unfolding rows by auto
    have same: "so_key y = so_key x" "so_size y = so_size x" "so_retired y = so_retired x"
      using x(2) assms(3)[of x] by (auto simp: same_object_def)
    have "so_completed x \<or> (\<exists>i. st (so_key x) = Some (so_size x, i))" using assms(4)[of x] x y by (auto split: if_splits)
    then show "(\<exists>x\<in>set (source_objects db). so_key x = so_key y \<and> so_size x = so_size y \<and> so_completed x \<and> \<not> so_retired x)
        \<or> (\<exists>i. st (so_key y) = Some (so_size y, i))"
      using same x(1) y by metis
  qed
  ultimately show ?thesis by (simp add: upload_change_def)
qed

lemma authorize_until_same: "same_object x (authorize_until now x) \<and> so_retired (authorize_until now x) = so_retired x"
  "so_completed (authorize_until now x) = so_completed x" "so_key (authorize_until now x) = so_key x" "so_size (authorize_until now x) = so_size x"
  by (simp_all add: same_object_def authorize_until_def)

lemma renew_change: "update_objects P (authorize_until now) db = Some (x', db') \<Longrightarrow> upload_keys db \<Longrightarrow> upload_change st db db'"
  using update_objects_change[of P "authorize_until now" db x' db' st] by (simp add: authorize_until_same)

lemma append_object_change:
  assumes "upload_keys db" "\<not> list_ex (\<lambda>x. so_key x = key) (source_objects db)"
  shows "upload_change st db (db\<lparr>source_objects := source_objects db @ [object_row key org root sz user now]\<rparr>)"
  using assms unfolding upload_change_def upload_keys_def progress_def confirmed_def
  by (auto simp: object_row_def list_ex_iff intro: same_object_refl same_session_refl)

lemma pin_change:
  assumes "pinSignedSourceUpload db key user signed = Some db'" "upload_keys db"
  shows "upload_change st db db'"
proof -
  obtain issued seconds x' where "update_objects
          (\<lambda>x. so_key x = key \<and> so_uploader x = user \<and> \<not> so_retired x \<and> root_live db (so_root x))
          (\<lambda>x. x\<lparr>so_authorized_until := max (so_authorized_until x) (issued + nat seconds)\<rparr>) db = Some (x', db')"
    using assms(1) unfolding pinSignedSourceUpload_def
    by (cases "su_issued signed"; cases "su_expires signed") (auto split: if_splits)
  from update_objects_change[OF this assms(2)] show ?thesis by (simp add: same_object_def)
qed

text \<open>Rows with the same key are the same row.\<close>

lemma object_unique: "upload_keys db \<Longrightarrow> x \<in> set (source_objects db) \<Longrightarrow> y \<in> set (source_objects db) \<Longrightarrow> so_key x = so_key y \<Longrightarrow> x = y"
  by (auto simp: upload_keys_def distinct_map inj_on_def)

lemma session_unique: "upload_keys db \<Longrightarrow> m \<in> set (source_multipart_uploads db) \<Longrightarrow> n \<in> set (source_multipart_uploads db) \<Longrightarrow> mu_key m = mu_key n \<Longrightarrow> m = n"
  by (auto simp: upload_keys_def distinct_map inj_on_def)

text \<open>Marking a pack complete whose size HEAD has confirmed.\<close>

lemma complete_change:
  assumes "update_objects P (\<lambda>x. x\<lparr>so_completed := True\<rparr>) db = Some (x', db')" "upload_keys db"
    and "\<And>y. P y \<Longrightarrow> so_key y = key" "x \<in> set (source_objects db)" "so_key x = key" "st key = Some (so_size x, i)"
  shows "upload_change st db db'"
proof (rule update_objects_change[OF assms(1,2)])
  fix y assume "P y" "y \<in> set (source_objects db)"
  then have "y = x" using object_unique[OF assms(2), of y x] assms(3-5) by simp
  then show "so_completed y \<or> (\<exists>i. st (so_key y) = Some (so_size y, i))" using assms(5,6) by blast
qed (simp add: same_object_def)

section \<open>The handlers\<close>

lemma pack_register_change:
  assumes "pack_register db now newKey idn rootID sz objectKey = Some (key, db')" "upload_keys db"
  shows "upload_change st db db'"
proof (cases "objectKey = []")
  case True
  then show ?thesis using assms append_object_change[OF assms(2)] by (auto simp: pack_register_def split: if_splits)
next
  case False
  then obtain x where "update_objects
       (\<lambda>x. so_key x = objectKey \<and> so_org x = id_org idn \<and> so_root x = rootID \<and> so_size x = sz \<and> so_uploader x = id_user idn
          \<and> \<not> so_retired x \<and> multipart_of db objectKey = None) (authorize_until now) db = Some (x, db')"
    using assms(1) by (auto simp: pack_register_def split: if_splits)
  from renew_change[OF this assms(2)] show ?thesis .
qed

lemma upload_change_keys: "upload_change st db db' \<Longrightarrow> upload_keys db'"
  by (simp add: upload_change_def)

lemma handleSourcePackInit_change:
  assumes "handleSourcePackInit presign db now uuid who rootID input = (r, db')" "upload_keys db"
  shows "upload_change st db db'"
proof (cases "captureIdentity db who rootID")
  case (Inl e)
  then show ?thesis using assms upload_change_refl by (cases e) (auto simp: handleSourcePackInit_def)
next
  case (Inr idn)
  then have "db' = db \<or> (\<exists>nk sz ok key db1. pack_register db now nk idn rootID sz ok = Some (key, db1)
      \<and> (db' = db1 \<or> (\<exists>signed. pinSignedSourceUpload db1 key (id_user idn) signed = Some db')))"
    using assms(1) unfolding handleSourcePackInit_def Let_def
    by (simp split: option.splits if_splits prod.splits) blast+
  then show ?thesis
  proof
    assume "\<exists>nk sz ok key db1. pack_register db now nk idn rootID sz ok = Some (key, db1)
      \<and> (db' = db1 \<or> (\<exists>signed. pinSignedSourceUpload db1 key (id_user idn) signed = Some db'))"
    then obtain nk sz ok key db1 where reg: "pack_register db now nk idn rootID sz ok = Some (key, db1)"
      and rest: "db' = db1 \<or> (\<exists>signed. pinSignedSourceUpload db1 key (id_user idn) signed = Some db')" by blast
    note one = pack_register_change[OF reg assms(2), of st]
    show ?thesis using rest one pin_change[OF _ upload_change_keys[OF one]] upload_change_trans[OF one] by blast
  qed (use upload_change_refl[OF assms(2)] in simp)
qed

lemma head_confirms: "honest head st \<Longrightarrow> head key = Inr (n, i) \<Longrightarrow> st key = Some (n, i)"
  by (simp add: honest_def)

lemma handleSourcePackComplete_change:
  assumes run: "handleSourcePackComplete head db now who rootID input = (r, db')" and keys: "upload_keys db" and st: "honest head st"
  shows "upload_change st db db'"
proof (cases "captureIdentity db who rootID")
  case (Inl e)
  then show ?thesis using run upload_change_refl[OF keys] by (cases e) (auto simp: handleSourcePackComplete_def)
next
  case (Inr idn)
  show ?thesis
  proof (cases input)
    case None
    then show ?thesis using run Inr upload_change_refl[OF keys] by (auto simp: handleSourcePackComplete_def)
  next
    case (Some key)
    let ?first = "update_objects (\<lambda>x. so_key x = key \<and> so_org x = id_org idn \<and> so_root x = rootID \<and> so_uploader x = id_user idn
                    \<and> \<not> so_retired x \<and> multipart_of db key = None) (authorize_until now) db"
    show ?thesis
    proof (cases ?first)
      case None
      then show ?thesis using run Inr Some upload_change_refl[OF keys] by (simp add: handleSourcePackComplete_def)
    next
      case (Some p)
      obtain x1 db1 where p: "p = (x1, db1)" by (cases p)
      note first = Some[unfolded p]
      note one = renew_change[OF first keys, of st]
      obtain x where x: "x \<in> set (source_objects db)" "so_key x = key" "x1 = authorize_until now x" "x1 \<in> set (source_objects db1)"
        using first by (elim update_objects_Some) auto
      let ?P = "\<lambda>x. so_key x = key \<and> so_org x = id_org idn \<and> so_root x = rootID \<and> so_uploader x = id_user idn
                                \<and> \<not> so_retired x \<and> root_live db1 (so_root x)"
      have "db' = db1 \<or> (\<exists>y i. head key = Inr (so_size x1, i) \<and> update_objects ?P (\<lambda>x. x\<lparr>so_completed := True\<rparr>) db1 = Some (y, db'))"
        using run Inr \<open>input = Some key\<close> first
        by (auto simp: handleSourcePackComplete_def split: option.splits sum.splits if_splits)
      then show ?thesis
      proof
        assume "\<exists>y i. head key = Inr (so_size x1, i) \<and> update_objects ?P (\<lambda>x. x\<lparr>so_completed := True\<rparr>) db1 = Some (y, db')"
        then obtain y i where h: "head key = Inr (so_size x1, i)" and u: "update_objects ?P (\<lambda>x. x\<lparr>so_completed := True\<rparr>) db1 = Some (y, db')" by blast
        have "upload_change st db1 db'"
          by (rule complete_change[where key = key and x = x1 and i = i, OF u upload_change_keys[OF one]])
             (use x head_confirms[OF st h] in \<open>auto simp: authorize_until_same\<close>)
        then show ?thesis using upload_change_trans[OF one] by blast
      qed (use one in simp)
    qed
  qed
qed

lemma multipart_of_Some: "multipart_of db key = Some m \<Longrightarrow> m \<in> set (source_multipart_uploads db) \<and> mu_key m = key"
  unfolding multipart_of_def by (auto dest: find_member_mem)

lemma multipart_of_None: "multipart_of db key = None \<longleftrightarrow> (\<forall>m\<in>set (source_multipart_uploads db). mu_key m \<noteq> key)"
  unfolding multipart_of_def by (simp add: find_cong_filter)

text \<open>A change of the session rows alone.\<close>

lemma session_change:
  assumes "upload_keys db" "\<And>m. same_session m (g m)"
  shows "upload_change st db (db\<lparr>source_multipart_uploads := map g (source_multipart_uploads db)\<rparr>)"
proof -
  let ?db = "db\<lparr>source_multipart_uploads := map g (source_multipart_uploads db)\<rparr>"
  have "map mu_key (map g ms) = map mu_key ms" for ms using assms(2) by (simp add: same_session_def)
  then have "upload_keys ?db" using assms(1) by (simp add: upload_keys_def del: map_map)
  moreover have "progress db ?db" using assms(2) by (auto simp: progress_def intro: same_object_refl)
  moreover have "confirmed st db ?db" by (auto simp: confirmed_def)
  ultimately show ?thesis by (simp add: upload_change_def)
qed

lemma session_change_on:
  assumes "upload_keys db" "\<And>m. m \<in> set (source_multipart_uploads db) \<Longrightarrow> same_session m (g m)"
  shows "upload_change st db (db\<lparr>source_multipart_uploads := map g (source_multipart_uploads db)\<rparr>)"
proof -
  let ?g = "\<lambda>m. if m \<in> set (source_multipart_uploads db) then g m else m"
  have "map g (source_multipart_uploads db) = map ?g (source_multipart_uploads db)" by simp
  moreover have "same_session m (?g m)" for m using assms(2) by simp
  ultimately show ?thesis using session_change[OF assms(1), of ?g st] by metis
qed

lemma append_session_change:
  assumes "upload_keys db" "multipart_of db key = None"
  shows "upload_change st db (db\<lparr>source_multipart_uploads := source_multipart_uploads db @ [\<lparr>mu_key = key, mu_upload = u, mu_part_size = ps, mu_parts = None\<rparr>]\<rparr>)"
  using assms unfolding upload_change_def upload_keys_def progress_def confirmed_def multipart_of_None
  by (auto intro: same_object_refl same_session_refl)

lemma claim_session_change:
  assumes "claim_session db key created = Some (winner, db')" "upload_keys db"
  shows "upload_change st db db'"
proof -
  have "db' = db\<lparr>source_multipart_uploads := map (\<lambda>m. if mu_key m = key \<and> mu_upload m = [] then m\<lparr>mu_upload := created\<rparr> else m) (source_multipart_uploads db)\<rparr>"
    using assms(1) by (auto simp: claim_session_def Let_def split: if_splits option.splits)
  then show ?thesis using session_change[OF assms(2)] by (simp add: same_session_def)
qed

lemma accept_completed_change:
  assumes "accept_completed db idn rootID key uploadID = Some db'" "upload_keys db"
    and "x \<in> set (source_objects db)" "so_key x = key" "st key = Some (so_size x, i)"
  shows "upload_change st db db'"
proof -
  let ?P = "\<lambda>x. so_key x = key \<and> so_org x = id_org idn \<and> so_root x = rootID \<and> root_live db (so_root x) \<and> \<not> so_retired x
      \<and> list_ex (\<lambda>m. mu_key m = key \<and> mu_upload m = uploadID \<and> mu_parts m \<noteq> None) (source_multipart_uploads db)"
  obtain y where "update_objects ?P (\<lambda>x. x\<lparr>so_completed := True\<rparr>) db = Some (y, db')"
    using assms(1) by (auto simp: accept_completed_def)
  from complete_change[where key = key and x = x and i = i, OF this assms(2)] assms(3-5) show ?thesis by simp
qed

lemma multipart_register_change:
  assumes reg: "multipart_register db now idn rootID key sz = Some (m, completed, db')" and keys: "upload_keys db"
  shows "upload_change st db db'" "\<exists>x\<in>set (source_objects db'). so_key x = key \<and> so_size x = sz"
proof -
  let ?row = "object_row key (id_org idn) rootID sz (id_user idn) now"
  define db1 where "db1 = (if list_ex (\<lambda>x. so_key x = key) (source_objects db) then db else db\<lparr>source_objects := source_objects db @ [?row]\<rparr>)"
  obtain x db2 where up: "update_objects (\<lambda>x. so_key x = key \<and> so_size x = sz \<and> so_uploader x = id_user idn \<and> \<not> so_retired x) (authorize_until now) db1 = Some (x, db2)"
    and db': "db' = (if multipart_of db2 key \<noteq> None then db2
               else db2\<lparr>source_multipart_uploads := source_multipart_uploads db2 @
                      [\<lparr>mu_key = key, mu_upload = [], mu_part_size = capturePartSize, mu_parts = None\<rparr>]\<rparr>)"
    using reg unfolding multipart_register_def Let_def db1_def[symmetric] by (auto simp del: not_None_eq split: if_splits option.splits)
  have c1: "upload_change st db db1" unfolding db1_def using upload_change_refl[OF keys] append_object_change[OF keys] by simp
  note c2 = renew_change[OF up upload_change_keys[OF c1], of st]
  have c3: "upload_change st db2 db'"
    unfolding db' using upload_change_refl[OF upload_change_keys[OF c2]] append_session_change[OF upload_change_keys[OF c2]] by (simp del: not_None_eq)
  show "upload_change st db db'" using upload_change_trans[OF upload_change_trans[OF c1 c2] c3] .
  have "\<exists>x\<in>set (source_objects db2). so_key x = key \<and> so_size x = sz"
    using update_objects_member[OF up] by (auto simp: authorize_until_same intro!: bexI[of _ x])
  then show "\<exists>x\<in>set (source_objects db'). so_key x = key \<and> so_size x = sz" unfolding db' by simp
qed

lemma check_completed:
  assumes "CheckImmutableMultipartUpload list_parts head key u idt sz = SessionCompleted" "honest head st"
  shows "st key = Some (sz, idt)"
  using assms unfolding CheckImmutableMultipartUpload_def verifyImmutableMultipartObject_def honest_def
  by (auto split: option.splits sum.splits if_splits)

lemma handleCaptureMultipartInit_change:
  assumes run: "handleCaptureMultipartInit parse_uuid create list_parts head db now who rootID input = (r, db')"
    and keys: "upload_keys db" and st: "honest head st"
  shows "upload_change st db db'"
proof (cases "captureIdentity db who rootID")
  case (Inl e)
  then show ?thesis using run upload_change_refl[OF keys] by (cases e) (auto simp: handleCaptureMultipartInit_def)
next
  case (Inr idn)
  then have "db' = db \<or> (\<exists>key sz m completed db1. multipart_register db now idn rootID key sz = Some (m, completed, db1)
      \<and> (db' = db1 \<or> (\<exists>c w. claim_session db1 key c = Some (w, db'))
         \<or> (CheckImmutableMultipartUpload list_parts head key (mu_upload m) key sz = SessionCompleted
            \<and> accept_completed db1 idn rootID key (mu_upload m) = Some db')))"
    using run unfolding handleCaptureMultipartInit_def Let_def
    by (simp split: option.splits if_splits prod.splits multipart_status.splits) blast+
  then show ?thesis
  proof (elim disjE exE conjE)
    fix key sz m completed db1 assume reg: "multipart_register db now idn rootID key sz = Some (m, completed, db1)"
    note one = multipart_register_change(1)[OF reg keys, of st]
    note k1 = upload_change_keys[OF one]
    { assume "db' = db1"
      with one show ?thesis by simp }
    { fix c w assume "claim_session db1 key c = Some (w, db')"
      from claim_session_change[OF this k1] show ?thesis using upload_change_trans[OF one] by blast }
    { assume chk: "CheckImmutableMultipartUpload list_parts head key (mu_upload m) key sz = SessionCompleted"
        and acc: "accept_completed db1 idn rootID key (mu_upload m) = Some db'"
      obtain x where "x \<in> set (source_objects db1)" "so_key x = key" "so_size x = sz" using multipart_register_change(2)[OF reg keys] by blast
      with accept_completed_change[OF acc k1] check_completed[OF chk st] have "upload_change st db1 db'" by blast
      then show ?thesis using upload_change_trans[OF one] by blast }
  qed (use upload_change_refl[OF keys] in simp)
qed

lemma handleCaptureMultipartPart_change:
  assumes run: "handleCaptureMultipartPart presign db now who rootID input = (r, db')" and keys: "upload_keys db"
  shows "upload_change st db db'"
proof (cases "captureIdentity db who rootID")
  case (Inl e)
  then show ?thesis using run upload_change_refl[OF keys] by (cases e) (auto simp: handleCaptureMultipartPart_def)
next
  case (Inr idn)
  then have "db' = db \<or> (\<exists>P x db1. update_objects P (authorize_until now) db = Some (x, db1)
      \<and> (db' = db1 \<or> (\<exists>key signed. pinSignedSourceUpload db1 key (id_user idn) signed = Some db')))"
    using run unfolding handleCaptureMultipartPart_def Let_def
    by (simp split: option.splits if_splits prod.splits) blast+
  then show ?thesis
  proof (elim disjE exE conjE)
    fix P x db1 assume up: "update_objects P (authorize_until now) db = Some (x, db1)"
    note one = renew_change[OF up keys, of st]
    { assume "db' = db1"
      with one show ?thesis by simp }
    { fix key signed assume "pinSignedSourceUpload db1 key (id_user idn) signed = Some db'"
      from pin_change[OF this upload_change_keys[OF one]] show ?thesis using upload_change_trans[OF one] by blast }
  qed (use upload_change_refl[OF keys] in simp)
qed

lemma freeze_parts_change:
  assumes fr: "freeze_parts db now idn rootID key parts = Some (x, uploadID, db')" and keys: "upload_keys db"
  shows "upload_change st db db'" "x \<in> set (source_objects db')" "so_key x = key"
proof -
  obtain db1 m where up: "update_objects (\<lambda>x. so_key x = key \<and> so_org x = id_org idn \<and> so_root x = rootID \<and> so_uploader x = id_user idn \<and> \<not> so_retired x)
            (authorize_until now) db = Some (x, db1)"
      and m: "multipart_of db1 key = Some m" "mu_parts m = None \<or> mu_parts m = Some parts"
      and db': "db' = db1\<lparr>source_multipart_uploads := map (\<lambda>u. if mu_key u = key then u\<lparr>mu_parts := Some parts\<rparr> else u) (source_multipart_uploads db1)\<rparr>"
    using fr by (auto simp: freeze_parts_def split: option.splits if_splits)
  note one = renew_change[OF up keys, of st]
  note k1 = upload_change_keys[OF one]
  have "same_session u (if mu_key u = key then u\<lparr>mu_parts := Some parts\<rparr> else u)" if "u \<in> set (source_multipart_uploads db1)" for u
    using session_unique[OF k1 that, of m] multipart_of_Some[OF m(1)] m(2) by (auto simp: same_session_def)
  from session_change_on[OF k1 this] upload_change_trans[OF one] show "upload_change st db db'" unfolding db' by blast
  show "x \<in> set (source_objects db')" "so_key x = key"
    using up unfolding db' by (elim update_objects_Some, force simp: authorize_until_same)+
qed

lemma handleCaptureMultipartComplete_change:
  assumes run: "handleCaptureMultipartComplete head db now who rootID input = (r, db')" and keys: "upload_keys db" and st: "honest head st"
  shows "upload_change st db db'"
proof (cases "captureIdentity db who rootID")
  case (Inl e)
  then show ?thesis using run upload_change_refl[OF keys] by (cases e) (auto simp: handleCaptureMultipartComplete_def)
next
  case (Inr idn)
  then have "db' = db \<or> (\<exists>key parts x u db1. freeze_parts db now idn rootID key parts = Some (x, u, db1)
      \<and> (db' = db1 \<or> (CompleteImmutableMultipartUpload head key u key (so_size x) parts
         \<and> (\<exists>y. update_objects (\<lambda>x. so_key x = key \<and> so_org x = id_org idn \<and> so_root x = rootID \<and> \<not> so_retired x
                             \<and> root_live db1 (so_root x)) (\<lambda>x. x\<lparr>so_completed := True\<rparr>) db1 = Some (y, db')))))"
    using run unfolding handleCaptureMultipartComplete_def Let_def
    by (simp split: option.splits if_splits prod.splits) blast+
  then show ?thesis
  proof (elim disjE exE conjE)
    fix key parts x u db1 assume fr: "freeze_parts db now idn rootID key parts = Some (x, u, db1)"
    note F = freeze_parts_change[OF fr keys]
    { assume "db' = db1"
      with F(1) show ?thesis by simp }
    { fix y assume c: "CompleteImmutableMultipartUpload head key u key (so_size x) parts"
        and up: "update_objects (\<lambda>x. so_key x = key \<and> so_org x = id_org idn \<and> so_root x = rootID \<and> \<not> so_retired x
                             \<and> root_live db1 (so_root x)) (\<lambda>x. x\<lparr>so_completed := True\<rparr>) db1 = Some (y, db')"
      have "st key = Some (so_size x, key)"
        using c st by (auto simp: CompleteImmutableMultipartUpload_def verifyImmutableMultipartObject_def honest_def split: if_splits sum.splits)
      then have "upload_change st db1 db'"
        using complete_change[where key = key and x = x and i = key, OF up upload_change_keys[OF F(1)]] F(2,3) by simp
      then show ?thesis using upload_change_trans[OF F(1)] by blast }
  qed (use upload_change_refl[OF keys] in simp)
qed

section \<open>The life of packs\<close>

lemma insert_catalog_objects:
  "insert_catalog n r ps db = Inr db' \<Longrightarrow> source_objects db' = source_objects db \<and> source_multipart_uploads db' = source_multipart_uploads db"
  by (induction n r ps db arbitrary: db' rule: insert_catalog.induct) (auto split: if_splits)

lemma writeCapturedVersions_objects:
  "writeCapturedVersions c ws r db = Inr (r', db') \<Longrightarrow> source_objects db' = source_objects db \<and> source_multipart_uploads db' = source_multipart_uploads db"
proof (induction c ws r db arbitrary: r' db' rule: writeCapturedVersions.induct)
  case (2 captureID w ws result db)
  then obtain db1 where w: "write_version captureID w db = Inr db1" by (auto split: sum.splits)
  have one: "source_objects db1 = source_objects db \<and> source_multipart_uploads db1 = source_multipart_uploads db"
    using w by (auto simp: write_version_def head_changed_def Let_def split: if_splits option.splits)
  have "writeCapturedVersions captureID ws (result[cw_slot w := (result ! cw_slot w)\<lparr>rv_sequence := version_sequence db1\<rparr>]) db1
      = Inr (r', db')"
    using "2.prems" w by simp
  from "2.IH"[OF w this] one show ?case by simp
qed auto

lemma update_all_change:
  assumes "upload_keys db" "\<And>x. same_object x (f x) \<and> so_retired (f x) = so_retired x \<and> so_completed (f x) = so_completed x"
    and "source_objects db' = map f (source_objects db)" "source_multipart_uploads db' = source_multipart_uploads db"
  shows "upload_change st db db'"
proof -
  have "map so_key (map f xs) = map so_key xs" for xs using assms(2) by (simp add: same_object_def)
  then have "upload_keys db'" using assms(1) unfolding upload_keys_def assms(3,4) by (simp del: map_map)
  moreover have "progress db db'" using progress_map[OF _ assms(3,4)] assms(2) by blast
  moreover have "confirmed st db db'" using assms(2) unfolding confirmed_def assms(3,4) by (force simp: same_object_def)
  ultimately show ?thesis by (simp add: upload_change_def)
qed

lemma RegisterFileVersions_change:
  assumes "RegisterFileVersions uuid5 newFileID commits db now who rootID captureID revision files = (res, db')" "upload_keys db"
  shows "upload_change st db db'"
  using RegisterFileVersions_cases[OF assms(1)]
proof
  assume "\<exists>idn result. who = Some idn \<and> res = Inr result \<and> commits \<and> captureID \<noteq> [] \<and> revision \<noteq> [] \<and> files \<noteq> [] \<and> length files \<le> 128
      \<and> id_org idn \<noteq> [] \<and> id_user idn \<noteq> [] \<and> check_captured [] files = None
      \<and> register_body uuid5 newFileID db now idn rootID captureID revision files = Inr (result, db')"
  then obtain idn result where body: "register_body uuid5 newFileID db now idn rootID captureID revision files = Inr (result, db')" by blast
  obtain db1 plan db2 where
    ins: "insert_catalog newFileID rootID (map cv_path files) db = Inr db1"
    and fin: "if List.map_filter snd plan = [] then db2 = db1 \<and> result = map fst plan \<and> db' = db1
     else authorizeCaptureSources db1 idn rootID captureID (List.map_filter snd plan) = Inr db2
       \<and> writeCapturedVersions captureID (List.map_filter snd plan) (map fst plan) db2 = Inr (result, db')"
    using register_body_stages[OF body] by metis
  note I = insert_catalog_objects[OF ins]
  let ?bind = "\<lambda>P x. if P x then x\<lparr>so_capture := Some captureID\<rparr> else x"
  have "\<exists>P. source_objects db' = map (?bind P) (source_objects db) \<and> source_multipart_uploads db' = source_multipart_uploads db"
  proof (cases "List.map_filter snd plan = []")
    case True
    then show ?thesis using fin I by (intro exI[of _ "\<lambda>_. False"]) simp
  next
    case False
    then have src: "authorizeCaptureSources db1 idn rootID captureID (List.map_filter snd plan) = Inr db2"
      and wr: "writeCapturedVersions captureID (List.map_filter snd plan) (map fst plan) db2 = Inr (result, db')" using fin by auto
    have "\<exists>P. source_objects db2 = map (?bind P) (source_objects db1) \<and> source_multipart_uploads db2 = source_multipart_uploads db1"
    proof -
      let ?Q = "\<lambda>x. so_org x = id_org idn \<and> so_root x = rootID \<and> so_completed x
            \<and> so_key x \<in> set (map (object_key \<circ> snd) (requested_extents (List.map_filter snd plan))) \<and> so_capture x = None \<and> so_uploader x = id_user idn"
      have "db2 = db1 \<or> db2 = db1\<lparr>source_objects := map (?bind ?Q) (source_objects db1)\<rparr>"
        using src unfolding authorizeCaptureSources_def Let_def by (simp split: if_splits)
      then show ?thesis
      proof
        assume "db2 = db1"
        then show ?thesis by (intro exI[of _ "\<lambda>_. False"]) simp
      next
        assume "db2 = db1\<lparr>source_objects := map (?bind ?Q) (source_objects db1)\<rparr>"
        then show ?thesis by (intro exI[of _ ?Q]) simp
      qed
    qed
    with writeCapturedVersions_objects[OF wr] I show ?thesis by simp
  qed
  then obtain P where "source_objects db' = map (?bind P) (source_objects db)" "source_multipart_uploads db' = source_multipart_uploads db" by blast
  then show ?thesis by (intro update_all_change[OF assms(2), of "?bind P"]) (auto simp: same_object_def)
qed (use upload_change_refl[OF assms(2)] in auto)

text \<open>
  The steps that touch packs: the five upload endpoints and registrations, in any order and by
  anybody, the store gaining objects under new keys (objects are immutable), and retirement,
  after which the bytes may be deleted.
\<close>

inductive pack_life :: "database \<times> object_store \<Rightarrow> database \<times> object_store \<Rightarrow> bool" where
  no_upload: "pack_life s s"
| pack_init: "pack_life s (db, st) \<Longrightarrow> handleSourcePackInit presign db now uuid who rootID input1 = (r1, db') \<Longrightarrow> pack_life s (db', st)"
| pack_complete: "pack_life s (db, st) \<Longrightarrow> honest head st \<Longrightarrow> handleSourcePackComplete head db now who rootID input2 = (r2, db')
    \<Longrightarrow> pack_life s (db', st)"
| multipart_init: "pack_life s (db, st) \<Longrightarrow> honest head st
    \<Longrightarrow> handleCaptureMultipartInit parse_uuid create list_parts head db now who rootID input3 = (r3, db') \<Longrightarrow> pack_life s (db', st)"
| multipart_part: "pack_life s (db, st) \<Longrightarrow> handleCaptureMultipartPart presign' db now who rootID input4 = (r4, db') \<Longrightarrow> pack_life s (db', st)"
| multipart_complete: "pack_life s (db, st) \<Longrightarrow> honest head st
    \<Longrightarrow> handleCaptureMultipartComplete head db now who rootID input5 = (r5, db') \<Longrightarrow> pack_life s (db', st)"
| register: "pack_life s (db, st)
    \<Longrightarrow> RegisterFileVersions uuid5 newFileID commits db now who rootID captureID revision files = (res, db') \<Longrightarrow> pack_life s (db', st)"
| put_object: "pack_life s (db, st) \<Longrightarrow> st key = None \<Longrightarrow> pack_life s (db, st(key \<mapsto> obj))"
| retire: "pack_life s (db, st) \<Longrightarrow> pack_life s
    (db\<lparr>source_objects := map (\<lambda>x. if so_key x \<in> keys then x\<lparr>so_retired := True\<rparr> else x) (source_objects db)\<rparr>,
     \<lambda>k. if k \<in> gone \<and> k \<in> keys then None else st k)"

lemma packs_stored_change: "upload_change st db db' \<Longrightarrow> packs_stored db st \<Longrightarrow> packs_stored db' st"
  unfolding upload_change_def confirmed_def packs_stored_def by metis

lemma retire_change:
  fixes keys gone :: "string set"
  assumes "upload_keys db" "packs_stored db st"
  defines "db' \<equiv> db\<lparr>source_objects := map (\<lambda>x. if so_key x \<in> keys then x\<lparr>so_retired := True\<rparr> else x) (source_objects db)\<rparr>"
  shows "upload_keys db' \<and> packs_stored db' (\<lambda>k. if k \<in> gone \<and> k \<in> keys then None else st k) \<and> progress db db'"
proof -
  let ?f = "\<lambda>x. if so_key x \<in> keys then x\<lparr>so_retired := True\<rparr> else x"
  have "map so_key (source_objects db') = map so_key (source_objects db)" "source_multipart_uploads db' = source_multipart_uploads db"
    unfolding db'_def by simp_all
  then have "upload_keys db'" using assms(1) unfolding upload_keys_def by metis
  moreover have "packs_stored db' (\<lambda>k. if k \<in> gone \<and> k \<in> keys then None else st k)"
    using assms(2) unfolding packs_stored_def db'_def by auto
  moreover have "same_object x (?f x)" for x by (simp add: same_object_def)
  then have "progress db db'" by (rule progress_map[of ?f]) (simp_all add: db'_def)
  ultimately show ?thesis by blast
qed

lemma pack_life_invariant:
  assumes "pack_life s s'" "upload_keys (fst s)" "packs_stored (fst s) (snd s)"
  shows "upload_keys (fst s') \<and> packs_stored (fst s') (snd s') \<and> progress (fst s) (fst s')"
  using assms
proof (induction rule: pack_life.induct)
  case (put_object s db st key obj)
  then show ?case by (auto simp: packs_stored_def)
next
  case (retire s db st keys gone)
  then show ?case using retire_change[of db st keys gone] progress_trans[of "fst s" db] by auto
next
  case (pack_init s db st presign now uuid who rootID input1 r1 db')
  then show ?case using handleSourcePackInit_change[of presign db now uuid who rootID input1 r1 db' st]
    packs_stored_change[of st db db'] progress_trans[of "fst s" db db'] by (auto simp: upload_change_def)
next
  case (pack_complete s db st head now who rootID input2 r2 db')
  then show ?case using handleSourcePackComplete_change[of head db now who rootID input2 r2 db' st]
    packs_stored_change[of st db db'] progress_trans[of "fst s" db db'] by (auto simp: upload_change_def)
next
  case (multipart_init s db st head parse_uuid create list_parts now who rootID input3 r3 db')
  then show ?case using handleCaptureMultipartInit_change[of parse_uuid create list_parts head db now who rootID input3 r3 db' st]
    packs_stored_change[of st db db'] progress_trans[of "fst s" db db'] by (auto simp: upload_change_def)
next
  case (multipart_part s db st presign' now who rootID input4 r4 db')
  then show ?case using handleCaptureMultipartPart_change[of presign' db now who rootID input4 r4 db' st]
    packs_stored_change[of st db db'] progress_trans[of "fst s" db db'] by (auto simp: upload_change_def)
next
  case (multipart_complete s db st head now who rootID input5 r5 db')
  then show ?case using handleCaptureMultipartComplete_change[of head db now who rootID input5 r5 db' st]
    packs_stored_change[of st db db'] progress_trans[of "fst s" db db'] by (auto simp: upload_change_def)
next
  case (register s db st uuid5 newFileID commits now who rootID captureID revision files res db')
  then show ?case using RegisterFileVersions_change[of uuid5 newFileID commits db now who rootID captureID revision files res db' st]
    packs_stored_change[of st db db'] progress_trans[of "fst s" db db'] by (auto simp: upload_change_def)
qed auto

text \<open>
  C8: A pack is marked complete only when its bytes are there.  Whatever uploads, registrations
  and retirements happen, in any order, every completed pack that is not retired is in the
  object store with exactly its declared size.
\<close>

theorem completed_packs_are_stored:
  assumes "pack_life (db, st) (db', st')" "upload_keys db" "packs_stored db st"
    and "x \<in> set (source_objects db')" "so_completed x" "\<not> so_retired x"
  shows "\<exists>i. st' (so_key x) = Some (so_size x, i)"
  using pack_life_invariant[OF assms(1)] assms(2-6) by (auto simp: packs_stored_def)

text \<open>
  Retries of a multipart upload cannot change it.  Once a session identifier has been handed
  out it stays, once a list of parts has been frozen for completion it stays, and the owner,
  the root and the size of a pack never change.
\<close>

theorem multipart_session_fixed:
  assumes "pack_life (db, st) (db', st')" "upload_keys db" "packs_stored db st"
    and "multipart_of db key = Some m" "x \<in> set (source_objects db)" "so_key x = key"
  shows "\<exists>n y. multipart_of db' key = Some n \<and> mu_part_size n = mu_part_size m \<and> (mu_upload m \<noteq> [] \<longrightarrow> mu_upload n = mu_upload m)
    \<and> (mu_parts m \<noteq> None \<longrightarrow> mu_parts n = mu_parts m)
    \<and> y \<in> set (source_objects db') \<and> so_key y = key \<and> so_size y = so_size x \<and> so_uploader y = so_uploader x \<and> so_root y = so_root x"
proof -
  have P: "upload_keys db'" "progress db db'" using pack_life_invariant[OF assms(1)] assms(2,3) by auto
  obtain n where n: "n \<in> set (source_multipart_uploads db')" "same_session m n"
    using P(2) multipart_of_Some[OF assms(4)] unfolding progress_def by blast
  have "multipart_of db' key = Some n"
    using find_keyed[of mu_key "source_multipart_uploads db'" n] P(1) n multipart_of_Some[OF assms(4)]
    by (simp add: upload_keys_def multipart_of_def same_session_def)
  moreover obtain y where "y \<in> set (source_objects db')" "same_object x y" using P(2) assms(5) unfolding progress_def by blast
  ultimately show ?thesis using n(2) assms(6) unfolding same_session_def same_object_def by blast
qed

text \<open>
  The parts tile the pack.  For every size that an initialisation accepts there are between one and eight
  parts of positive length at most 16 MiB whose lengths add up to the size.
\<close>

theorem multipart_parts_tile:
  assumes "1 \<le> sz" "sz \<le> 134217728"
  defines "k \<equiv> part_count sz capturePartSize"
  shows "1 \<le> k \<and> k \<le> 8 \<and> (\<forall>n\<in>{1..k}. 0 < part_length sz capturePartSize n \<and> part_length sz capturePartSize n \<le> 16777216)
    \<and> (\<Sum>n\<in>{1..k}. part_length sz capturePartSize n) = sz"
proof -
  let ?p = "16777216 :: int"
  define q r where "q = (sz - 1) div ?p" and "r = (sz - 1) mod ?p"
  have k: "k = q + 1" by (simp add: k_def part_count_def capturePartSize_def q_def)
  have qr: "q * ?p + r = sz - 1" "0 \<le> r" "r < ?p" by (simp_all add: q_def r_def)
  have "0 \<le> q" using assms(1) by (simp add: q_def pos_imp_zdiv_nonneg_iff)
  moreover have "(k - 1) * ?p < sz" using qr unfolding k by simp
  moreover have "sz \<le> k * ?p" using qr unfolding k by simp
  moreover have "q < 8" using qr assms(2) by simp
  ultimately have bounds: "(k - 1) * ?p < sz" "sz \<le> k * ?p" "1 \<le> k" "k \<le> 8" unfolding k by simp_all
  have inner: "part_length sz capturePartSize n = ?p" if "n < k" for n
    using bounds(1) mult_right_mono[of n "k - 1" ?p] that by (simp add: part_length_def capturePartSize_def)
  have final: "part_length sz capturePartSize k = sz - (k - 1) * ?p"
    using bounds(2) by (simp add: part_length_def capturePartSize_def algebra_simps)
  have split: "{1..k} = insert k {1..k - 1}" using bounds(3) by auto
  have "(\<Sum>n\<in>{1..k - 1}. part_length sz capturePartSize n) = (\<Sum>n\<in>{1..k - 1}. ?p)" by (rule sum.cong) (auto simp: inner)
  also have "\<dots> = (k - 1) * ?p" using bounds(3) by simp
  finally have "(\<Sum>n\<in>{1..k}. part_length sz capturePartSize n) = sz" unfolding split using final by simp
  moreover have "0 < part_length sz capturePartSize n \<and> part_length sz capturePartSize n \<le> ?p" if "n \<in> {1..k}" for n
    using that inner[of n] final bounds by (cases "n = k") auto
  ultimately show ?thesis using bounds(3,4) by blast
qed

section \<open>A concrete upload\<close>

definition sample_part :: completed_part where
  "sample_part = (1, ''etag'')"

definition sample_store :: object_store where
  "sample_store = [''sources/o1/r1/multipart/q'' \<mapsto> (9, ''sources/o1/r1/multipart/q'')]"

definition sample_head :: "string \<Rightarrow> head_answer" where
  "sample_head k = (case sample_store k of None \<Rightarrow> Inl (ApiError ''NotFound'') | Some x \<Rightarrow> Inr x)"

abbreviation sample_init :: database where
  "sample_init \<equiv> snd (handleCaptureMultipartInit Some (\<lambda>_ _. Inr ''session'') (\<lambda>_ _. None) sample_head sample_root_db 7 (Some sample_owner) ''r1'' (Some (''q'', 9)))"

abbreviation sample_completed :: database where
  "sample_completed \<equiv> snd (handleCaptureMultipartComplete sample_head sample_init 8 (Some sample_owner) ''r1'' (Some (''sources/o1/r1/multipart/q'', [sample_part])))"

lemma sample_honest: "honest sample_head sample_store"
  by (auto simp: honest_def sample_head_def split: option.splits)

lemma sample_uploads: "upload_keys sample_root_db" "packs_stored sample_root_db sample_store"
  by (simp_all add: upload_keys_def packs_stored_def sample_root_db_def sample_db_def empty_database_def)

lemma sample_life: "pack_life (sample_root_db, sample_store) (sample_init, sample_store)"
  by (rule pack_life.multipart_init[OF pack_life.no_upload sample_honest prod.collapse[symmetric]])

lemma sample_life_completed: "pack_life (sample_root_db, sample_store) (sample_completed, sample_store)"
  by (rule pack_life.multipart_complete[OF sample_life sample_honest prod.collapse[symmetric]])

definition sample_pack :: source_object_row where
  "sample_pack = \<lparr>so_key = ''sources/o1/r1/multipart/q'', so_org = ''o1'', so_root = ''r1'', so_size = 9, so_uploader = ''u1'',
     so_capture = None, so_completed = True, so_retired = False, so_authorized_until = 908\<rparr>"

theorem completed_packs_are_stored_witness:
  "sample_pack \<in> set (source_objects sample_completed) \<and> (\<exists>i. sample_store (so_key sample_pack) = Some (9, i))"
proof -
  have "sample_pack \<in> set (source_objects sample_completed)" by code_simp
  with completed_packs_are_stored[OF sample_life_completed sample_uploads this] show ?thesis by (simp add: sample_pack_def)
qed

theorem multipart_session_fixed_witness:
  "\<exists>n. multipart_of sample_completed ''sources/o1/r1/multipart/q'' = Some n \<and> mu_upload n = ''session''"
proof -
  let ?m = "\<lparr>mu_key = ''sources/o1/r1/multipart/q'', mu_upload = ''session'', mu_part_size = 16777216, mu_parts = None\<rparr>"
  let ?x = "sample_pack\<lparr>so_completed := False, so_authorized_until := 907\<rparr>"
  have life: "pack_life (sample_init, sample_store) (sample_completed, sample_store)"
    by (rule pack_life.multipart_complete[OF pack_life.no_upload sample_honest prod.collapse[symmetric]])
  have keys: "upload_keys sample_init" and stored: "packs_stored sample_init sample_store"
    using pack_life_invariant[OF sample_life] sample_uploads unfolding fst_conv snd_conv by blast+
  have m: "multipart_of sample_init ''sources/o1/r1/multipart/q'' = Some ?m" by code_simp
  have x: "?x \<in> set (source_objects sample_init)" by code_simp
  have "so_key ?x = ''sources/o1/r1/multipart/q''" by (simp add: sample_pack_def)
  from multipart_session_fixed[OF life keys stored m x this] show ?thesis by auto
qed

theorem multipart_parts_tile_witness:
  "(\<Sum>n\<in>{1..part_count 20000000 capturePartSize}. part_length 20000000 capturePartSize n) = 20000000"
  using multipart_parts_tile[of 20000000] by simp

end
