(* ===== verification/Go_Base64.thy ===== *)
theory Go_Base64
  imports Go_Prelude
begin

text \<open>
  Two more parts of the standard library: \<^verbatim>\<open>base64.RawURLEncoding\<close> (six bits per character, no
  padding; the decoder skips line breaks and rejects a single left-over character) and
  \<^verbatim>\<open>strconv.Atoi\<close>.  A byte is a \<open>char\<close>.
\<close>

definition b64_alphabet :: string where
  "b64_alphabet = ''ABCDEFGHIJKLMNOPQRSTUVWXYZabcdefghijklmnopqrstuvwxyz0123456789-_''"

definition b64_digit :: "nat \<Rightarrow> char" where
  "b64_digit n = b64_alphabet ! n"

fun index_of :: "'a \<Rightarrow> 'a list \<Rightarrow> nat option" where
  "index_of x [] = None"
| "index_of x (y # ys) = (if x = y then Some 0 else map_option Suc (index_of x ys))"

definition b64_value :: "char \<Rightarrow> nat option" where
  "b64_value c = index_of c b64_alphabet"

fun b64_groups :: "nat list \<Rightarrow> nat list" where
  "b64_groups [] = []"
| "b64_groups [a] = [a div 4, (a mod 4) * 16]"
| "b64_groups [a, b] = [a div 4, (a mod 4) * 16 + b div 16, (b mod 16) * 4]"
| "b64_groups (a # b # c # r) = [a div 4, (a mod 4) * 16 + b div 16, (b mod 16) * 4 + c div 64, c mod 64] @ b64_groups r"

fun b64_bytes :: "nat list \<Rightarrow> nat list option" where
  "b64_bytes [] = Some []"
| "b64_bytes [a] = None"
| "b64_bytes [a, b] = Some [a * 4 + b div 16]"
| "b64_bytes [a, b, c] = Some [a * 4 + b div 16, (b mod 16) * 16 + c div 4]"
| "b64_bytes (a # b # c # d # r) = map_option (\<lambda>bs. [a * 4 + b div 16, (b mod 16) * 16 + c div 4, (c mod 4) * 64 + d] @ bs) (b64_bytes r)"

definition raw_url_encode :: "string \<Rightarrow> string" where
  "raw_url_encode bs = map b64_digit (b64_groups (map of_char bs))"

definition raw_url_decode :: "string \<Rightarrow> string option" where
  "raw_url_decode s =
    (let t = filter (\<lambda>c. c \<noteq> CHR 0x0A \<and> c \<noteq> CHR 0x0D) s in
     if list_all (\<lambda>c. b64_value c \<noteq> None) t
     then map_option (map char_of) (b64_bytes (map (\<lambda>c. the (b64_value c)) t)) else None)"

fun digits_value :: "int \<Rightarrow> string \<Rightarrow> int option" where
  "digits_value acc [] = Some acc"
| "digits_value acc (c # cs) = (case index_of c ''0123456789'' of None \<Rightarrow> None | Some d \<Rightarrow> digits_value (acc * 10 + int d) cs)"

definition atoi :: "string \<Rightarrow> int option" where
  "atoi s =
    (let (negative, digits) = (case s of [] \<Rightarrow> (False, []) | c # cs \<Rightarrow> if c = CHR ''-'' then (True, cs) else if c = CHR ''+'' then (False, cs) else (False, s)) in
     if digits = [] then None
     else case digits_value 0 digits of
        None \<Rightarrow> None
      | Some v \<Rightarrow> (let n = (if negative then - v else v) in if int64 n then Some n else None))"

lemma index_of_nth: "distinct xs \<Longrightarrow> n < length xs \<Longrightarrow> index_of (xs ! n) xs = Some n"
proof (induction xs arbitrary: n)
  case (Cons x xs)
  then show ?case by (cases n) auto
qed simp

lemma b64_alphabet_distinct: "distinct b64_alphabet \<and> length b64_alphabet = 64"
  by code_simp

lemma b64_value_digit [simp]: "n < 64 \<Longrightarrow> b64_value (b64_digit n) = Some n"
  using b64_alphabet_distinct unfolding b64_value_def b64_digit_def by (intro index_of_nth) auto

lemma b64_digit_printable: "n < 64 \<Longrightarrow> b64_digit n \<in> set b64_alphabet"
  using b64_alphabet_distinct unfolding b64_digit_def by simp

lemma b64_alphabet_free: "CHR ''.'' \<notin> set b64_alphabet \<and> CHR 0x0A \<notin> set b64_alphabet \<and> CHR 0x0D \<notin> set b64_alphabet"
  by code_simp

lemma b64_groups_small: "\<forall>a\<in>set bs. a < 256 \<Longrightarrow> \<forall>n\<in>set (b64_groups bs). n < 64"
  by (induction bs rule: b64_groups.induct) (auto simp: less_mult_imp_div_less)

lemma b64_group_three:
  "a < 256 \<Longrightarrow> b < 256 \<Longrightarrow> c < 256 \<Longrightarrow>
    a div 4 * 4 + (a mod 4 * 16 + b div 16) div 16 = a \<and> (a mod 4 * 16 + b div 16) mod 16 * 16 + (b mod 16 * 4 + c div 64) div 4 = b
    \<and> (b mod 16 * 4 + c div 64) mod 4 * 64 + c mod 64 = (c :: nat)"
proof -
  assume "a < 256" "b < 256" "c < 256"
  then have small: "b div 16 < 16" "c div 64 < 4" by simp_all
  have "(a mod 4 * 16 + b div 16) div 16 = a mod 4" "(a mod 4 * 16 + b div 16) mod 16 = b div 16"
    "(b mod 16 * 4 + c div 64) div 4 = b mod 16" "(b mod 16 * 4 + c div 64) mod 4 = c div 64"
    using small by simp_all
  then show ?thesis by simp
qed

lemma b64_bytes_groups: "\<forall>a\<in>set bs. a < 256 \<Longrightarrow> b64_bytes (b64_groups bs) = Some bs"
proof (induction bs rule: b64_groups.induct)
  case (2 a)
  then show ?case using b64_group_three[of a 0 0] by simp
next
  case (3 a b)
  then show ?case using b64_group_three[of a b 0] by simp
next
  case (4 a b c r)
  then show ?case using b64_group_three[of a b c] by simp
qed simp

lemma raw_url_encode_chars: "set (raw_url_encode bs) \<subseteq> set b64_alphabet"
proof -
  have "\<forall>n\<in>set (b64_groups (map of_char bs)). n < 64" by (rule b64_groups_small) auto
  then show ?thesis unfolding raw_url_encode_def using b64_digit_printable by auto
qed

lemma raw_url_decode_encode [simp]: "raw_url_decode (raw_url_encode bs) = Some bs"
proof -
  let ?g = "b64_groups (map of_char bs)"
  have small: "\<forall>n\<in>set ?g. n < 64" by (rule b64_groups_small) auto
  have "filter (\<lambda>c. c \<noteq> CHR 0x0A \<and> c \<noteq> CHR 0x0D) (raw_url_encode bs) = raw_url_encode bs"
    using raw_url_encode_chars[of bs] b64_alphabet_free by (intro filter_True) blast
  moreover have "map (\<lambda>c. the (b64_value c)) (raw_url_encode bs) = ?g"
    unfolding raw_url_encode_def map_map by (rule map_idI) (use small in simp)
  moreover have "list_all (\<lambda>c. b64_value c \<noteq> None) (raw_url_encode bs)"
    unfolding raw_url_encode_def list_all_iff using small by auto
  ultimately show ?thesis
    using b64_bytes_groups[of "map of_char bs"] by (simp add: raw_url_decode_def o_def)
qed

end
