(* ===== verification/Catalog_Feed.thy ===== *)
theory Catalog_Feed
  imports Capture_Proofs Go_Base64 "HOL-Library.AList"
begin

text \<open>
  The change feed of the catalog: \<^verbatim>\<open>internal/server/catalog_changes.go\<close> and
  \<^verbatim>\<open>capture_catalog_api.go\<close>.  Triggers append the files whose head or proofs change to an outbox
  (theory Database); \<^verbatim>\<open>advanceCatalogChanges\<close> turns the outbox into per-file revisions, and
  \<^verbatim>\<open>handleCatalogChanges\<close> pages through the revisions after the client's cursor.  Parameters: JSON
  of a cursor (\<open>ck_marshal\<close>, \<open>ck_unmarshal\<close>), the keyed hash (\<open>ck_mac\<close>), and the digest of role and
  denied prefixes (\<open>ck_access\<close>).
\<close>

section \<open>Catalog entries\<close>

record processing_status =
  ps_extraction :: string
  ps_revision :: string
  ps_stage :: string
  ps_status :: string
  ps_attempts :: int

record captured_file_head =
  ce_file :: string
  ce_path :: string
  ce_version :: string
  ce_sequence :: int
  ce_indexed :: string
  ce_hash :: string
  ce_size :: int
  ce_deleted :: bool
  ce_ref :: string
  ce_proof :: bool
  ce_processing :: "processing_status option"

definition head_version_of :: "database \<Rightarrow> file_row \<Rightarrow> version_row option" where
  "head_version_of db f = find (\<lambda>v. fv_id v = fc_captured f) (file_versions db)"

definition proof_current :: "database \<Rightarrow> string \<Rightarrow> string \<Rightarrow> file_row \<Rightarrow> version_row \<Rightarrow> bool" where
  "proof_current db orgID userID f v = (case proof_of db orgID userID (fc_root f) (fc_path f) of
      None \<Rightarrow> False
    | Some p \<Rightarrow> pf_sequence p = fv_sequence v \<and> pf_hash p = fv_hash v \<and> pf_deleted p = fv_deleted v)"

text \<open>One row of the catalog query: no row when nothing has been captured.\<close>

definition head_entry :: "database \<Rightarrow> string \<Rightarrow> string \<Rightarrow> file_row \<Rightarrow> captured_file_head option" where
  "head_entry db orgID userID f = map_option (\<lambda>v. \<lparr>ce_file = fc_id f, ce_path = fc_path f, ce_version = fv_id v, ce_sequence = fv_sequence v,
     ce_indexed = fc_indexed_version f, ce_hash = fv_hash v, ce_size = fv_size v, ce_deleted = fv_deleted v, ce_ref = fv_ref v,
     ce_proof = proof_current db orgID userID f v, ce_processing = None\<rparr>) (head_version_of db f)"

section \<open>Cursors\<close>

record catalog_cursor =
  cu_root :: string
  cu_org :: string
  cu_user :: string
  cu_access :: string
  cu_revision :: int

record cursor_keys =
  ck_marshal :: "catalog_cursor \<Rightarrow> string"
  ck_unmarshal :: "string \<Rightarrow> catalog_cursor option"
  ck_mac :: "string \<Rightarrow> string"
  ck_access :: "string \<Rightarrow> string list \<Rightarrow> string"

definition encodeCatalogCursor :: "cursor_keys \<Rightarrow> catalog_cursor \<Rightarrow> string" where
  "encodeCatalogCursor k cursor = (let raw = ck_marshal k cursor in raw_url_encode raw @ ''.'' @ raw_url_encode (ck_mac k raw))"

definition decodeCatalogCursor :: "cursor_keys \<Rightarrow> string \<Rightarrow> catalog_cursor option" where
  "decodeCatalogCursor k value =
    (case split_on CHR ''.'' value of
       [p, q] \<Rightarrow>
         if length value > 2048 then None
         else (case (raw_url_decode p, raw_url_decode q) of
             (Some raw, Some signature) \<Rightarrow> if signature \<noteq> ck_mac k raw then None else ck_unmarshal k raw
           | _ \<Rightarrow> None)
     | _ \<Rightarrow> None)"

section \<open>Assigning revisions\<close>

fun take_upto :: "int \<Rightarrow> 'a list \<Rightarrow> 'a list" where
  "take_upto n [] = []"
| "take_upto n (x # xs) = (if n \<le> 0 then [] else x # take_upto (n - 1) xs)"

definition revision_of :: "database \<Rightarrow> string \<Rightarrow> int" where
  "revision_of db rootID = (case map_of (catalog_change_state db) rootID of None \<Rightarrow> 0 | Some r \<Rightarrow> r)"

definition root_outbox :: "database \<Rightarrow> string \<Rightarrow> outbox_row list" where
  "root_outbox db rootID = sort_key ob_id (filter (\<lambda>x. ob_root x = rootID) (catalog_change_outbox db))"

definition set_revision :: "string \<Rightarrow> string \<Rightarrow> int \<Rightarrow> file_change_row list \<Rightarrow> file_change_row list" where
  "set_revision rootID fileID revision rows =
    (if list_ex (\<lambda>c. ch_file c = fileID) rows
     then map (\<lambda>c. if ch_file c = fileID then c\<lparr>ch_revision := revision\<rparr> else c) rows
     else rows @ [\<lparr>ch_root = rootID, ch_file = fileID, ch_revision = revision\<rparr>])"

fun assign_revisions :: "string \<Rightarrow> int \<Rightarrow> string list \<Rightarrow> file_change_row list \<Rightarrow> file_change_row list" where
  "assign_revisions rootID revision [] rows = rows"
| "assign_revisions rootID revision (i # ids) rows = assign_revisions rootID (revision + 1) ids (set_revision rootID i (revision + 1) rows)"

definition advanceCatalogChanges :: "database \<Rightarrow> string \<Rightarrow> int \<times> bool \<times> database" where
  "advanceCatalogChanges db rootID =
    (let revision = revision_of db rootID;
         batch = take_upto 2000 (root_outbox db rootID);
         ids = sort (remdups (map ob_file batch));
         revision' = revision + int (length ids);
         db' = db\<lparr>catalog_change_outbox := filter (\<lambda>x. ob_id x \<notin> ob_id ` set batch) (catalog_change_outbox db),
                  catalog_file_changes := assign_revisions rootID revision ids (catalog_file_changes db),
                  catalog_change_state := AList.update rootID revision' (catalog_change_state db)\<rparr>
     in (revision', root_outbox db' rootID \<noteq> [], db'))"

section \<open>The feed endpoint\<close>

record changes_page =
  cp_files :: "captured_file_head list"
  cp_cursor :: string
  cp_more :: bool

datatype feed_response = FeedFail nat string | FeedPage changes_page

definition page_limit :: "string \<Rightarrow> int option" where
  "page_limit value = (if value = [] then Some 500
     else case atoi value of None \<Rightarrow> None | Some n \<Rightarrow> if n < 1 \<or> n > 1000 then None else Some n)"

definition denied_prefixes :: "root_acl list \<Rightarrow> string list" where
  "denied_prefixes acls = map acl_prefix (filter (\<lambda>a. acl_permission a = ''none'') acls)"

text \<open>The rows of the query: changes in \<open>(from, until]\<close> in the order of their revisions, joined with their heads.\<close>

definition change_rows :: "database \<Rightarrow> identity \<Rightarrow> string \<Rightarrow> int \<Rightarrow> int \<Rightarrow> (int \<times> captured_file_head) list" where
  "change_rows db idn rootID from until =
    List.map_filter (\<lambda>c. case find (\<lambda>f. fc_id f = ch_file c) (file_catalog db) of
        None \<Rightarrow> None
      | Some f \<Rightarrow> if live_root db (id_org idn) (fc_root f) then map_option (Pair (ch_revision c)) (head_entry db (id_org idn) (id_user idn) f) else None)
      (sort_key ch_revision (filter (\<lambda>c. ch_root c = rootID \<and> from < ch_revision c \<and> ch_revision c \<le> until) (catalog_file_changes db)))"

definition feed_access :: "cursor_keys \<Rightarrow> identity \<Rightarrow> root_acl list \<Rightarrow> string" where
  "feed_access k idn acls = ck_access k (id_role idn) (remdups_adj (sort (denied_prefixes acls)))"

text \<open>The revision the request continues from; None where the cursor has to be reset.\<close>

definition cursor_from :: "cursor_keys \<Rightarrow> identity \<Rightarrow> string \<Rightarrow> string \<Rightarrow> string \<Rightarrow> int option" where
  "cursor_from k idn rootID access cursorArg =
    (if cursorArg = [] then Some 0
     else (case decodeCatalogCursor k cursorArg of
        None \<Rightarrow> None
      | Some p \<Rightarrow> if cu_root p \<noteq> rootID \<or> cu_org p \<noteq> id_org idn \<or> cu_user p \<noteq> id_user idn \<or> cu_access p \<noteq> access
           \<or> cu_revision p < 0 then None else Some (cu_revision p)))"

definition handleCatalogChanges ::
  "cursor_keys \<Rightarrow> database \<Rightarrow> identity option \<Rightarrow> string \<Rightarrow> string \<Rightarrow> string \<Rightarrow> feed_response \<times> database" where
  "handleCatalogChanges k db who rootID limitArg cursorArg =
    (case captureIdentity db who rootID of
       Inl (status, _) \<Rightarrow> (FeedFail status [], db)
     | Inr idn \<Rightarrow>
        (case page_limit limitArg of
           None \<Rightarrow> (FeedFail 400 [], db)
         | Some limit \<Rightarrow>
            (let acls = getACLsForUser db (id_org idn) rootID (id_user idn) (id_role idn);
                 access = feed_access k idn acls;
                 reset = FeedFail 409 ''catalog_cursor_reset''
             in case cursor_from k idn rootID access cursorArg of
                None \<Rightarrow> (reset, db)
              | Some r \<Rightarrow>
                 (let (revision, pending, db1) = advanceCatalogChanges db rootID in
                  if r > revision then (reset, db1)
                  else (let rows = change_rows db1 idn rootID r revision;
                            page = take_upto limit rows;
                            remaining = int (length rows) > limit;
                            r' = (if remaining then fst (last page) else revision)
                        in (FeedPage \<lparr>cp_files = filter (\<lambda>e. checkPermission acls (ce_path e) ''write'') (map snd page),
                              cp_cursor = encodeCatalogCursor k \<lparr>cu_root = rootID, cu_org = id_org idn, cu_user = id_user idn,
                                 cu_access = access, cu_revision = r'\<rparr>,
                              cp_more = pending \<or> remaining\<rparr>, db1))))))"

section \<open>Listing the catalog\<close>

definition latest_extraction :: "database \<Rightarrow> string \<Rightarrow> extraction_row option" where
  "latest_extraction db versionID = (case rev (sort_key fe_sequence (filter (\<lambda>e. fe_version e = versionID) (file_extractions db))) of
      [] \<Rightarrow> None | e # _ \<Rightarrow> Some e)"

definition work_of :: "database \<Rightarrow> extraction_row \<Rightarrow> work_row option" where
  "work_of db e = find (\<lambda>w. fw_extraction w = fe_id e \<and> fw_stage w = (if fe_status e = ''complete'' then ''index'' else ''transform'')) (file_work db)"

definition processing_state :: "database \<Rightarrow> file_row \<Rightarrow> extraction_row option \<Rightarrow> string" where
  "processing_state db f extraction = (case extraction of
      None \<Rightarrow> ''missing''
    | Some e \<Rightarrow>
        if fc_indexed_extraction f = fe_id e then ''complete''
        else if fe_status e \<in> {''failed'', ''superseded'', ''waiting_provider''} then fe_status e
        else (case work_of db e of
            None \<Rightarrow> ''pending''
          | Some w \<Rightarrow> if fw_status w = ''complete'' then ''inconsistent'' else fw_status w))"

definition processing_of :: "database \<Rightarrow> file_row \<Rightarrow> version_row \<Rightarrow> processing_status" where
  "processing_of db f v = (let e = latest_extraction db (fv_id v) in
     \<lparr>ps_extraction = (case e of None \<Rightarrow> [] | Some x \<Rightarrow> fe_id x), ps_revision = (case e of None \<Rightarrow> [] | Some x \<Rightarrow> fe_revision x),
      ps_stage = (case e of None \<Rightarrow> ''transform'' | Some x \<Rightarrow> if fe_status x = ''complete'' then ''index'' else ''transform''),
      ps_status = processing_state db f e,
      ps_attempts = (case e of None \<Rightarrow> 0 | Some x \<Rightarrow> (case work_of db x of None \<Rightarrow> 0 | Some w \<Rightarrow> fw_attempts w))\<rparr>)"

record captured_page = pg_files :: "captured_file_head list" pg_next :: string

datatype list_response = ListFail nat | ListPage captured_page

definition captured_rows :: "database \<Rightarrow> identity \<Rightarrow> string \<Rightarrow> bool \<Rightarrow> string \<Rightarrow> captured_file_head list" where
  "captured_rows db idn rootID processing cursor =
    (if \<not> live_root db (id_org idn) rootID then []
     else List.map_filter (\<lambda>f. case (head_entry db (id_org idn) (id_user idn) f, head_version_of db f) of
          (Some e, Some v) \<Rightarrow> Some (if processing then e\<lparr>ce_processing := Some (processing_of db f v)\<rparr> else e)
        | _ \<Rightarrow> None) (sort_key fc_id (filter (\<lambda>f. fc_root f = rootID \<and> cursor < fc_id f) (file_catalog db))))"

definition handleListCapturedFiles ::
  "database \<Rightarrow> identity option \<Rightarrow> string \<Rightarrow> string \<Rightarrow> string \<Rightarrow> string \<Rightarrow> list_response" where
  "handleListCapturedFiles db who rootID processing limitArg cursor =
    (case captureIdentity db who rootID of
       Inl (status, _) \<Rightarrow> ListFail status
     | Inr idn \<Rightarrow>
        if processing \<notin> {[], ''true'', ''false''} then ListFail 400
        else (case page_limit limitArg of
            None \<Rightarrow> ListFail 400
          | Some limit \<Rightarrow>
             if length cursor > 128 then ListFail 400
             else let acls = getACLsForUser db (id_org idn) rootID (id_user idn) (id_role idn);
                      rows = captured_rows db idn rootID (processing = ''true'') cursor;
                      page = take_upto limit rows in
               ListPage \<lparr>pg_files = filter (\<lambda>e. acls = [] \<or> checkPermission acls (ce_path e) ''write'') page,
                         pg_next = (if int (length rows) > limit then ce_file (last page) else [])\<rparr>))"

section \<open>Cursors are authentic\<close>

lemma take_upto_take: "take_upto n xs = take (nat n) xs"
proof (induction n xs rule: take_upto.induct)
  case (2 n x xs)
  then show ?case by (cases "nat n") (auto simp: nat_diff_distrib')
qed simp

lemma encoded_dot_free: "CHR ''.'' \<notin> set (raw_url_encode bs)"
  using raw_url_encode_chars[of bs] b64_alphabet_free by blast

lemma decode_encode:
  assumes "ck_unmarshal k (ck_marshal k c) = Some c"
  shows "decodeCatalogCursor k (encodeCatalogCursor k c) = (if length (encodeCatalogCursor k c) \<le> 2048 then Some c else None)"
proof -
  have "split_on CHR ''.'' (encodeCatalogCursor k c) = [raw_url_encode (ck_marshal k c), raw_url_encode (ck_mac k (ck_marshal k c))]"
    using split_join[of "[raw_url_encode (ck_marshal k c), raw_url_encode (ck_mac k (ck_marshal k c))]" "CHR ''.''"] encoded_dot_free
    by (simp add: encodeCatalogCursor_def Let_def)
  then show ?thesis using assms by (simp add: decodeCatalogCursor_def)
qed

lemma encode_nonempty: "encodeCatalogCursor k c \<noteq> []"
  by (simp add: encodeCatalogCursor_def Let_def)

text \<open>
  C36: A cursor that the server issued is read back unchanged, and a cursor is accepted only when its second part is
  the keyed hash of the first: what a client sends cannot be made up without the key.
\<close>

theorem catalog_cursor_roundtrip:
  "(ck_unmarshal k (ck_marshal k c) = Some c \<longrightarrow> length (encodeCatalogCursor k c) \<le> 2048
      \<longrightarrow> decodeCatalogCursor k (encodeCatalogCursor k c) = Some c)
   \<and> (decodeCatalogCursor k token = Some c' \<longrightarrow> (\<exists>p q raw. token = p @ ''.'' @ q \<and> raw_url_decode p = Some raw
      \<and> raw_url_decode q = Some (ck_mac k raw) \<and> ck_unmarshal k raw = Some c' \<and> length token \<le> 2048))"
proof (intro conjI impI)
  assume "ck_unmarshal k (ck_marshal k c) = Some c" "length (encodeCatalogCursor k c) \<le> 2048"
  then show "decodeCatalogCursor k (encodeCatalogCursor k c) = Some c" by (simp add: decode_encode)
next
  assume d: "decodeCatalogCursor k token = Some c'"
  then obtain p q where pq: "split_on CHR ''.'' token = [p, q]"
    by (auto simp: decodeCatalogCursor_def split: list.splits)
  have "token = p @ ''.'' @ q" using join_split[of "CHR ''.''" token] unfolding pq by simp
  with d pq show "\<exists>p q raw. token = p @ ''.'' @ q \<and> raw_url_decode p = Some raw
      \<and> raw_url_decode q = Some (ck_mac k raw) \<and> ck_unmarshal k raw = Some c' \<and> length token \<le> 2048"
    by (auto simp: decodeCatalogCursor_def split: if_splits option.splits)
qed

theorem catalog_cursor_roundtrip_witness:
  "\<exists>k c. decodeCatalogCursor k (encodeCatalogCursor k c) = Some c \<and> (\<exists>p q raw. encodeCatalogCursor k c = p @ ''.'' @ q \<and> raw_url_decode p = Some raw
      \<and> raw_url_decode q = Some (ck_mac k raw))"
proof -
  let ?k = "\<lparr>ck_marshal = cu_root, ck_unmarshal = (\<lambda>raw. Some \<lparr>cu_root = raw, cu_org = [], cu_user = [], cu_access = [], cu_revision = 0\<rparr>),
    ck_mac = (\<lambda>raw. ''tag''), ck_access = (\<lambda>_ _. [])\<rparr>"
  let ?c = "\<lparr>cu_root = ''r1'', cu_org = [], cu_user = [], cu_access = [], cu_revision = 0\<rparr>"
  have "length (encodeCatalogCursor ?k ?c) = 8" by code_simp
  moreover have "ck_unmarshal ?k (ck_marshal ?k ?c) = Some ?c" by simp
  ultimately show ?thesis
    using catalog_cursor_roundtrip[of ?k ?c "encodeCatalogCursor ?k ?c" ?c] by (intro exI[of _ ?k] exI[of _ ?c]) force
qed

section \<open>Revisions\<close>

text \<open>The revision of a file: 0 when it has none.\<close>

definition file_revision :: "database \<Rightarrow> string \<Rightarrow> int" where
  "file_revision db fileID = (case find (\<lambda>c. ch_file c = fileID) (catalog_file_changes db) of None \<Rightarrow> 0 | Some c \<Rightarrow> ch_revision c)"

definition queued :: "database \<Rightarrow> string \<Rightarrow> bool" where
  "queued db fileID \<longleftrightarrow> (\<exists>x\<in>set (catalog_change_outbox db). ob_file x = fileID)"

definition feed_ok :: "database \<Rightarrow> bool" where
  "feed_ok db \<longleftrightarrow> distinct (map fc_id (file_catalog db)) \<and> distinct (map ch_file (catalog_file_changes db))
     \<and> (\<forall>c\<in>set (catalog_file_changes db). 0 < ch_revision c \<and> ch_revision c \<le> revision_of db (ch_root c)
          \<and> (\<exists>f\<in>set (file_catalog db). fc_id f = ch_file c \<and> fc_root f = ch_root c))
     \<and> (\<forall>c\<in>set (catalog_file_changes db). \<forall>d\<in>set (catalog_file_changes db). ch_root c = ch_root d \<and> ch_revision c = ch_revision d \<longrightarrow> c = d)
     \<and> (\<forall>x\<in>set (catalog_change_outbox db). \<exists>f\<in>set (file_catalog db). fc_id f = ob_file x \<and> fc_root f = ob_root x)
     \<and> distinct (map ob_id (catalog_change_outbox db)) \<and> (\<forall>x\<in>set (catalog_change_outbox db). ob_id x \<le> outbox_sequence db)
     \<and> (\<forall>r. 0 \<le> revision_of db r)"

lemma set_revision_spec:
  assumes "distinct (map ch_file rows)"
  shows "distinct (map ch_file (set_revision r i n rows))"
    "c \<in> set (set_revision r i n rows) \<longleftrightarrow> (c \<in> set rows \<and> ch_file c \<noteq> i)
      \<or> c = \<lparr>ch_root = (case find (\<lambda>c. ch_file c = i) rows of None \<Rightarrow> r | Some d \<Rightarrow> ch_root d), ch_file = i, ch_revision = n\<rparr>"
proof -
  let ?set = "\<lambda>c. if ch_file c = i then c\<lparr>ch_revision := n\<rparr> else c"
  have keys: "map ch_file (map ?set xs) = map ch_file xs" for xs by simp
  show "distinct (map ch_file (set_revision r i n rows))"
    using assms unfolding set_revision_def by (auto simp: list_ex_iff simp del: map_map simp: keys)
  show "c \<in> set (set_revision r i n rows) \<longleftrightarrow> (c \<in> set rows \<and> ch_file c \<noteq> i)
      \<or> c = \<lparr>ch_root = (case find (\<lambda>c. ch_file c = i) rows of None \<Rightarrow> r | Some d \<Rightarrow> ch_root d), ch_file = i, ch_revision = n\<rparr>"
  proof (cases "find (\<lambda>c. ch_file c = i) rows")
    case None
    have fresh: "\<forall>x\<in>set rows. ch_file x \<noteq> i" using None by (simp add: find_cong_filter)
    have "\<not> list_ex (\<lambda>c. ch_file c = i) rows" using fresh by (simp add: list_ex_iff)
    then show ?thesis using fresh by (auto simp: set_revision_def None)
  next
    case (Some d)
    then have d: "d \<in> set rows" "ch_file d = i" by (auto dest: find_member_mem)
    have uniq: "e = d" if "e \<in> set rows" "ch_file e = i" for e using assms d that by (auto simp: distinct_map inj_on_def)
    have "d\<lparr>ch_revision := n\<rparr> = \<lparr>ch_root = ch_root d, ch_file = i, ch_revision = n\<rparr>" using d(2) by (cases d) simp
    moreover have "list_ex (\<lambda>c. ch_file c = i) rows" using d by (auto simp: list_ex_iff)
    moreover have "c \<in> ?set ` set rows \<longleftrightarrow> (c \<in> set rows \<and> ch_file c \<noteq> i) \<or> c = d\<lparr>ch_revision := n\<rparr>"
    proof
      assume "c \<in> ?set ` set rows"
      then obtain e where "e \<in> set rows" "c = ?set e" by blast
      then show "(c \<in> set rows \<and> ch_file c \<noteq> i) \<or> c = d\<lparr>ch_revision := n\<rparr>" using uniq[of e] by (cases "ch_file e = i") auto
    next
      assume "(c \<in> set rows \<and> ch_file c \<noteq> i) \<or> c = d\<lparr>ch_revision := n\<rparr>"
      then show "c \<in> ?set ` set rows"
      proof
        assume "c \<in> set rows \<and> ch_file c \<noteq> i"
        then show ?thesis by (intro image_eqI[of _ _ c]) auto
      next
        assume "c = d\<lparr>ch_revision := n\<rparr>"
        then show ?thesis using d by (intro image_eqI[of _ _ d]) auto
      qed
    qed
    ultimately show ?thesis unfolding set_revision_def Some by simp
  qed
qed

lemma find_file_change:
  "distinct (map ch_file rows) \<Longrightarrow> c \<in> set rows \<Longrightarrow> find (\<lambda>d. ch_file d = ch_file c) rows = Some c"
  by (rule find_keyed)

lemma assign_revisions_spec:
  assumes "distinct (map ch_file rows)" "distinct ids" "\<forall>c\<in>set rows. ch_file c \<in> set ids \<longrightarrow> ch_root c = r"
  shows "distinct (map ch_file (assign_revisions r n ids rows))
    \<and> (\<forall>c. c \<in> set (assign_revisions r n ids rows) \<longleftrightarrow> (c \<in> set rows \<and> ch_file c \<notin> set ids)
         \<or> (\<exists>j<length ids. c = \<lparr>ch_root = r, ch_file = ids ! j, ch_revision = n + int j + 1\<rparr>))"
  using assms
proof (induction r n ids rows rule: assign_revisions.induct)
  case (2 r n i ids rows)
  let ?rows = "set_revision r i (n + 1) rows"
  note S = set_revision_spec[OF "2.prems"(1), where r = r and i = i and n = "n + 1"]
  have root: "(case find (\<lambda>c. ch_file c = i) rows of None \<Rightarrow> r | Some d \<Rightarrow> ch_root d) = r"
    using "2.prems"(3) by (auto split: option.split dest: find_member_mem)
  have mem: "c \<in> set ?rows \<longleftrightarrow> (c \<in> set rows \<and> ch_file c \<noteq> i) \<or> c = \<lparr>ch_root = r, ch_file = i, ch_revision = n + 1\<rparr>" for c
    using S(2) root by simp
  have ih: "distinct (map ch_file (assign_revisions r (n + 1) ids ?rows))
    \<and> (\<forall>c. c \<in> set (assign_revisions r (n + 1) ids ?rows) \<longleftrightarrow> (c \<in> set ?rows \<and> ch_file c \<notin> set ids)
         \<or> (\<exists>j<length ids. c = \<lparr>ch_root = r, ch_file = ids ! j, ch_revision = n + 1 + int j + 1\<rparr>))"
    using "2.prems" S(1) by (intro "2.IH") (auto simp: mem)
  have "(\<exists>j<length (i # ids). c = \<lparr>ch_root = r, ch_file = (i # ids) ! j, ch_revision = n + int j + 1\<rparr>)
      \<longleftrightarrow> c = \<lparr>ch_root = r, ch_file = i, ch_revision = n + 1\<rparr> \<or> (\<exists>j<length ids. c = \<lparr>ch_root = r, ch_file = ids ! j, ch_revision = n + 1 + int j + 1\<rparr>)" for c
    by (simp add: Ex_less_Suc2 algebra_simps)
  with ih show ?case using "2.prems"(2) by (auto simp: mem)
qed simp

lemma file_revision_mem:
  "distinct (map ch_file (catalog_file_changes db)) \<Longrightarrow> c \<in> set (catalog_file_changes db) \<Longrightarrow> file_revision db (ch_file c) = ch_revision c"
  using find_file_change[of "catalog_file_changes db" c] by (simp add: file_revision_def)

lemma file_revision_none:
  "\<forall>c\<in>set (catalog_file_changes db). ch_file c \<noteq> i \<Longrightarrow> file_revision db i = 0"
proof -
  assume "\<forall>c\<in>set (catalog_file_changes db). ch_file c \<noteq> i"
  then have "find (\<lambda>c. ch_file c = i) (catalog_file_changes db) = None" by (simp add: find_cong_filter)
  then show ?thesis by (simp add: file_revision_def)
qed

lemma root_outbox_set: "set (root_outbox db r) = {x \<in> set (catalog_change_outbox db). ob_root x = r}"
  by (auto simp: root_outbox_def)

text \<open>The parts of a call of \<^verbatim>\<open>advanceCatalogChanges\<close>.\<close>

lemma advance_parts:
  assumes adv: "advanceCatalogChanges db root = (n, pend, db')"
  obtains batch ids where "batch = take 2000 (root_outbox db root)" "distinct ids" "set ids = ob_file ` set batch"
    "n = revision_of db root + int (length ids)"
    "db' = db\<lparr>catalog_change_outbox := filter (\<lambda>x. ob_id x \<notin> ob_id ` set batch) (catalog_change_outbox db),
              catalog_file_changes := assign_revisions root (revision_of db root) ids (catalog_file_changes db),
              catalog_change_state := AList.update root n (catalog_change_state db)\<rparr>"
    "pend \<longleftrightarrow> root_outbox db' root \<noteq> []"
proof -
  let ?batch = "take 2000 (root_outbox db root)"
  show thesis
    using adv by (intro that[of ?batch "sort (remdups (map ob_file ?batch))"])
      (auto simp: advanceCatalogChanges_def Let_def take_upto_take)
qed

lemma feed_okD:
  assumes "feed_ok db"
  shows "distinct (map fc_id (file_catalog db))" "distinct (map ch_file (catalog_file_changes db))"
    "c \<in> set (catalog_file_changes db) \<Longrightarrow> 0 < ch_revision c \<and> ch_revision c \<le> revision_of db (ch_root c)
        \<and> (\<exists>f\<in>set (file_catalog db). fc_id f = ch_file c \<and> fc_root f = ch_root c)"
    "c \<in> set (catalog_file_changes db) \<Longrightarrow> d \<in> set (catalog_file_changes db) \<Longrightarrow> ch_root c = ch_root d \<Longrightarrow> ch_revision c = ch_revision d \<Longrightarrow> c = d"
    "x \<in> set (catalog_change_outbox db) \<Longrightarrow> \<exists>f\<in>set (file_catalog db). fc_id f = ob_file x \<and> fc_root f = ob_root x"
    "distinct (map ob_id (catalog_change_outbox db))" "0 \<le> revision_of db r"
    "x \<in> set (catalog_change_outbox db) \<Longrightarrow> ob_id x \<le> outbox_sequence db"
  using assms unfolding feed_ok_def by blast+

lemma catalog_id_unique:
  "feed_ok db \<Longrightarrow> f \<in> set (file_catalog db) \<Longrightarrow> g \<in> set (file_catalog db) \<Longrightarrow> fc_id f = fc_id g \<Longrightarrow> f = g"
  by (drule feed_okD(1)) (auto simp: distinct_map inj_on_def)

lemma advance_rows:
  assumes ok: "feed_ok db" and adv: "advanceCatalogChanges db root = (n, pend, db')"
  obtains ids batch where "batch = take 2000 (root_outbox db root)" "distinct ids" "set ids = ob_file ` set batch"
    "n = revision_of db root + int (length ids)" "distinct (map ch_file (catalog_file_changes db'))"
    "\<And>c. c \<in> set (catalog_file_changes db') \<longleftrightarrow> (c \<in> set (catalog_file_changes db) \<and> ch_file c \<notin> set ids)
       \<or> (\<exists>j<length ids. c = \<lparr>ch_root = root, ch_file = ids ! j, ch_revision = revision_of db root + int j + 1\<rparr>)"
    "catalog_change_outbox db' = filter (\<lambda>x. ob_id x \<notin> ob_id ` set batch) (catalog_change_outbox db)"
    "pend \<longleftrightarrow> root_outbox db' root \<noteq> []" "revision_of db' root = n" "\<And>r. r \<noteq> root \<Longrightarrow> revision_of db' r = revision_of db r"
    "file_catalog db' = file_catalog db" "outbox_sequence db' = outbox_sequence db"
proof -
  from adv obtain batch ids where P: "batch = take 2000 (root_outbox db root)" "distinct ids" "set ids = ob_file ` set batch"
    "n = revision_of db root + int (length ids)"
    "db' = db\<lparr>catalog_change_outbox := filter (\<lambda>x. ob_id x \<notin> ob_id ` set batch) (catalog_change_outbox db),
              catalog_file_changes := assign_revisions root (revision_of db root) ids (catalog_file_changes db),
              catalog_change_state := AList.update root n (catalog_change_state db)\<rparr>"
    "pend \<longleftrightarrow> root_outbox db' root \<noteq> []" by (rule advance_parts)
  have uniq: "f = g" if "f \<in> set (file_catalog db)" "g \<in> set (file_catalog db)" "fc_id f = fc_id g" for f g
    using feed_okD(1)[OF ok] that by (auto simp: distinct_map inj_on_def)
  have "ch_root c = root" if c: "c \<in> set (catalog_file_changes db)" "ch_file c \<in> set ids" for c
  proof -
    obtain x where x: "x \<in> set batch" "ob_file x = ch_file c" using c(2) P(3) by auto
    have "x \<in> set (root_outbox db root)" using x(1) P(1) by (auto dest: in_set_takeD)
    then have "x \<in> set (catalog_change_outbox db)" "ob_root x = root" by (auto simp: root_outbox_set)
    then show ?thesis using feed_okD(3)[OF ok c(1)] feed_okD(5)[OF ok] x(2) uniq by metis
  qed
  then have A: "distinct (map ch_file (catalog_file_changes db'))
    \<and> (\<forall>c. c \<in> set (catalog_file_changes db') \<longleftrightarrow> (c \<in> set (catalog_file_changes db) \<and> ch_file c \<notin> set ids)
         \<or> (\<exists>j<length ids. c = \<lparr>ch_root = root, ch_file = ids ! j, ch_revision = revision_of db root + int j + 1\<rparr>))"
    using assign_revisions_spec[OF feed_okD(2)[OF ok] P(2), of root "revision_of db root"] by (simp add: P(5))
  show thesis
    by (rule that[OF P(1-4)]) (use A P(5,6) in \<open>auto simp: revision_of_def update_conv\<close>)
qed

lemma advance_feed_ok:
  assumes ok: "feed_ok db" and adv: "advanceCatalogChanges db root = (n, pend, db')"
  shows "feed_ok db'"
proof -
  obtain ids batch where P: "batch = take 2000 (root_outbox db root)" "distinct ids" "set ids = ob_file ` set batch"
    "n = revision_of db root + int (length ids)" "distinct (map ch_file (catalog_file_changes db'))"
    "\<And>c. c \<in> set (catalog_file_changes db') \<longleftrightarrow> (c \<in> set (catalog_file_changes db) \<and> ch_file c \<notin> set ids)
       \<or> (\<exists>j<length ids. c = \<lparr>ch_root = root, ch_file = ids ! j, ch_revision = revision_of db root + int j + 1\<rparr>)"
    "catalog_change_outbox db' = filter (\<lambda>x. ob_id x \<notin> ob_id ` set batch) (catalog_change_outbox db)"
    "revision_of db' root = n" "\<And>r. r \<noteq> root \<Longrightarrow> revision_of db' r = revision_of db r" "file_catalog db' = file_catalog db"
    "outbox_sequence db' = outbox_sequence db"
    using advance_rows[OF ok adv] by metis
  have R0: "0 \<le> revision_of db r" for r using feed_okD(7)[OF ok] .
  have mono: "revision_of db r \<le> revision_of db' r" for r using P(4,8,9) by (cases "r = root") auto
  have new: "\<exists>f\<in>set (file_catalog db). fc_id f = ids ! j \<and> fc_root f = root" if "j < length ids" for j
  proof -
    have "ids ! j \<in> ob_file ` set batch" using that P(3) by (metis nth_mem)
    then obtain x where "x \<in> set (root_outbox db root)" "ob_file x = ids ! j" using P(1) by (auto dest: in_set_takeD)
    then show ?thesis using feed_okD(5)[OF ok] by (auto simp: root_outbox_set) metis
  qed
  have bound: "0 < ch_revision c \<and> ch_revision c \<le> revision_of db' (ch_root c) \<and> (\<exists>f\<in>set (file_catalog db'). fc_id f = ch_file c \<and> fc_root f = ch_root c)"
    if "c \<in> set (catalog_file_changes db')" for c
    using that unfolding P(6)
  proof
    assume "c \<in> set (catalog_file_changes db) \<and> ch_file c \<notin> set ids"
    then show ?thesis using feed_okD(3)[OF ok, of c] mono[of "ch_root c"] by (auto simp: P(10))
  next
    assume "\<exists>j<length ids. c = \<lparr>ch_root = root, ch_file = ids ! j, ch_revision = revision_of db root + int j + 1\<rparr>"
    then show ?thesis using new R0[of root] P(4,8,10) by fastforce
  qed
  have uniq: "c = d" if cd: "c \<in> set (catalog_file_changes db')" "d \<in> set (catalog_file_changes db')" "ch_root c = ch_root d" "ch_revision c = ch_revision d" for c d
  proof -
    have old: "ch_revision c \<le> revision_of db (ch_root c)" if "c \<in> set (catalog_file_changes db)" for c using feed_okD(3)[OF ok that] by blast
    show ?thesis using cd feed_okD(4)[OF ok, of c d] old[of c] old[of d] unfolding P(6) by auto
  qed
  have box: "x \<in> set (catalog_change_outbox db)" if "x \<in> set (catalog_change_outbox db')" for x using that P(7) by auto
  have "distinct (map ob_id (catalog_change_outbox db'))" using feed_okD(6)[OF ok] unfolding P(7) by (simp add: distinct_map_filter)
  moreover have "0 \<le> revision_of db' r" for r using mono[of r] R0[of r] by simp
  ultimately show ?thesis
    unfolding feed_ok_def P(10,11) using bound[unfolded P(10)] uniq P(5) feed_okD(1,5,8)[OF ok] box by blast
qed

lemma advance_tables:
  assumes "advanceCatalogChanges db root = (n, pend, db')"
  shows "file_catalog db' = file_catalog db" "file_versions db' = file_versions db" "file_content_proofs db' = file_content_proofs db"
    "roots db' = roots db" "same_access db db'" "file_extractions db' = file_extractions db" "version_sequence db' = version_sequence db"
  using assms by (auto simp: advanceCatalogChanges_def Let_def same_access_def)

lemma advance_revision:
  assumes ok: "feed_ok db" and adv: "advanceCatalogChanges db root = (n, pend, db')"
  shows "revision_of db' root = n" "revision_of db root \<le> n" "pend \<Longrightarrow> revision_of db root < n"
    "file_revision db' i = file_revision db i \<or> revision_of db root < file_revision db' i"
    "queued db i \<Longrightarrow> queued db' i \<or> revision_of db root < file_revision db' i"
    "\<not> pend \<Longrightarrow> x \<in> set (catalog_change_outbox db') \<Longrightarrow> ob_root x \<noteq> root"
proof -
  obtain ids batch where P: "batch = take 2000 (root_outbox db root)" "distinct ids" "set ids = ob_file ` set batch"
    "n = revision_of db root + int (length ids)" "distinct (map ch_file (catalog_file_changes db'))"
    "\<And>c. c \<in> set (catalog_file_changes db') \<longleftrightarrow> (c \<in> set (catalog_file_changes db) \<and> ch_file c \<notin> set ids)
       \<or> (\<exists>j<length ids. c = \<lparr>ch_root = root, ch_file = ids ! j, ch_revision = revision_of db root + int j + 1\<rparr>)"
    "catalog_change_outbox db' = filter (\<lambda>x. ob_id x \<notin> ob_id ` set batch) (catalog_change_outbox db)"
    "pend \<longleftrightarrow> root_outbox db' root \<noteq> []" "revision_of db' root = n"
    using advance_rows[OF ok adv] by metis
  show "revision_of db' root = n" "revision_of db root \<le> n" using P(4,9) by auto
  have new: "revision_of db root < file_revision db' i" if i: "i \<in> set ids" for i
  proof -
    obtain j where j: "j < length ids" "ids ! j = i" using i by (auto simp: in_set_conv_nth)
    let ?c = "\<lparr>ch_root = root, ch_file = ids ! j, ch_revision = revision_of db root + int j + 1\<rparr>"
    have "?c \<in> set (catalog_file_changes db')" unfolding P(6) using j(1) by blast
    from file_revision_mem[OF P(5) this] show ?thesis using j(2) by simp
  qed
  show "pend \<Longrightarrow> revision_of db root < n"
  proof -
    assume pend
    then have "root_outbox db' root \<noteq> []" using P(8) by simp
    then obtain x where "x \<in> set (root_outbox db' root)" by (cases "root_outbox db' root") auto
    then have "x \<in> set (root_outbox db root)" unfolding root_outbox_set P(7) by auto
    then have "batch \<noteq> []" using P(1) by auto
    then have "ids \<noteq> []" using P(3) by auto
    then show ?thesis using P(4) by (cases ids) auto
  qed
  show "file_revision db' i = file_revision db i \<or> revision_of db root < file_revision db' i"
  proof (cases "i \<in> set ids")
    case False
    have "file_revision db' i = file_revision db i"
    proof (cases "\<exists>c\<in>set (catalog_file_changes db). ch_file c = i")
      case True
      then obtain c where c: "c \<in> set (catalog_file_changes db)" "ch_file c = i" by blast
      then have "c \<in> set (catalog_file_changes db')" using P(6) False by blast
      then show ?thesis using file_revision_mem[OF P(5)] file_revision_mem[OF feed_okD(2)[OF ok] c(1)] c(2) by metis
    next
      case none: False
      then have "\<forall>c\<in>set (catalog_file_changes db'). ch_file c \<noteq> i" using P(6) False nth_mem by fastforce
      then show ?thesis using none file_revision_none by metis
    qed
    then show ?thesis ..
  qed (use new in blast)
  show "queued db i \<Longrightarrow> queued db' i \<or> revision_of db root < file_revision db' i"
  proof -
    assume "queued db i"
    then obtain x where x: "x \<in> set (catalog_change_outbox db)" "ob_file x = i" by (auto simp: queued_def)
    show ?thesis
    proof (cases "ob_id x \<in> ob_id ` set batch")
      case True
      then obtain y where y: "y \<in> set batch" "ob_id y = ob_id x" by auto
      then have "y \<in> set (catalog_change_outbox db)" using P(1) by (auto simp: root_outbox_set dest: in_set_takeD)
      then have "y = x" using feed_okD(6)[OF ok] x(1) y(2) by (auto simp: distinct_map inj_on_def)
      then have "i \<in> set ids" using P(3) y(1) x(2) by auto
      then show ?thesis using new by blast
    next
      case False
      then show ?thesis using x P(7) by (auto simp: queued_def)
    qed
  qed
  show "\<not> pend \<Longrightarrow> x \<in> set (catalog_change_outbox db') \<Longrightarrow> ob_root x \<noteq> root"
    using P(8) root_outbox_set[of db' root] by auto
qed

section \<open>What a follower knows\<close>

text \<open>
  A follower keeps the entries it has received by path.  At cursor \<open>r\<close> every visible file is
  either still queued, or has a later revision, or is known with its current entry.
\<close>

type_synonym catalog_view = "string \<Rightarrow> captured_file_head option"

definition shown :: "root_acl list \<Rightarrow> string \<Rightarrow> file_row \<Rightarrow> bool" where
  "shown acls root f \<longleftrightarrow> fc_root f = root \<and> fc_captured f \<noteq> [] \<and> checkPermission acls (fc_path f) ''write''"

definition follows :: "database \<Rightarrow> identity \<Rightarrow> root_acl list \<Rightarrow> string \<Rightarrow> catalog_view \<Rightarrow> int \<Rightarrow> bool" where
  "follows db idn acls root view r \<longleftrightarrow> 0 \<le> r \<and> r \<le> revision_of db root
     \<and> (\<forall>f\<in>set (file_catalog db). shown acls root f \<longrightarrow> queued db (fc_id f) \<or> r < file_revision db (fc_id f)
          \<or> view (fc_path f) = head_entry db (id_org idn) (id_user idn) f)
     \<and> (\<forall>p e. view p = Some e \<longrightarrow> (\<exists>f\<in>set (file_catalog db). shown acls root f \<and> fc_path f = p))"

definition put_entries :: "captured_file_head list \<Rightarrow> catalog_view \<Rightarrow> catalog_view" where
  "put_entries es view = fold (\<lambda>e v. v(ce_path e \<mapsto> e)) es view"

lemma put_entries_cases:
  "put_entries es view p = view p \<and> (\<forall>e\<in>set es. ce_path e \<noteq> p) \<or> (\<exists>e\<in>set es. ce_path e = p \<and> put_entries es view p = Some e)"
proof (induction es arbitrary: view)
  case (Cons a es)
  have step: "put_entries (a # es) view = put_entries es (view(ce_path a \<mapsto> a))" by (simp add: put_entries_def)
  show ?case
  proof (cases "\<exists>e\<in>set es. ce_path e = p \<and> put_entries es (view(ce_path a \<mapsto> a)) p = Some e")
    case True
    then show ?thesis unfolding step by (metis list.set_intros(2))
  next
    case False
    then have "put_entries es (view(ce_path a \<mapsto> a)) p = (view(ce_path a \<mapsto> a)) p" "\<forall>e\<in>set es. ce_path e \<noteq> p"
      using Cons.IH by blast+
    then show ?thesis unfolding step by (cases "ce_path a = p") auto
  qed
qed (simp add: put_entries_def)

text \<open>The complete catalog as the caller may see it.\<close>

definition visible_catalog :: "database \<Rightarrow> identity \<Rightarrow> root_acl list \<Rightarrow> string \<Rightarrow> catalog_view" where
  "visible_catalog db idn acls root p = (case file_at db root p of
      None \<Rightarrow> None | Some f \<Rightarrow> if shown acls root f then head_entry db (id_org idn) (id_user idn) f else None)"

lemma follows_complete:
  assumes wf: "catalog_wf db" and ok: "feed_ok db" and fol: "follows db idn acls root view r"
    and quiet: "\<forall>x\<in>set (catalog_change_outbox db). ob_root x \<noteq> root" and end_: "r = revision_of db root"
  shows "view = visible_catalog db idn acls root"
proof
  fix p
  have keys: "catalog_keys db" using wf by (simp add: catalog_wf_def)
  have current: "view (fc_path f) = head_entry db (id_org idn) (id_user idn) f" if f: "f \<in> set (file_catalog db)" "shown acls root f" for f
  proof -
    have root: "fc_root f = root" using f(2) by (simp add: shown_def)
    have "\<not> queued db (fc_id f)"
    proof
      assume "queued db (fc_id f)"
      then obtain x where x: "x \<in> set (catalog_change_outbox db)" "ob_file x = fc_id f" by (auto simp: queued_def)
      obtain g where "g \<in> set (file_catalog db)" "fc_id g = fc_id f" "fc_root g = ob_root x" using feed_okD(5)[OF ok x(1)] x(2) by auto
      then show False using quiet x(1) root catalog_id_unique[OF ok _ f(1)] by metis
    qed
    moreover have "file_revision db (fc_id f) \<le> r"
    proof (cases "\<exists>c\<in>set (catalog_file_changes db). ch_file c = fc_id f")
      case True
      then obtain c where c: "c \<in> set (catalog_file_changes db)" "ch_file c = fc_id f" by blast
      obtain g where "g \<in> set (file_catalog db)" "fc_id g = fc_id f" "fc_root g = ch_root c" using feed_okD(3)[OF ok c(1)] c(2) by auto
      then have "ch_root c = root" using root catalog_id_unique[OF ok _ f(1)] by metis
      then show ?thesis using file_revision_mem[OF feed_okD(2)[OF ok] c(1)] feed_okD(3)[OF ok c(1)] c(2) end_ by simp
    next
      case False
      then have "file_revision db (fc_id f) = 0" by (intro file_revision_none) blast
      then show ?thesis using feed_okD(7)[OF ok, of root] end_ by simp
    qed
    ultimately show ?thesis using fol f unfolding follows_def by force
  qed
  show "view p = visible_catalog db idn acls root p"
  proof (cases "file_at db root p")
    case None
    have "view p = None"
    proof (rule ccontr)
      assume "view p \<noteq> None"
      then obtain f where "f \<in> set (file_catalog db)" "shown acls root f" "fc_path f = p" using fol unfolding follows_def by blast
      then show False using None unfolding file_at_None shown_def by blast
    qed
    then show ?thesis by (simp add: visible_catalog_def None)
  next
    case (Some f)
    note f = file_at_Some[OF Some]
    show ?thesis
    proof (cases "shown acls root f")
      case True
      then show ?thesis using current[of f] f by (simp add: visible_catalog_def Some)
    next
      case False
      have "view p = None"
      proof (rule ccontr)
        assume "view p \<noteq> None"
        then obtain g where g: "g \<in> set (file_catalog db)" "shown acls root g" "fc_path g = p" using fol unfolding follows_def by blast
        then have "g = f" using file_at_keyed[OF keys g(1)] Some by (simp add: shown_def)
        with g(2) False show False by simp
      qed
      then show ?thesis by (simp add: visible_catalog_def Some False)
    qed
  qed
qed

section \<open>A page of changes\<close>

lemma head_entry_iff:
  assumes "catalog_wf db" "f \<in> set (file_catalog db)"
  shows "head_entry db org user f = None \<longleftrightarrow> fc_captured f = []"
proof
  assume none: "head_entry db org user f = None"
  show "fc_captured f = []"
  proof (rule ccontr)
    assume "fc_captured f \<noteq> []"
    moreover have "head_ok db f" using assms by (simp add: catalog_wf_def)
    ultimately obtain v where "v \<in> set (file_versions db)" "fv_id v = fc_captured f" by (auto simp: head_ok_def newest_def)
    then show False using none by (auto simp: head_entry_def head_version_of_def find_cong_filter)
  qed
next
  assume "fc_captured f = []"
  moreover have "\<forall>v\<in>set (file_versions db). fv_id v \<noteq> []" using assms(1) by (simp add: catalog_wf_def catalog_keys_def)
  ultimately show "head_entry db org user f = None"
    by (simp add: head_entry_def head_version_of_def find_cong_filter)
qed

lemma head_entry_fields: "head_entry db org user f = Some e \<Longrightarrow> ce_path e = fc_path f \<and> ce_file e = fc_id f"
  by (auto simp: head_entry_def)

lemma head_entry_cong:
  "file_versions db' = file_versions db \<Longrightarrow> file_content_proofs db' = file_content_proofs db \<Longrightarrow> head_entry db' = head_entry db"
  by (intro ext) (simp add: head_entry_def head_version_of_def proof_current_def proof_of_def)

lemma sorted_map_filter:
  fixes key :: "'a \<Rightarrow> 'k :: linorder"
  assumes "sorted_wrt (\<lambda>x y. key x < key y) xs" "\<And>x p. g x = Some p \<Longrightarrow> out p = key x"
  shows "sorted_wrt (\<lambda>p q. out p < out q) (List.map_filter g xs)"
  using assms(1)
proof (induction xs)
  case (Cons x xs)
  then show ?case using assms(2) by (auto simp: List.map_filter_def split: option.splits)
qed (simp add: List.map_filter_def)

lemma filter_map_filter:
  "(\<And>x p. g x = Some p \<Longrightarrow> P p = Q x) \<Longrightarrow> filter P (List.map_filter g xs) = List.map_filter g (filter Q xs)"
  by (induction xs) (auto simp: List.map_filter_def split: option.splits)

lemma strict_sort_key:
  fixes key :: "'a \<Rightarrow> 'k :: linorder"
  assumes "\<And>x y. x \<in> set xs \<Longrightarrow> y \<in> set xs \<Longrightarrow> key x = key y \<Longrightarrow> x = y" "distinct xs"
  shows "sorted_wrt (\<lambda>x y. key x < key y) (sort_key key xs)"
proof -
  have "distinct (map key (sort_key key xs))" using assms by (auto simp: distinct_map inj_on_def)
  then have "sorted_wrt (<) (map key (sort_key key xs))" by (simp add: strict_sorted_iff)
  then show ?thesis by (simp add: sorted_wrt_map)
qed

lemma change_rows_spec:
  assumes ok: "feed_ok db" and live: "live_root db (id_org idn) root"
  shows "sorted_wrt (\<lambda>p q. fst p < fst q) (change_rows db idn root a b)"
    "(p, e) \<in> set (change_rows db idn root a b) \<longleftrightarrow> (\<exists>f\<in>set (file_catalog db). fc_root f = root \<and> file_revision db (fc_id f) = p \<and> 0 < p \<and> a < p \<and> p \<le> b
        \<and> head_entry db (id_org idn) (id_user idn) f = Some e)"
proof -
  define cs where "cs = filter (\<lambda>c. ch_root c = root \<and> a < ch_revision c \<and> ch_revision c \<le> b) (catalog_file_changes db)"
  define g where "g = (\<lambda>c :: file_change_row. case find (\<lambda>f. fc_id f = ch_file c) (file_catalog db) of
        None \<Rightarrow> None
      | Some f \<Rightarrow> if live_root db (id_org idn) (fc_root f) then map_option (Pair (ch_revision c)) (head_entry db (id_org idn) (id_user idn) f) else None)"
  have rows: "change_rows db idn root a b = List.map_filter g (sort_key ch_revision cs)" by (simp add: change_rows_def cs_def g_def)
  have key: "fst p = ch_revision c" if "g c = Some p" for c p using that by (auto simp: g_def split: option.splits if_splits)
  have "distinct (catalog_file_changes db)" using feed_okD(2)[OF ok] by (simp add: distinct_map)
  then have "sorted_wrt (\<lambda>x y. ch_revision x < ch_revision y) (sort_key ch_revision cs)"
    by (intro strict_sort_key) (use feed_okD(4)[OF ok] in \<open>auto simp: cs_def\<close>)
  from sorted_map_filter[where g = g and out = fst, OF this key] show "sorted_wrt (\<lambda>p q. fst p < fst q) (change_rows db idn root a b)" unfolding rows by blast
  have g: "g c = map_option (Pair (ch_revision c)) (head_entry db (id_org idn) (id_user idn) f)"
    if "c \<in> set (catalog_file_changes db)" "ch_root c = root" "f \<in> set (file_catalog db)" "fc_id f = ch_file c" for c f
  proof -
    have "find (\<lambda>h. fc_id h = ch_file c) (file_catalog db) = Some f" using find_keyed[OF feed_okD(1)[OF ok] that(3)] that(4) by simp
    moreover have "fc_root f = root" using feed_okD(3)[OF ok that(1)] catalog_id_unique[OF ok _ that(3)] that(2,4) by metis
    ultimately show ?thesis using live by (simp add: g_def)
  qed
  have "(p, e) \<in> set (change_rows db idn root a b) \<longleftrightarrow> (\<exists>c\<in>set cs. g c = Some (p, e))"
    unfolding rows by (force simp: List.map_filter_def)
  also have "\<dots> \<longleftrightarrow> (\<exists>f\<in>set (file_catalog db). fc_root f = root \<and> file_revision db (fc_id f) = p \<and> 0 < p \<and> a < p \<and> p \<le> b
        \<and> head_entry db (id_org idn) (id_user idn) f = Some e)" (is "?l = ?r")
  proof
    assume ?l
    then obtain c where c: "c \<in> set (catalog_file_changes db)" "ch_root c = root" "a < ch_revision c" "ch_revision c \<le> b" "g c = Some (p, e)"
      by (auto simp: cs_def)
    obtain f where f: "f \<in> set (file_catalog db)" "fc_id f = ch_file c" "fc_root f = root" "0 < ch_revision c"
      using feed_okD(3)[OF ok c(1)] c(2) by auto
    moreover have "ch_revision c = p" "head_entry db (id_org idn) (id_user idn) f = Some e" using g[OF c(1,2) f(1,2)] c(5)
      by (cases "head_entry db (id_org idn) (id_user idn) f"; simp)+
    ultimately show ?r using c(3,4) file_revision_mem[OF feed_okD(2)[OF ok] c(1)] by (intro bexI[of _ f]) auto
  next
    assume ?r
    then obtain f where f: "f \<in> set (file_catalog db)" "fc_root f = root" "file_revision db (fc_id f) = p" "0 < p" "a < p" "p \<le> b"
      "head_entry db (id_org idn) (id_user idn) f = Some e" by blast
    then obtain c where c: "c \<in> set (catalog_file_changes db)" "ch_file c = fc_id f"
      using file_revision_none[of db "fc_id f"] by (metis less_irrefl)
    have "ch_root c = root" using feed_okD(3)[OF ok c(1)] catalog_id_unique[OF ok _ f(1)] c(2) f(2) by metis
    moreover have "ch_revision c = p" using file_revision_mem[OF feed_okD(2)[OF ok] c(1)] c(2) f(3) by simp
    ultimately show ?l using g[OF c(1) _ f(1)] c f by (intro bexI[of _ c]) (auto simp: cs_def)
  qed
  finally show "(p, e) \<in> set (change_rows db idn root a b) \<longleftrightarrow> (\<exists>f\<in>set (file_catalog db). fc_root f = root \<and> file_revision db (fc_id f) = p \<and> 0 < p \<and> a < p \<and> p \<le> b
        \<and> head_entry db (id_org idn) (id_user idn) f = Some e)" .
qed

definition feed_cursor :: "cursor_keys \<Rightarrow> identity \<Rightarrow> string \<Rightarrow> root_acl list \<Rightarrow> int \<Rightarrow> string" where
  "feed_cursor k idn root acls r = encodeCatalogCursor k \<lparr>cu_root = root, cu_org = id_org idn, cu_user = id_user idn,
     cu_access = feed_access k idn acls, cu_revision = r\<rparr>"

definition page_rows :: "int \<Rightarrow> (int \<times> captured_file_head) list \<Rightarrow> (int \<times> captured_file_head) list" where
  "page_rows limit rows = take (nat limit) rows"

definition page_end :: "int \<Rightarrow> (int \<times> captured_file_head) list \<Rightarrow> int \<Rightarrow> int" where
  "page_end limit rows revision = (if limit < int (length rows) then fst (last (page_rows limit rows)) else revision)"

text \<open>A page holds exactly the rows up to the position where it ends.\<close>

lemma page_rows_upto:
  assumes rows: "sorted_wrt (\<lambda>p q. fst p < fst q) rows" "\<forall>x\<in>set rows. a < fst x \<and> fst x \<le> revision" and "1 \<le> limit" "a \<le> revision"
  shows "set (page_rows limit rows) = {x \<in> set rows. fst x \<le> page_end limit rows revision}"
    "a \<le> page_end limit rows revision" "limit < int (length rows) \<Longrightarrow> a < page_end limit rows revision"
    "page_end limit rows revision \<le> revision" "limit < int (length rows) \<Longrightarrow> page_end limit rows revision < revision"
proof -
  define r' where "r' = page_end limit rows revision"
  have "set (page_rows limit rows) = {x \<in> set rows. fst x \<le> r'} \<and> a \<le> r' \<and> r' \<le> revision \<and> (limit < int (length rows) \<longrightarrow> a < r' \<and> r' < revision)"
  proof (cases "limit < int (length rows)")
    case True
    define ys zs where "ys = take (nat limit) rows" and "zs = drop (nat limit) rows"
    have parts: "rows = ys @ zs" "ys \<noteq> []" "zs \<noteq> []" using True assms(3) by (auto simp: ys_def zs_def)
    have e: "r' = fst (last ys)" "page_rows limit rows = ys" using True by (simp_all add: page_end_def page_rows_def ys_def r'_def)
    have "sorted_wrt (\<lambda>p q. fst p < fst q) (butlast ys @ [last ys] @ zs)" using rows(1) parts(1,2) by (metis append_assoc append_butlast_last_id)
    then have b: "\<forall>x\<in>set (butlast ys). fst x < fst (last ys)" and z: "\<forall>x\<in>set zs. fst (last ys) < fst x" by (auto simp: sorted_wrt_append)
    have "fst x \<le> fst (last ys)" if "x \<in> set ys" for x
      using b that parts(2) by (metis append_butlast_last_id UnE empty_iff empty_set less_imp_le order_refl set_ConsD set_append)
    then have "set (page_rows limit rows) = {x \<in> set rows. fst x \<le> r'}" using z unfolding e unfolding parts(1) by fastforce
    moreover have "hd zs \<in> set rows" "fst (last ys) < fst (hd zs)" "last ys \<in> set rows" using parts z by auto
    ultimately show ?thesis using rows(2) unfolding e(1) by fastforce
  next
    case False
    then show ?thesis using rows(2) assms(4) by (auto simp: page_end_def page_rows_def r'_def)
  qed
  then show "set (page_rows limit rows) = {x \<in> set rows. fst x \<le> page_end limit rows revision}"
    "a \<le> page_end limit rows revision" "limit < int (length rows) \<Longrightarrow> a < page_end limit rows revision"
    "page_end limit rows revision \<le> revision" "limit < int (length rows) \<Longrightarrow> page_end limit rows revision < revision"
    unfolding r'_def by blast+
qed

lemma page_limit_pos: "page_limit value = Some limit \<Longrightarrow> 1 \<le> limit \<and> limit \<le> 1000"
  by (auto simp: page_limit_def split: if_splits option.splits)

text \<open>An accepted request, in terms of its parts.\<close>

lemma handleCatalogChanges_page:
  assumes "captureIdentity db who root = Inr idn" "acls = getACLsForUser db (id_org idn) root (id_user idn) (id_role idn)"
    "page_limit limitArg = Some limit" "cursor_from k idn root (feed_access k idn acls) cursorArg = Some r"
    "advanceCatalogChanges db root = (n, pend, db1)" "r \<le> n" "rows = change_rows db1 idn root r n"
  shows "handleCatalogChanges k db who root limitArg cursorArg =
    (FeedPage \<lparr>cp_files = filter (\<lambda>e. checkPermission acls (ce_path e) ''write'') (map snd (page_rows limit rows)),
       cp_cursor = feed_cursor k idn root acls (page_end limit rows n), cp_more = pend \<or> limit < int (length rows)\<rparr>, db1)"
  using assms by (simp add: handleCatalogChanges_def Let_def feed_cursor_def page_rows_def page_end_def take_upto_take)

text \<open>Storing the entries of a set of visible files.\<close>

lemma put_files:
  assumes wf: "catalog_wf db"
    and files: "\<And>e. e \<in> set files \<longleftrightarrow> (\<exists>f\<in>set (file_catalog db). shown acls root f \<and> Q f \<and> head_entry db org user f = Some e)"
  shows "f \<in> set (file_catalog db) \<Longrightarrow> shown acls root f \<Longrightarrow> put_entries files view (fc_path f) = view (fc_path f) \<and> \<not> Q f
      \<or> put_entries files view (fc_path f) = head_entry db org user f"
    "put_entries files view p = Some e \<Longrightarrow> view p = Some e \<or> (\<exists>f\<in>set (file_catalog db). shown acls root f \<and> fc_path f = p)"
proof -
  have keys: "catalog_keys db" using wf by (simp add: catalog_wf_def)
  show "put_entries files view (fc_path f) = view (fc_path f) \<and> \<not> Q f \<or> put_entries files view (fc_path f) = head_entry db org user f"
    if f: "f \<in> set (file_catalog db)" "shown acls root f"
  proof -
    obtain e0 where e0: "head_entry db org user f = Some e0" "ce_path e0 = fc_path f"
      using head_entry_iff[OF wf f(1)] f(2) head_entry_fields by (fastforce simp: shown_def)
    have same: "e = e0" if e: "e \<in> set files" "ce_path e = fc_path f" for e
    proof -
      obtain g where g: "g \<in> set (file_catalog db)" "shown acls root g" "head_entry db org user g = Some e"
        using e(1) files by blast
      have "fc_path g = fc_path f" using head_entry_fields[OF g(3)] e(2) by simp
      moreover have "fc_root g = fc_root f" using g(2) f(2) by (simp add: shown_def)
      ultimately have "g = f" using file_at_keyed[OF keys g(1)] file_at_keyed[OF keys f(1)] by (metis option.inject)
      then show ?thesis using g(3) e0(1) by simp
    qed
    show ?thesis
      using put_entries_cases[of files view "fc_path f"]
    proof
      assume put: "put_entries files view (fc_path f) = view (fc_path f) \<and> (\<forall>e\<in>set files. ce_path e \<noteq> fc_path f)"
      then have "e0 \<notin> set files" using e0(2) by blast
      then show ?thesis using put files[of e0] e0(1) f by blast
    qed (use same e0 in auto)
  qed
  show "view p = Some e \<or> (\<exists>f\<in>set (file_catalog db). shown acls root f \<and> fc_path f = p)" if p: "put_entries files view p = Some e"
    using put_entries_cases[of files view p]
  proof
    assume "\<exists>e\<in>set files. ce_path e = p \<and> put_entries files view p = Some e"
    then show ?thesis using files head_entry_fields by metis
  qed (use p in simp)
qed

lemma page_files:
  assumes wf: "catalog_wf db" and ok: "feed_ok db" and live: "live_root db (id_org idn) root" and "0 \<le> r" "r \<le> n" "1 \<le> limit"
    and rows: "rows = change_rows db idn root r n"
  shows "e \<in> set (filter (\<lambda>e. checkPermission acls (ce_path e) ''write'') (map snd (page_rows limit rows))) \<longleftrightarrow>
    (\<exists>f\<in>set (file_catalog db). shown acls root f \<and> (r < file_revision db (fc_id f) \<and> file_revision db (fc_id f) \<le> page_end limit rows n)
       \<and> head_entry db (id_org idn) (id_user idn) f = Some e)"
    "r \<le> page_end limit rows n" "page_end limit rows n \<le> n" "limit < int (length rows) \<Longrightarrow> r < page_end limit rows n"
proof -
  note R = change_rows_spec[OF ok live, where a = r and b = n, folded rows]
  have bnd: "\<forall>x\<in>set rows. r < fst x \<and> fst x \<le> n" using R(2) by force
  note P = page_rows_upto[OF R(1) bnd assms(6,5)]
  show "r \<le> page_end limit rows n" "page_end limit rows n \<le> n" "limit < int (length rows) \<Longrightarrow> r < page_end limit rows n" using P by blast+
  have page: "(p, e) \<in> set (page_rows limit rows) \<longleftrightarrow> (\<exists>f\<in>set (file_catalog db). fc_root f = root \<and> file_revision db (fc_id f) = p \<and> r < p \<and> p \<le> page_end limit rows n
       \<and> head_entry db (id_org idn) (id_user idn) f = Some e)" for p e
    unfolding P(1) using R(2)[of p e] P(4) assms(4) by auto
  have entry: "fc_captured f \<noteq> [] \<and> ce_path e = fc_path f" if "f \<in> set (file_catalog db)" "head_entry db (id_org idn) (id_user idn) f = Some e" for f
    using head_entry_iff[OF wf that(1), of "id_org idn" "id_user idn"] head_entry_fields[OF that(2)] that(2) by auto
  have "e \<in> set (filter (\<lambda>e. checkPermission acls (ce_path e) ''write'') (map snd (page_rows limit rows)))
      \<longleftrightarrow> (\<exists>p. (p, e) \<in> set (page_rows limit rows)) \<and> checkPermission acls (ce_path e) ''write''" by force
  also have "\<dots> \<longleftrightarrow> (\<exists>f\<in>set (file_catalog db). shown acls root f \<and> (r < file_revision db (fc_id f) \<and> file_revision db (fc_id f) \<le> page_end limit rows n)
       \<and> head_entry db (id_org idn) (id_user idn) f = Some e)"
    unfolding page shown_def using entry by fastforce
  finally show "e \<in> set (filter (\<lambda>e. checkPermission acls (ce_path e) ''write'') (map snd (page_rows limit rows))) \<longleftrightarrow>
    (\<exists>f\<in>set (file_catalog db). shown acls root f \<and> (r < file_revision db (fc_id f) \<and> file_revision db (fc_id f) \<le> page_end limit rows n)
       \<and> head_entry db (id_org idn) (id_user idn) f = Some e)" .
qed

lemma catalog_wf_tables:
  "file_catalog db' = file_catalog db \<Longrightarrow> file_versions db' = file_versions db \<Longrightarrow> file_extractions db' = file_extractions db
    \<Longrightarrow> version_sequence db' = version_sequence db \<Longrightarrow> catalog_wf db' = catalog_wf db"
  by (simp add: catalog_wf_def catalog_keys_def head_ok_def newest_def linear_history_def)

text \<open>
  One page takes a follower from \<open>r\<close> to a later cursor, however far the feed is behind; when the page
  says that there is no more, the follower has the whole catalog.
\<close>

lemma page_step:
  assumes wf: "catalog_wf db" and ok: "feed_ok db" and live: "live_root db (id_org idn) root"
    and fol: "follows db idn acls root view r" and limit: "1 \<le> limit"
    and adv: "advanceCatalogChanges db root = (n, pend, db1)" and rows: "rows = change_rows db1 idn root r n"
    and files: "files = filter (\<lambda>e. checkPermission acls (ce_path e) ''write'') (map snd (page_rows limit rows))" and r': "r' = page_end limit rows n"
  shows "r \<le> n" "catalog_wf db1" "follows db1 idn acls root (put_entries files view) r'"
    "e \<in> set files \<Longrightarrow> \<exists>f\<in>set (file_catalog db). shown acls root f \<and> head_entry db (id_org idn) (id_user idn) f = Some e"
    "pend \<or> limit < int (length rows) \<Longrightarrow> r < r'" "\<not> (pend \<or> limit < int (length rows)) \<Longrightarrow> r' = revision_of db1 root"
proof -
  note A = advance_revision[OF ok adv] and T = advance_tables[OF adv]
  have entry: "head_entry db1 = head_entry db" by (rule head_entry_cong[OF T(2,3)])
  have r: "0 \<le> r" "r \<le> revision_of db root" using fol by (auto simp: follows_def)
  show rn: "r \<le> n" using r(2) A(2) by simp
  have live1: "live_root db1 (id_org idn) root" using live by (simp add: live_root_def T(4))
  show wf1: "catalog_wf db1" using wf catalog_wf_tables[OF T(1,2,6,7)] by simp
  note P = page_files[OF wf1 advance_feed_ok[OF ok adv] live1 r(1) rn limit rows, folded r']
  note P1 = P(1)[where acls = acls, folded files]
  show "e \<in> set files \<Longrightarrow> \<exists>f\<in>set (file_catalog db). shown acls root f \<and> head_entry db (id_org idn) (id_user idn) f = Some e"
    using P1 unfolding entry T(1) by blast
  note put = put_files[OF wf1 P1, where view = view]
  have "queued db1 (fc_id f) \<or> r' < file_revision db1 (fc_id f) \<or> put_entries files view (fc_path f) = head_entry db1 (id_org idn) (id_user idn) f"
    if f: "f \<in> set (file_catalog db1)" "shown acls root f" for f
  proof (cases "r < file_revision db1 (fc_id f) \<or> queued db1 (fc_id f)")
    case True
    then show ?thesis using put(1)[OF f] by force
  next
    case False
    then have "\<not> queued db (fc_id f)" "file_revision db1 (fc_id f) = file_revision db (fc_id f)" using A(4,5)[of "fc_id f"] r(2) by auto
    then have "view (fc_path f) = head_entry db1 (id_org idn) (id_user idn) f" using fol f False unfolding follows_def entry T(1) by force
    then show ?thesis using put(1)[OF f] by auto
  qed
  moreover have "\<exists>f\<in>set (file_catalog db1). shown acls root f \<and> fc_path f = p" if "put_entries files view p = Some e" for p e
    using put(2)[OF that] fol unfolding follows_def T(1) by metis
  moreover have "0 \<le> r'" "r' \<le> revision_of db1 root" using P(2,3) r(1) A(1) by auto
  ultimately show "follows db1 idn acls root (put_entries files view) r'" unfolding follows_def by blast
  show "r < r'" if more: "pend \<or> limit < int (length rows)"
  proof (cases "limit < int (length rows)")
    case False
    then show ?thesis using A(3) more r(2) by (simp add: r' page_end_def)
  qed (use P(4) in blast)
  show "r' = revision_of db1 root" if "\<not> (pend \<or> limit < int (length rows))" using that A(1) by (simp add: r' page_end_def)
qed

end
