(* ===== verification/Feed_Convergence.thy ===== *)
theory Feed_Convergence
  imports Catalog_Feed
begin

text \<open>
  Writers and followers of the catalog together: every handler that changes what the catalog shows
  queues the files it changes (the triggers of migration 053), so a follower that pages through the
  feed while captures and proofs are being recorded ends with the catalog of the server.
\<close>

section \<open>Announced changes\<close>

text \<open>
  The files of \<open>root\<close> whose entries differ in \<open>db'\<close> are queued there; the outbox only grows, with
  fresh identifiers; no file disappears and no revision is touched.
\<close>

definition outbox_grows :: "database \<Rightarrow> database \<Rightarrow> bool" where
  "outbox_grows db db' \<longleftrightarrow> outbox_sequence db \<le> outbox_sequence db'
     \<and> (\<exists>new. catalog_change_outbox db' = catalog_change_outbox db @ new \<and> distinct (map ob_id new)
          \<and> (\<forall>x\<in>set new. outbox_sequence db < ob_id x \<and> ob_id x \<le> outbox_sequence db'
               \<and> (\<exists>f\<in>set (file_catalog db'). fc_id f = ob_file x \<and> fc_root f = ob_root x)))"

definition files_kept :: "database \<Rightarrow> database \<Rightarrow> bool" where
  "files_kept db db' \<longleftrightarrow> (\<forall>f\<in>set (file_catalog db). \<exists>f'\<in>set (file_catalog db').
     fc_id f' = fc_id f \<and> fc_root f' = fc_root f \<and> fc_path f' = fc_path f \<and> (fc_captured f \<noteq> [] \<longrightarrow> fc_captured f' \<noteq> []))"

definition heads_queued :: "string \<Rightarrow> database \<Rightarrow> database \<Rightarrow> bool" where
  "heads_queued root db db' \<longleftrightarrow> (\<forall>f\<in>set (file_catalog db'). fc_root f = root \<and> fc_captured f \<noteq> [] \<longrightarrow>
     queued db' (fc_id f) \<or> f \<in> set (file_catalog db) \<and> (\<forall>org user. head_entry db' org user f = head_entry db org user f))"

definition announced :: "string \<Rightarrow> database \<Rightarrow> database \<Rightarrow> bool" where
  "announced root db db' \<longleftrightarrow> catalog_file_changes db' = catalog_file_changes db \<and> catalog_change_state db' = catalog_change_state db
     \<and> same_access db db' \<and> outbox_grows db db' \<and> files_kept db db' \<and> heads_queued root db db'"

lemma outbox_grows_queued: "outbox_grows db db' \<Longrightarrow> queued db i \<Longrightarrow> queued db' i"
  by (auto simp: outbox_grows_def queued_def)

lemma same_access_trans: "same_access a b \<Longrightarrow> same_access b c \<Longrightarrow> same_access a c"
  by (simp add: same_access_def)

lemma outbox_grows_trans:
  assumes "outbox_grows a b" "outbox_grows b c" "files_kept b c"
  shows "outbox_grows a c"
proof -
  obtain m n where m: "catalog_change_outbox b = catalog_change_outbox a @ m" "distinct (map ob_id m)"
      "\<forall>x\<in>set m. outbox_sequence a < ob_id x \<and> ob_id x \<le> outbox_sequence b \<and> (\<exists>f\<in>set (file_catalog b). fc_id f = ob_file x \<and> fc_root f = ob_root x)"
    and n: "catalog_change_outbox c = catalog_change_outbox b @ n" "distinct (map ob_id n)"
      "\<forall>x\<in>set n. outbox_sequence b < ob_id x \<and> ob_id x \<le> outbox_sequence c \<and> (\<exists>f\<in>set (file_catalog c). fc_id f = ob_file x \<and> fc_root f = ob_root x)"
    and le: "outbox_sequence a \<le> outbox_sequence b" "outbox_sequence b \<le> outbox_sequence c"
    using assms(1,2) unfolding outbox_grows_def by blast
  have "\<exists>f\<in>set (file_catalog c). fc_id f = ob_file x \<and> fc_root f = ob_root x" if "x \<in> set m" for x
    using m(3) that assms(3) unfolding files_kept_def by metis
  moreover have "ob_id ` set m \<inter> ob_id ` set n = {}" using m(3) n(3) by fastforce
  then have "distinct (map ob_id (m @ n))" using m(2) n(2) by simp
  ultimately show ?thesis
    unfolding outbox_grows_def using le m(1,3) n(1,3) by (intro conjI exI[of _ "m @ n"]) fastforce+
qed

lemma announced_refl [simp]: "announced root db db"
  unfolding announced_def outbox_grows_def files_kept_def heads_queued_def same_access_def by fastforce

lemma announced_trans:
  assumes "announced root a b" "announced root b c"
  shows "announced root a c"
proof -
  have "files_kept a c" using assms unfolding announced_def files_kept_def by metis
  moreover have "heads_queued root a c"
    using assms outbox_grows_queued[of b c] unfolding announced_def heads_queued_def by metis
  ultimately show ?thesis using assms outbox_grows_trans same_access_trans unfolding announced_def by metis
qed

lemma announced_feed_ok:
  assumes ok: "feed_ok db" and ann: "announced root db db'" and ids: "distinct (map fc_id (file_catalog db'))"
  shows "feed_ok db'"
proof -
  obtain new where N: "catalog_change_outbox db' = catalog_change_outbox db @ new" "distinct (map ob_id new)"
      "\<forall>x\<in>set new. outbox_sequence db < ob_id x \<and> ob_id x \<le> outbox_sequence db' \<and> (\<exists>f\<in>set (file_catalog db'). fc_id f = ob_file x \<and> fc_root f = ob_root x)"
    and le: "outbox_sequence db \<le> outbox_sequence db'"
    using ann unfolding announced_def outbox_grows_def by blast
  have same: "catalog_file_changes db' = catalog_file_changes db" "revision_of db' r = revision_of db r" for r
    using ann by (simp_all add: announced_def revision_of_def)
  have kept: "\<exists>f'\<in>set (file_catalog db'). fc_id f' = i \<and> fc_root f' = r" if "\<exists>f\<in>set (file_catalog db). fc_id f = i \<and> fc_root f = r" for i r
    using that ann unfolding announced_def files_kept_def by metis
  have old: "ob_id x \<le> outbox_sequence db" if "x \<in> set (catalog_change_outbox db)" for x using feed_okD(8)[OF ok that] .
  then have "ob_id ` set (catalog_change_outbox db) \<inter> ob_id ` set new = {}" using N(3) by fastforce
  then have "distinct (map ob_id (catalog_change_outbox db'))" using feed_okD(6)[OF ok] N(1,2) by simp
  moreover have "\<forall>x\<in>set (catalog_change_outbox db'). (\<exists>f\<in>set (file_catalog db'). fc_id f = ob_file x \<and> fc_root f = ob_root x) \<and> ob_id x \<le> outbox_sequence db'"
    using N(1,3) le old feed_okD(5)[OF ok] kept by fastforce
  moreover have "\<forall>c\<in>set (catalog_file_changes db). 0 < ch_revision c \<and> ch_revision c \<le> revision_of db (ch_root c)
      \<and> (\<exists>f\<in>set (file_catalog db'). fc_id f = ch_file c \<and> fc_root f = ch_root c)"
    using feed_okD(3)[OF ok] kept by blast
  ultimately show ?thesis
    using ids feed_okD(2,4,7)[OF ok] unfolding feed_ok_def same by blast
qed

text \<open>A follower keeps up with every announced change, whatever it knows already.\<close>

lemma announced_follows:
  assumes fol: "follows db idn acls root view r" and ann: "announced root db db'"
  shows "follows db' idn acls root view r"
proof -
  have same: "file_revision db' i = file_revision db i" "revision_of db' root = revision_of db root" for i
    using ann by (simp_all add: announced_def revision_of_def file_revision_def)
  have "queued db' (fc_id f) \<or> r < file_revision db' (fc_id f) \<or> view (fc_path f) = head_entry db' (id_org idn) (id_user idn) f"
    if f: "f \<in> set (file_catalog db')" "shown acls root f" for f
  proof (cases "queued db' (fc_id f)")
    case False
    then have "f \<in> set (file_catalog db)" and e: "head_entry db' (id_org idn) (id_user idn) f = head_entry db (id_org idn) (id_user idn) f"
      using f ann unfolding announced_def heads_queued_def shown_def by blast+
    then have "queued db (fc_id f) \<or> r < file_revision db (fc_id f) \<or> view (fc_path f) = head_entry db (id_org idn) (id_user idn) f"
      using fol f(2) unfolding follows_def by blast
    then show ?thesis using outbox_grows_queued ann same e unfolding announced_def by metis
  qed simp
  moreover have "\<exists>f\<in>set (file_catalog db'). shown acls root f \<and> fc_path f = p" if "view p = Some e" for p e
    using fol ann that unfolding follows_def announced_def files_kept_def shown_def by metis
  ultimately show ?thesis using fol same unfolding follows_def by auto
qed

section \<open>Every writer announces\<close>

lemma announced_same:
  assumes "catalog_file_changes db' = catalog_file_changes db" "catalog_change_state db' = catalog_change_state db" "same_access db db'"
    "catalog_change_outbox db' = catalog_change_outbox db" "outbox_sequence db' = outbox_sequence db" "file_catalog db' = file_catalog db"
    "file_versions db' = file_versions db" "file_content_proofs db' = file_content_proofs db"
  shows "announced root db db'"
  using assms head_entry_cong[OF assms(7,8)] unfolding announced_def outbox_grows_def files_kept_def heads_queued_def by fastforce

lemma insert_catalog_announced: "insert_catalog new r ps db = Inr db' \<Longrightarrow> announced root db db'"
proof (induction new r ps db rule: insert_catalog.induct)
  case (2 new r p ps db)
  show ?case
  proof (cases "file_at db r p = None")
    case True
    let ?db = "db\<lparr>file_catalog := file_catalog db @ [\<lparr>fc_id = new p, fc_root = r, fc_path = p, fc_captured = [],
      fc_indexed_version = [], fc_indexed_extraction = [], fc_deleted = False\<rparr>]\<rparr>"
    have "\<not> list_ex (\<lambda>f. fc_id f = new p) (file_catalog db)" "insert_catalog new r ps ?db = Inr db'"
      using "2.prems" True by (auto split: if_splits)
    then have "announced root ?db db'" using "2.IH"(2) True by blast
    moreover have "head_entry ?db = head_entry db" by (rule head_entry_cong) simp_all
    then have "announced root db ?db"
      unfolding announced_def outbox_grows_def files_kept_def heads_queued_def same_access_def by fastforce
    ultimately show ?thesis using announced_trans by blast
  qed (use 2 in simp)
qed simp

text \<open>The rows that a trigger adds.\<close>

lemma enqueue_changes_outbox:
  "\<exists>new. catalog_change_outbox (enqueue_changes fs db) = catalog_change_outbox db @ new \<and> distinct (map ob_id new)
     \<and> (\<forall>x\<in>set new. outbox_sequence db < ob_id x \<and> ob_id x \<le> outbox_sequence (enqueue_changes fs db) \<and> (\<exists>f\<in>set fs. fc_id f = ob_file x \<and> fc_root f = ob_root x))
     \<and> (\<forall>f\<in>set fs. \<exists>x\<in>set new. ob_file x = fc_id f) \<and> outbox_sequence db \<le> outbox_sequence (enqueue_changes fs db)"
proof (induction fs arbitrary: db)
  case (Cons f fs)
  let ?x = "\<lparr>ob_id = outbox_sequence db + 1, ob_root = fc_root f, ob_file = fc_id f\<rparr>"
  let ?db = "db\<lparr>catalog_change_outbox := catalog_change_outbox db @ [?x], outbox_sequence := outbox_sequence db + 1\<rparr>"
  obtain new where N: "catalog_change_outbox (enqueue_changes fs ?db) = catalog_change_outbox ?db @ new" "distinct (map ob_id new)"
     "\<forall>x\<in>set new. outbox_sequence ?db < ob_id x \<and> ob_id x \<le> outbox_sequence (enqueue_changes fs ?db) \<and> (\<exists>f\<in>set fs. fc_id f = ob_file x \<and> fc_root f = ob_root x)"
     "\<forall>f\<in>set fs. \<exists>x\<in>set new. ob_file x = fc_id f" "outbox_sequence ?db \<le> outbox_sequence (enqueue_changes fs ?db)"
    using Cons.IH[of ?db] by blast
  have step: "enqueue_changes (f # fs) db = enqueue_changes fs ?db" by simp
  show ?case
    unfolding step by (rule exI[of _ "?x # new"]) (use N in \<open>fastforce simp: image_iff\<close>)
qed simp

lemma enqueue_changes_state [simp]:
  "catalog_file_changes (enqueue_changes fs db) = catalog_file_changes db" "catalog_change_state (enqueue_changes fs db) = catalog_change_state db"
  "api_keys (enqueue_changes fs db) = api_keys db" "group_members (enqueue_changes fs db) = group_members db"
  "root_grants (enqueue_changes fs db) = root_grants db" "root_acls (enqueue_changes fs db) = root_acls db"
  by (induction fs arbitrary: db) auto

lemma upsert_announced:
  assumes up: "proof_upsert newer" and live: "pf_root p = root \<Longrightarrow> list_ex (\<lambda>r. root_id r = root \<and> root_deleting r = None) (roots db)"
  shows "announced root db (upsert_proof newer p db)"
proof -
  define fs where "fs = filter (\<lambda>f. fc_root f = pf_root p \<and> fc_path f = pf_path p
        \<and> list_ex (\<lambda>r. root_id r = fc_root f \<and> root_deleting r = None) (roots db)) (file_catalog db)"
  define db' where "db' = upsert_proof newer p db"
  have tables: "file_catalog db' = file_catalog db" "file_versions db' = file_versions db" "roots db' = roots db"
    using proof_upsert.upserts_tables[OF up, of "[p]" db] by (simp_all add: db'_def)
  have entry: "head_entry db' org user f = head_entry db org user f"
    if "\<And>o' u. proof_of db' o' u (fc_root f) (fc_path f) = proof_of db o' u (fc_root f) (fc_path f)" for org user f
    unfolding head_entry_def head_version_of_def tables proof_current_def that by simp
  have look: "proof_of db' o' u (fc_root f) (fc_path f) = proof_of db o' u (fc_root f) (fc_path f)"
    if "\<not> (fc_root f = pf_root p \<and> fc_path f = pf_path p)" for o' u f
    using that by (auto simp: db'_def proof_upsert.upsert_lookup[OF up])
  consider (same) "catalog_change_outbox db' = catalog_change_outbox db" "outbox_sequence db' = outbox_sequence db"
      "\<And>o' u r q. proof_of db' o' u r q = proof_of db o' u r q" "catalog_file_changes db' = catalog_file_changes db"
      "catalog_change_state db' = catalog_change_state db" "same_access db db'"
    | (queue) rows where "db' = enqueue_changes fs (db\<lparr>file_content_proofs := rows\<rparr>)"
  proof (cases "proof_of db (pf_org p) (pf_user p) (pf_root p) (pf_path p)")
    case None
    then have "db' = enqueue_changes fs (db\<lparr>file_content_proofs := file_content_proofs db @ [p]\<rparr>)"
      by (simp add: db'_def upsert_proof_def proof_changed_def fs_def)
    then show thesis by (rule queue)
  next
    case (Some old)
    show thesis
    proof (cases "newer (pf_sequence old) (pf_sequence p) \<and> old \<noteq> p")
      case True
      then show thesis using Some by (intro queue) (simp add: db'_def upsert_proof_def proof_changed_def fs_def Let_def)
    next
      case False
      have "proof_of db' o' u r q = proof_of db o' u r q" for o' u r q
        using False Some by (auto simp: db'_def proof_upsert.upsert_lookup[OF up])
      then show thesis using False Some by (intro same) (auto simp: db'_def upsert_proof_def same_access_def Let_def)
    qed
  qed
  then have "announced root db db'"
  proof cases
    case same
    then show ?thesis using entry tables unfolding announced_def outbox_grows_def files_kept_def heads_queued_def by fastforce
  next
    case (queue rows)
    obtain new where N: "catalog_change_outbox db' = catalog_change_outbox db @ new" "distinct (map ob_id new)"
     "\<forall>x\<in>set new. outbox_sequence db < ob_id x \<and> ob_id x \<le> outbox_sequence db' \<and> (\<exists>f\<in>set fs. fc_id f = ob_file x \<and> fc_root f = ob_root x)"
     "\<forall>f\<in>set fs. \<exists>x\<in>set new. ob_file x = fc_id f" "outbox_sequence db \<le> outbox_sequence db'"
      using enqueue_changes_outbox[of fs "db\<lparr>file_content_proofs := rows\<rparr>"] unfolding queue by auto
    have "queued db' (fc_id f) \<or> (\<forall>org user. head_entry db' org user f = head_entry db org user f)"
      if f: "f \<in> set (file_catalog db)" "fc_root f = root" for f
    proof (cases "fc_root f = pf_root p \<and> fc_path f = pf_path p")
      case True
      then have "f \<in> set fs" using f live by (auto simp: fs_def)
      then show ?thesis using N(1,4) by (auto simp: queued_def)
    qed (use look entry in blast)
    moreover have "set fs \<subseteq> set (file_catalog db)" by (auto simp: fs_def)
    then have "\<forall>x\<in>set new. outbox_sequence db < ob_id x \<and> ob_id x \<le> outbox_sequence db' \<and> (\<exists>f\<in>set (file_catalog db'). fc_id f = ob_file x \<and> fc_root f = ob_root x)"
      using N(3) tables(1) by (metis subsetD)
    then have "outbox_grows db db'" unfolding outbox_grows_def using N by blast
    ultimately show ?thesis using tables queue unfolding announced_def files_kept_def heads_queued_def by (auto simp: same_access_def)
  qed
  then show ?thesis by (simp add: db'_def)
qed

lemma upserts_announced:
  assumes up: "proof_upsert newer" and "\<forall>p\<in>set ps. pf_root p = root \<longrightarrow> list_ex (\<lambda>r. root_id r = root \<and> root_deleting r = None) (roots db)"
  shows "announced root db (fold (upsert_proof newer) ps db)"
  using assms(2)
proof (induction ps arbitrary: db)
  case (Cons p ps)
  have "announced root db (upsert_proof newer p db)" using upsert_announced[OF up] Cons.prems by simp
  moreover have "roots (upsert_proof newer p db) = roots db" using proof_upsert.upserts_tables(5)[OF up, of "[p]" db] by simp
  then have "announced root (upsert_proof newer p db) (fold (upsert_proof newer) ps (upsert_proof newer p db))"
    using Cons.IH Cons.prems by simp
  ultimately show ?case using announced_trans by simp
qed simp

lemma write_version_announced:
  assumes w: "write_version captureID w db = Inr db'" and wf: "catalog_wf db" and ready: "write_ready db w"
  shows "announced root db db'"
proof -
  note W = write_version_Inr[OF w]
  obtain c where c: "c \<in> set (file_catalog db)" "fc_id c = rv_file (cw_reg w)" using ready by (auto simp: write_ready_def)
  have ids: "distinct (map fc_id (file_catalog db))" using wf by (simp add: catalog_wf_def catalog_keys_def)
  then have find: "find (\<lambda>x. fc_id x = rv_file (cw_reg w)) (file_catalog db) = Some c" using find_keyed[OF ids c(1)] c(2) by simp
  have nz: "rv_version (cw_reg w) \<noteq> []" using ready by (simp add: write_ready_def)
  have ch: "fc_captured c \<noteq> rv_version (cw_reg w)"
  proof
    assume eq: "fc_captured c = rv_version (cw_reg w)"
    have "head_ok db c" using wf c(1) by (simp add: catalog_wf_def)
    then show False using eq nz W(7) by (auto simp: head_ok_def newest_def)
  qed
  let ?x = "\<lparr>ob_id = outbox_sequence db + 1, ob_root = fc_root c, ob_file = fc_id c\<rparr>"
  have box: "catalog_change_outbox db' = catalog_change_outbox db @ [?x]" "outbox_sequence db' = outbox_sequence db + 1"
    "catalog_file_changes db' = catalog_file_changes db" "catalog_change_state db' = catalog_change_state db"
    "file_content_proofs db' = file_content_proofs db"
    using w ch nz by (auto simp: write_version_def Let_def find head_changed_def split: if_splits)
  have entry: "head_entry db' org user f = head_entry db org user f" if f: "f \<in> set (file_catalog db)" "fc_captured f \<noteq> []" for org user f
  proof -
    obtain v where v: "head_version_of db f = Some v"
      using head_entry_iff[OF wf f(1), of org user] f(2) by (auto simp: head_entry_def)
    have "find P (xs @ ys) = Some v" if "find P xs = Some v" for P xs ys using that by (induction xs) (auto split: if_splits)
    then have "head_version_of db' f = Some v" using v unfolding head_version_of_def W(1) by blast
    then show ?thesis using v by (simp add: head_entry_def proof_current_def proof_of_def box(5))
  qed
  have new: "new_head w f = f" if "fc_id f \<noteq> rv_file (cw_reg w)" for f using that by (simp add: new_head_def)
  have "outbox_grows db db'" unfolding outbox_grows_def using box(1,2) W(3) c by (intro conjI exI[of _ "[?x]"]) auto
  moreover have "fc_captured f \<noteq> [] \<longrightarrow> fc_captured (new_head w f) \<noteq> []" for f using nz by (simp add: new_head_def)
  then have "files_kept db db'" unfolding files_kept_def W(3) by (metis imageI list.set_map new_head_simps)
  moreover have "heads_queued root db db'"
    unfolding heads_queued_def
  proof (intro ballI impI)
    fix f assume f: "f \<in> set (file_catalog db')" "fc_root f = root \<and> fc_captured f \<noteq> []"
    then obtain g where g: "g \<in> set (file_catalog db)" "f = new_head w g" using W(3) by auto
    show "queued db' (fc_id f) \<or> f \<in> set (file_catalog db) \<and> (\<forall>org user. head_entry db' org user f = head_entry db org user f)"
    proof (cases "fc_id g = rv_file (cw_reg w)")
      case True
      then show ?thesis using g(2) c(2) box(1) by (simp add: queued_def)
    next
      case False
      then show ?thesis using new[OF False] g f(2) entry by simp
    qed
  qed
  ultimately show ?thesis using box(3,4) W(6) by (simp add: announced_def)
qed

lemma writeCapturedVersions_announced:
  assumes "writeCapturedVersions captureID ws result db = Inr (result', db')" "catalog_wf db"
    and "\<forall>w\<in>set ws. write_ready db w" "distinct (map (rv_file \<circ> cw_reg) ws)"
  shows "announced root db db'"
  using assms
proof (induction captureID ws result db rule: writeCapturedVersions.induct)
  case (2 captureID w ws result db)
  obtain db1 where w: "write_version captureID w db = Inr db1" using "2.prems"(1) by (auto split: sum.splits)
  have rest: "writeCapturedVersions captureID ws (result[cw_slot w := (result ! cw_slot w)\<lparr>rv_sequence := version_sequence db1\<rparr>]) db1 = Inr (result', db')"
    using "2.prems"(1) w by auto
  have ready: "write_ready db w" using "2.prems"(3) by simp
  have ready': "\<forall>x\<in>set ws. write_ready db1 x" using "2.prems"(3,4) by (auto simp: image_iff intro!: write_ready_after[OF w])
  have "announced root db1 db'" using "2.IH"[OF w rest write_version_wf(1)[OF w "2.prems"(2) ready] ready'] "2.prems"(4) by simp
  then show ?case using announced_trans[OF write_version_announced[OF w "2.prems"(2) ready]] by blast
qed auto

lemma RegisterFileVersions_announced:
  assumes run: "RegisterFileVersions uuid5 newFileID commits db now who rootID captureID revision files = (res, db')"
    and wf: "catalog_wf db" and uuid: "\<forall>s. uuid5 s \<noteq> []"
  shows "announced root db db'"
  using RegisterFileVersions_cases[OF run]
proof
  assume "\<exists>idn result. who = Some idn \<and> res = Inr result \<and> commits \<and> captureID \<noteq> [] \<and> revision \<noteq> [] \<and> files \<noteq> [] \<and> length files \<le> 128
      \<and> id_org idn \<noteq> [] \<and> id_user idn \<noteq> [] \<and> check_captured [] files = None
      \<and> register_body uuid5 newFileID db now idn rootID captureID revision files = Inr (result, db')"
  then obtain idn result where chk: "check_captured [] files = None"
      and r: "register_body uuid5 newFileID db now idn rootID captureID revision files = Inr (result, db')" by blast
  obtain db1 plan db2 where
    ins: "insert_catalog newFileID rootID (map cv_path files) db = Inr db1"
    and plan: "try_map (plan_version uuid5 db1 rootID captureID revision) (enumerate 0 files) = Inr plan"
    and fin: "if List.map_filter snd plan = [] then db2 = db1 \<and> result = map fst plan \<and> db' = db1
     else authorizeCaptureSources db1 idn rootID captureID (List.map_filter snd plan) = Inr db2
       \<and> writeCapturedVersions captureID (List.map_filter snd plan) (map fst plan) db2 = Inr (result, db')"
    using register_body_stages[OF r] by metis
  note I = insert_catalog_wf[OF ins wf]
  have wf1: "catalog_wf db1" and present: "\<forall>f\<in>set files. file_at db1 rootID (cv_path f) \<noteq> None" using I by auto
  have keys1: "catalog_keys db1" using wf1 by (simp add: catalog_wf_def)
  have paths: "distinct (map cv_path files)" using check_captured_None chk by blast
  note PW = plan_writes[OF plan keys1 uuid paths present]
  note ann1 = insert_catalog_announced[OF ins, of root]
  show ?thesis
  proof (cases "List.map_filter snd plan = []")
    case True
    then show ?thesis using fin ann1 by simp
  next
    case False
    then have src: "authorizeCaptureSources db1 idn rootID captureID (List.map_filter snd plan) = Inr db2"
      and wr: "writeCapturedVersions captureID (List.map_filter snd plan) (map fst plan) db2 = Inr (result, db')" using fin by auto
    note F = authorizeCaptureSources_frame[OF src]
    have wf2: "catalog_wf db2" using wf1 catalog_wf_cong[OF F(1-4)] by simp
    have ready2: "\<forall>w\<in>set (List.map_filter snd plan). write_ready db2 w" using PW(1) by (simp add: write_ready_def F(1))
    have "announced root db1 db2"
      using src by (intro announced_same) (auto simp: authorizeCaptureSources_def same_access_def Let_def split: if_splits)
    then show ?thesis
      using announced_trans[OF ann1] announced_trans writeCapturedVersions_announced[OF wr wf2 ready2 PW(2)] by blast
  qed
qed simp

lemma handleRegister_announced:
  assumes run: "handleRegisterFileVersions env db now who rootID input = (res, db')" and wf: "catalog_wf db" and uuid: "\<forall>s. env_uuid5 env s \<noteq> []"
  shows "announced root db db' \<and> catalog_wf db'"
proof -
  consider "db' = db" | captureID versions idn' r res' where
      "RegisterFileVersions (env_uuid5 env) (env_file_id env) (env_commits env) db now (Some idn') rootID captureID extractionRevision versions = (res', r)"
      "db' = r \<or> (\<exists>vs. db' = RecordCapturedProofs r (id_org idn') (id_user idn') rootID vs)"
    using run unfolding handleRegisterFileVersions_def
    by (simp split: sum.splits prod.splits option.splits if_splits list.splits) blast+
  then show ?thesis
  proof cases
    case (2 captureID versions idn' r res')
    note A = RegisterFileVersions_announced[OF 2(1) wf uuid, of root] and V = RegisterFileVersions_wf[OF 2(1) wf uuid]
    have "announced root r (RecordCapturedProofs r (id_org idn') (id_user idn') rootID vs)" for vs
      unfolding RecordCapturedProofs_def
    proof (rule upserts_announced[OF captured.proof_upsert_axioms], intro ballI impI)
      fix p assume "p \<in> set (captured_proof_rows r (id_org idn') (id_user idn') rootID (map rv_version vs))" "pf_root p = root"
      then obtain x where "x \<in> set (roots r)" "root_id x = root" "root_deleting x = None"
        unfolding captured_proof_rows_mem by (metis proof_row.select_convs(3))
      then show "list_ex (\<lambda>r. root_id r = root \<and> root_deleting r = None) (roots r)" by (auto simp: list_ex_iff)
    qed
    then show ?thesis using 2(2) A V announced_trans RecordCapturedProofs_wf by blast
  qed (use wf in simp)
qed

lemma handleCapturedProofs_announced:
  assumes run: "handleCapturedProofs commits db who rootID input = (res, db')" and wf: "catalog_wf db"
  shows "announced root db db' \<and> catalog_wf db'"
proof -
  consider "db' = db" | idn' files where "live_root db (id_org idn') rootID" "db' = fold (upsert_proof (\<le>)) (proof_rows db idn' rootID files) db"
  proof (cases "captureIdentity db who rootID")
    case (Inr idn')
    show thesis
    proof (cases input)
      case (Some files)
      have "db' = db \<or> live_root db (id_org idn') rootID \<and> db' = fold (upsert_proof (\<le>)) (proof_rows db idn' rootID files) db"
        using run Inr Some by (simp add: handleCapturedProofs_def split: if_splits option.splits prod.splits)
      then show thesis using that by blast
    next
      case None
      have "db' = db" using run Inr None by (simp add: handleCapturedProofs_def)
      then show thesis by (rule that(1))
    qed
  next
    case (Inl e)
    have "db' = db" using run Inl by (cases e) (simp add: handleCapturedProofs_def)
    then show thesis by (rule that(1))
  qed
  then show ?thesis
  proof cases
    case (2 idn' files)
    have "announced root db db'"
      unfolding 2(2) by (rule upserts_announced[OF bootstrap.proof_upsert_axioms]) (use 2(1) in \<open>auto simp: proof_rows_def live_root_def list_ex_iff\<close>)
    moreover have "catalog_wf db' = catalog_wf db" unfolding 2(2) by (rule catalog_wf_cong) simp_all
    ultimately show ?thesis using wf by simp
  qed (use wf in simp)
qed

lemma advance_other:
  assumes ok: "feed_ok db" and adv: "advanceCatalogChanges db root = (n, pend, db')"
  shows "f \<in> set (file_catalog db) \<Longrightarrow> fc_root f \<noteq> root \<Longrightarrow> file_revision db' (fc_id f) = file_revision db (fc_id f)"
    "f \<in> set (file_catalog db) \<Longrightarrow> fc_root f \<noteq> root \<Longrightarrow> queued db (fc_id f) \<Longrightarrow> queued db' (fc_id f)"
    "r \<noteq> root \<Longrightarrow> revision_of db' r = revision_of db r"
proof -
  obtain ids batch where P: "batch = take 2000 (root_outbox db root)" "set ids = ob_file ` set batch"
    "distinct (map ch_file (catalog_file_changes db'))"
    "\<And>c. c \<in> set (catalog_file_changes db') \<longleftrightarrow> (c \<in> set (catalog_file_changes db) \<and> ch_file c \<notin> set ids)
       \<or> (\<exists>j<length ids. c = \<lparr>ch_root = root, ch_file = ids ! j, ch_revision = revision_of db root + int j + 1\<rparr>)"
    "catalog_change_outbox db' = filter (\<lambda>x. ob_id x \<notin> ob_id ` set batch) (catalog_change_outbox db)"
    "\<And>r. r \<noteq> root \<Longrightarrow> revision_of db' r = revision_of db r"
    using advance_rows[OF ok adv] by metis
  then show "r \<noteq> root \<Longrightarrow> revision_of db' r = revision_of db r" by blast
  have sub: "x \<in> set (catalog_change_outbox db) \<and> ob_root x = root" if "x \<in> set batch" for x
    using that P(1) by (auto simp: root_outbox_set dest: in_set_takeD)
  have owner: "ob_root x = fc_root f" if "x \<in> set (catalog_change_outbox db)" "ob_file x = fc_id f" "f \<in> set (file_catalog db)" for x f
    using feed_okD(5)[OF ok that(1)] catalog_id_unique[OF ok _ that(3)] that(2) by metis
  show "file_revision db' (fc_id f) = file_revision db (fc_id f)" if f: "f \<in> set (file_catalog db)" "fc_root f \<noteq> root"
  proof -
    have out: "fc_id f \<notin> set ids" using P(2) sub owner[OF _ _ f(1)] f(2) by force
    show ?thesis
    proof (cases "\<exists>c\<in>set (catalog_file_changes db). ch_file c = fc_id f")
      case True
      then obtain c where c: "c \<in> set (catalog_file_changes db)" "ch_file c = fc_id f" by blast
      then have "c \<in> set (catalog_file_changes db')" using P(4) out by simp
      then show ?thesis using file_revision_mem[OF P(3)] file_revision_mem[OF feed_okD(2)[OF ok] c(1)] c(2) by metis
    next
      case none: False
      then have "\<forall>c\<in>set (catalog_file_changes db'). ch_file c \<noteq> fc_id f" using P(4) out nth_mem by fastforce
      then show ?thesis using none file_revision_none by metis
    qed
  qed
  show "queued db' (fc_id f)" if f: "f \<in> set (file_catalog db)" "fc_root f \<noteq> root" and q: "queued db (fc_id f)"
  proof -
    obtain x where x: "x \<in> set (catalog_change_outbox db)" "ob_file x = fc_id f" using q by (auto simp: queued_def)
    have "ob_id x \<notin> ob_id ` set batch"
    proof
      assume "ob_id x \<in> ob_id ` set batch"
      then obtain y where y: "y \<in> set batch" "ob_id y = ob_id x" by auto
      then have "y = x" using sub[OF y(1)] feed_okD(6)[OF ok] x(1) by (auto simp: distinct_map inj_on_def)
      then show False using sub[OF y(1)] owner[OF x f(1)] f(2) by simp
    qed
    then show ?thesis using x P(5) by (auto simp: queued_def)
  qed
qed

lemma advance_follows:
  assumes ok: "feed_ok db" and fol: "follows db idn acls root view r" and adv: "advanceCatalogChanges db root' = (n, pend, db')"
  shows "follows db' idn acls root view r"
proof -
  note T = advance_tables[OF adv]
  have entry: "head_entry db' = head_entry db" by (rule head_entry_cong[OF T(2,3)])
  show ?thesis
proof (cases "root' = root")
  case True
  note A = advance_revision[OF ok adv, unfolded True]
  have r: "r \<le> revision_of db root" using fol by (simp add: follows_def)
  have "queued db' (fc_id f) \<or> r < file_revision db' (fc_id f) \<or> view (fc_path f) = head_entry db (id_org idn) (id_user idn) f"
    if "f \<in> set (file_catalog db)" "shown acls root f" for f
    using fol that A(4,5)[of "fc_id f"] r unfolding follows_def by force
  then show ?thesis using fol A(1,2) unfolding follows_def entry T(1) by auto
next
  case False
  have "queued db' (fc_id f) \<or> r < file_revision db' (fc_id f) \<or> view (fc_path f) = head_entry db (id_org idn) (id_user idn) f"
    if f: "f \<in> set (file_catalog db)" "shown acls root f" for f
    using fol f advance_other(1,2)[OF ok adv f(1)] False unfolding follows_def shown_def by metis
  then show ?thesis using fol advance_other(3)[OF ok adv] False unfolding follows_def entry T(1) by metis
qed
qed

section \<open>Runs\<close>

text \<open>
  A follower of one root and everything that can happen to the database around it: captures and
  proofs of any user, changed folder rules, the requests of other followers, and its own pages
  and resets.  \<open>fo_complete\<close> holds after a page that said there is no more, until the next write.
\<close>

record follower =
  fo_db :: database
  fo_view :: catalog_view
  fo_cursor :: string
  fo_complete :: bool

inductive feed_step :: "cursor_keys \<Rightarrow> identity \<Rightarrow> string \<Rightarrow> follower \<Rightarrow> follower \<Rightarrow> bool" for k idn root where
  capture_files: "handleRegisterFileVersions env (fo_db s) now who rootID input = (res, db') \<Longrightarrow> \<forall>x. env_uuid5 env x \<noteq> []
    \<Longrightarrow> feed_step k idn root s (s\<lparr>fo_db := db', fo_complete := False\<rparr>)"
| record_proofs: "handleCapturedProofs commits (fo_db s) who rootID proofs = (res', db')
    \<Longrightarrow> feed_step k idn root s (s\<lparr>fo_db := db', fo_complete := False\<rparr>)"
| add_rule: "handleCreateACL (fo_db s) newID who rootID rule = (res'', db') \<Longrightarrow> feed_step k idn root s (s\<lparr>fo_db := db', fo_complete := False\<rparr>)"
| drop_rule: "handleDeleteACL (fo_db s) who rootID aclID = (res3, db') \<Longrightarrow> feed_step k idn root s (s\<lparr>fo_db := db', fo_complete := False\<rparr>)"
| other_follower: "handleCatalogChanges k (fo_db s) who rootID limitArg cursor = (res4, db') \<Longrightarrow> feed_step k idn root s (s\<lparr>fo_db := db'\<rparr>)"
| page: "handleCatalogChanges k (fo_db s) (Some idn) root limitArg (fo_cursor s) = (FeedPage p, db')
    \<Longrightarrow> feed_step k idn root s \<lparr>fo_db = db', fo_view = put_entries (cp_files p) (fo_view s), fo_cursor = cp_cursor p, fo_complete = (\<not> cp_more p)\<rparr>"
| reset: "handleCatalogChanges k (fo_db s) (Some idn) root limitArg (fo_cursor s) = (FeedFail 409 c, db')
    \<Longrightarrow> feed_step k idn root s \<lparr>fo_db = db', fo_view = Map.empty, fo_cursor = [], fo_complete = False\<rparr>"

text \<open>The cursor stands for what the view holds, under the folder rules it was issued for.\<close>

definition user_rules :: "database \<Rightarrow> identity \<Rightarrow> string \<Rightarrow> root_acl list" where
  "user_rules db idn root = getACLsForUser db (id_org idn) root (id_user idn) (id_role idn)"

definition server_ok :: "database \<Rightarrow> identity \<Rightarrow> string \<Rightarrow> bool" where
  "server_ok db idn root \<longleftrightarrow> catalog_wf db \<and> feed_ok db \<and> live_root db (id_org idn) root \<and> (\<forall>acls. follows db idn acls root Map.empty 0)"

definition tracks :: "cursor_keys \<Rightarrow> identity \<Rightarrow> string \<Rightarrow> database \<Rightarrow> catalog_view \<Rightarrow> string \<Rightarrow> bool" where
  "tracks k idn root db view cursor \<longleftrightarrow>
    (\<exists>acls r. follows db idn acls root view r \<and> (cursor = [] \<and> r = 0 \<and> view = Map.empty \<or> cursor = feed_cursor k idn root acls r))"

definition follower_ok :: "cursor_keys \<Rightarrow> identity \<Rightarrow> string \<Rightarrow> follower \<Rightarrow> bool" where
  "follower_ok k idn root s \<longleftrightarrow> server_ok (fo_db s) idn root \<and> tracks k idn root (fo_db s) (fo_view s) (fo_cursor s)
     \<and> (fo_complete s \<longrightarrow> fo_view s = visible_catalog (fo_db s) idn (user_rules (fo_db s) idn root) root)"

lemma announced_server_ok:
  assumes "server_ok db idn root" "announced root db db'" "catalog_wf db'"
  shows "server_ok db' idn root"
proof -
  have "feed_ok db'" using assms announced_feed_ok[OF _ assms(2)] by (simp add: server_ok_def catalog_wf_def catalog_keys_def)
  moreover have "\<forall>acls. follows db' idn acls root Map.empty 0" using assms(1) announced_follows[OF _ assms(2)] by (simp add: server_ok_def)
  moreover have "live_root db' (id_org idn) root" using assms(1,2) by (simp add: server_ok_def live_root_def announced_def same_access_def)
  ultimately show ?thesis using assms(3) by (simp add: server_ok_def)
qed

lemma advance_server_ok:
  assumes ok: "server_ok db idn root" and adv: "advanceCatalogChanges db root' = (n, pend, db')"
  shows "server_ok db' idn root"
  using ok advance_feed_ok[OF _ adv] advance_follows[OF _ _ adv] catalog_wf_tables[OF advance_tables(1,2,6,7)[OF adv]]
  unfolding server_ok_def by (simp add: live_root_def advance_tables(4)[OF adv])

lemma feed_db:
  assumes "handleCatalogChanges k db who root limitArg cursor = (res, db')"
  shows "db' = db \<or> (\<exists>n pend. advanceCatalogChanges db root = (n, pend, db'))"
proof (cases "advanceCatalogChanges db root")
  case (fields n pend db1)
  then show ?thesis using assms unfolding handleCatalogChanges_def Let_def
    by (simp split: sum.splits prod.splits option.splits if_splits)
qed

lemma rules_kept:
  assumes "file_catalog db' = file_catalog db" "file_versions db' = file_versions db" "file_content_proofs db' = file_content_proofs db"
    "catalog_change_outbox db' = catalog_change_outbox db" "catalog_file_changes db' = catalog_file_changes db"
    "catalog_change_state db' = catalog_change_state db"
  shows "follows db' = follows db"
  by (intro ext) (simp add: follows_def assms head_entry_cong[OF assms(2,3)] queued_def file_revision_def revision_of_def)

lemma denied_same:
  assumes "remdups_adj (sort (denied_prefixes a)) = remdups_adj (sort (denied_prefixes b))"
  shows "shown a = shown b"
proof -
  have set: "set (denied_prefixes a) = set (denied_prefixes b)" using assms by (metis remdups_adj_set set_sort)
  have "checkPermission acls p perm \<longleftrightarrow> (\<forall>d\<in>set (denied_prefixes acls). checkPermission [\<lparr>acl_id = [], acl_org = [], acl_root = [],
      acl_prefix = d, acl_grant_to = [], acl_permission = ''none''\<rparr>] p perm)" for acls p perm
    by (induction acls) (auto simp: denied_prefixes_def)
  then show ?thesis by (intro ext) (simp add: shown_def set)
qed

lemma cursor_from_feed:
  assumes codec: "\<forall>c. ck_unmarshal k (ck_marshal k c) = Some c"
    and acc: "cursor_from k idn root access (feed_cursor k idn root acls r) = Some r'"
  shows "r' = r \<and> access = feed_access k idn acls"
  using acc codec unfolding cursor_from_def feed_cursor_def by (simp add: encode_nonempty decode_encode split: if_splits)

text \<open>An answered page, in terms of its parts.\<close>

lemma page_parts:
  assumes "handleCatalogChanges k db (Some idn) root limitArg cursor = (FeedPage p, db')"
  obtains limit r n pend rows where "1 \<le> limit" "cursor_from k idn root (feed_access k idn (user_rules db idn root)) cursor = Some r"
    "advanceCatalogChanges db root = (n, pend, db')" "r \<le> n" "rows = change_rows db' idn root r n"
    "p = \<lparr>cp_files = filter (\<lambda>e. checkPermission (user_rules db idn root) (ce_path e) ''write'') (map snd (page_rows limit rows)),
       cp_cursor = feed_cursor k idn root (user_rules db idn root) (page_end limit rows n), cp_more = pend \<or> limit < int (length rows)\<rparr>"
proof -
  have i: "captureIdentity db (Some idn) root = Inr idn"
    using assms by (auto simp: handleCatalogChanges_def captureIdentity_def split: option.splits if_splits)
  obtain limit where l: "page_limit limitArg = Some limit" using assms i by (auto simp: handleCatalogChanges_def split: option.splits)
  obtain r where r: "cursor_from k idn root (feed_access k idn (user_rules db idn root)) cursor = Some r"
    using assms i l by (auto simp: handleCatalogChanges_def user_rules_def Let_def split: option.splits)
  obtain n pend db1 where a: "advanceCatalogChanges db root = (n, pend, db1)" by (cases "advanceCatalogChanges db root")
  have rn: "r \<le> n" using assms i l r a by (auto simp: handleCatalogChanges_def user_rules_def Let_def split: if_splits)
  note H = handleCatalogChanges_page[OF i user_rules_def[of db idn root] l r a rn refl]
  have "db1 = db'" using H assms by simp
  with that[OF conjunct1[OF page_limit_pos[OF l]] r _ rn refl] a H assms show thesis by simp
qed

text \<open>A cursor that the server accepts stands for the view under the current folder rules.\<close>

lemma tracks_accepted:
  assumes srv: "server_ok db idn root" and trk: "tracks k idn root db view cursor"
    and codec: "\<forall>c. ck_unmarshal k (ck_marshal k c) = Some c"
    and inj: "\<forall>role d d'. ck_access k role d = ck_access k role d' \<longrightarrow> d = d'"
    and acc: "cursor_from k idn root (feed_access k idn acls) cursor = Some r"
  shows "follows db idn acls root view r" "cursor = [] \<or> cursor = feed_cursor k idn root acls r"
proof -
  obtain acls0 r0 where F: "follows db idn acls0 root view r0" "cursor = [] \<and> r0 = 0 \<and> view = Map.empty \<or> cursor = feed_cursor k idn root acls0 r0"
    using trk unfolding tracks_def by blast
  have "follows db idn acls root view r \<and> (cursor = [] \<or> cursor = feed_cursor k idn root acls r)"
    using F(2)
  proof
    assume "cursor = [] \<and> r0 = 0 \<and> view = Map.empty"
    then show ?thesis using acc srv by (simp add: cursor_from_def server_ok_def)
  next
    assume c: "cursor = feed_cursor k idn root acls0 r0"
    then have eq: "r = r0" "feed_access k idn acls = feed_access k idn acls0" using cursor_from_feed[OF codec] acc by auto
    moreover from this have "shown acls = shown acls0" using inj by (intro denied_same) (simp add: feed_access_def)
    ultimately show ?thesis using F(1) c by (simp add: follows_def feed_cursor_def)
  qed
  then show "follows db idn acls root view r" "cursor = [] \<or> cursor = feed_cursor k idn root acls r" by blast+
qed

lemma page_kept:
  assumes ok: "follower_ok k idn root s" and codec: "\<forall>c. ck_unmarshal k (ck_marshal k c) = Some c"
    and inj: "\<forall>role d d'. ck_access k role d = ck_access k role d' \<longrightarrow> d = d'"
    and run: "handleCatalogChanges k (fo_db s) (Some idn) root limitArg (fo_cursor s) = (FeedPage p, db')"
  shows "follower_ok k idn root \<lparr>fo_db = db', fo_view = put_entries (cp_files p) (fo_view s), fo_cursor = cp_cursor p, fo_complete = (\<not> cp_more p)\<rparr>"
proof -
  let ?acls = "user_rules (fo_db s) idn root"
  obtain limit r n pend rows where P: "1 \<le> limit" "cursor_from k idn root (feed_access k idn ?acls) (fo_cursor s) = Some r"
    "advanceCatalogChanges (fo_db s) root = (n, pend, db')" "r \<le> n" "rows = change_rows db' idn root r n"
    "p = \<lparr>cp_files = filter (\<lambda>e. checkPermission ?acls (ce_path e) ''write'') (map snd (page_rows limit rows)),
       cp_cursor = feed_cursor k idn root ?acls (page_end limit rows n), cp_more = pend \<or> limit < int (length rows)\<rparr>"
    using page_parts[OF run] by blast
  have srv: "server_ok (fo_db s) idn root" and trk: "tracks k idn root (fo_db s) (fo_view s) (fo_cursor s)" using ok by (simp_all add: follower_ok_def)
  note fol = tracks_accepted(1)[OF srv trk codec inj P(2)]
  have wf: "catalog_wf (fo_db s)" and fok: "feed_ok (fo_db s)" and live: "live_root (fo_db s) (id_org idn) root" using srv by (auto simp: server_ok_def)
  note S = page_step[OF wf fok live fol P(1) P(3) P(5) refl refl]
  have rules: "user_rules db' idn root = ?acls" using acls_access[OF advance_tables(5)[OF P(3)]] by (simp add: user_rules_def)
  have "put_entries (cp_files p) (fo_view s) = visible_catalog db' idn ?acls root" if "\<not> cp_more p"
    using that S(3,6) advance_revision(6)[OF fok P(3)] P(6)
    by (intro follows_complete[OF S(2) advance_feed_ok[OF fok P(3)]]) auto
  moreover have "tracks k idn root db' (put_entries (cp_files p) (fo_view s)) (cp_cursor p)" using S(3) P(6) unfolding tracks_def by auto
  ultimately show ?thesis
    using advance_server_ok[OF srv P(3)] rules P(6) by (simp add: follower_ok_def)
qed

lemma follower_ok_db:
  assumes ok: "follower_ok k idn root s" and srv: "server_ok db' idn root"
    and fol: "\<And>acls r view. follows (fo_db s) idn acls root view r \<Longrightarrow> follows db' idn acls root view r"
  shows "tracks k idn root db' (fo_view s) (fo_cursor s)" "follower_ok k idn root (s\<lparr>fo_db := db', fo_complete := False\<rparr>)"
proof -
  show "tracks k idn root db' (fo_view s) (fo_cursor s)" using ok fol unfolding follower_ok_def tracks_def by blast
  then show "follower_ok k idn root (s\<lparr>fo_db := db', fo_complete := False\<rparr>)" using srv by (simp add: follower_ok_def)
qed

lemma rule_kept:
  assumes ok: "follower_ok k idn root s" and db: "db' = fo_db s \<or> (\<exists>rules. db' = (fo_db s)\<lparr>root_acls := rules\<rparr>)"
  shows "follower_ok k idn root (s\<lparr>fo_db := db', fo_complete := False\<rparr>)"
proof -
  have fol: "follows db' = follows (fo_db s)" using db by (auto intro!: rules_kept)
  have "catalog_wf db' = catalog_wf (fo_db s)" "feed_ok db' = feed_ok (fo_db s)" "live_root db' = live_root (fo_db s)"
    using db catalog_wf_tables[of db' "fo_db s"] by (auto simp: feed_ok_def revision_of_def live_root_def intro!: ext)
  then have "server_ok db' idn root" using ok fol by (simp add: follower_ok_def server_ok_def)
  then show ?thesis using follower_ok_db(2)[OF ok] fol by simp
qed

lemma handleCreateACL_db: "handleCreateACL db newID who rootID body = (res, db') \<Longrightarrow> db' = db \<or> (\<exists>rules. db' = db\<lparr>root_acls := rules\<rparr>)"
  unfolding handleCreateACL_def CreateACL_def Let_def by (simp split: if_splits sum.splits option.splits prod.splits) blast+

lemma handleDeleteACL_db: "handleDeleteACL db who rootID aclID = (res, db') \<Longrightarrow> db' = db \<or> (\<exists>rules. db' = db\<lparr>root_acls := rules\<rparr>)"
  unfolding handleDeleteACL_def DeleteACL_def by (simp split: if_splits option.splits) blast+

lemma visible_catalog_cong:
  assumes "file_catalog db' = file_catalog db" "file_versions db' = file_versions db" "file_content_proofs db' = file_content_proofs db"
  shows "visible_catalog db' = visible_catalog db"
  by (intro ext) (simp only: visible_catalog_def file_at_def assms(1) head_entry_cong[OF assms(2,3)])

lemma other_kept:
  assumes ok: "follower_ok k idn root s" and run: "handleCatalogChanges k (fo_db s) who rootID limitArg cursor = (res, db')"
  shows "follower_ok k idn root (s\<lparr>fo_db := db'\<rparr>)"
  using feed_db[OF run]
proof
  assume "\<exists>n pend. advanceCatalogChanges (fo_db s) rootID = (n, pend, db')"
  then obtain n pend where adv: "advanceCatalogChanges (fo_db s) rootID = (n, pend, db')" by blast
  note T = advance_tables[OF adv]
  have srv: "server_ok (fo_db s) idn root" using ok by (simp add: follower_ok_def)
  then have "\<And>acls r view. follows (fo_db s) idn acls root view r \<Longrightarrow> follows db' idn acls root view r"
    using advance_follows[OF _ _ adv] by (simp add: server_ok_def)
  from follower_ok_db(1)[OF ok advance_server_ok[OF srv adv] this] have "tracks k idn root db' (fo_view s) (fo_cursor s)" .
  moreover have "user_rules db' idn root = user_rules (fo_db s) idn root" "visible_catalog db' = visible_catalog (fo_db s)"
    using acls_access[OF T(5)] visible_catalog_cong[OF T(1-3)] by (simp_all add: user_rules_def)
  ultimately show ?thesis using ok advance_server_ok[OF srv adv] unfolding follower_ok_def by simp
qed (use ok in simp)

lemma step_kept:
  assumes "feed_step k idn root s s'" "follower_ok k idn root s" "\<forall>c. ck_unmarshal k (ck_marshal k c) = Some c"
    "\<forall>role d d'. ck_access k role d = ck_access k role d' \<longrightarrow> d = d'"
  shows "follower_ok k idn root s'"
proof -
  have srv: "server_ok (fo_db s) idn root" using assms(2) by (simp add: follower_ok_def)
  then have wf: "catalog_wf (fo_db s)" by (simp add: server_ok_def)
  from assms(1) show ?thesis
proof (cases rule: feed_step.cases)
  case (capture_files env now who rootID input res db')
  note A = handleRegister_announced[OF capture_files(2) wf capture_files(3), of root]
  show ?thesis
    unfolding capture_files(1) using A announced_server_ok[OF srv] announced_follows by (intro follower_ok_db(2)[OF assms(2)]) blast+
next
  case (record_proofs commits who rootID proofs res' db')
  note A = handleCapturedProofs_announced[OF record_proofs(2) wf, of root]
  show ?thesis
    unfolding record_proofs(1) using A announced_server_ok[OF srv] announced_follows by (intro follower_ok_db(2)[OF assms(2)]) blast+
next
  case (reset limitArg c db')
  have "follower_ok k idn root (s\<lparr>fo_db := db'\<rparr>)" using other_kept[OF assms(2) reset(2)] .
  then have "server_ok db' idn root" by (simp add: follower_ok_def)
  then show ?thesis unfolding reset(1) by (auto simp: follower_ok_def server_ok_def tracks_def)
next
  case (page limitArg p db')
  show ?thesis unfolding page(1) by (rule page_kept[OF assms(2-4) page(2)])
next
  case (other_follower who rootID limitArg cursor res4 db')
  show ?thesis unfolding other_follower(1) by (rule other_kept[OF assms(2) other_follower(2)])
next
  case (add_rule newID who rootID rule res'' db')
  show ?thesis unfolding add_rule(1) by (rule rule_kept[OF assms(2) handleCreateACL_db[OF add_rule(2)]])
next
  case (drop_rule who rootID aclID res3 db')
  show ?thesis unfolding drop_rule(1) by (rule rule_kept[OF assms(2) handleDeleteACL_db[OF drop_rule(2)]])
qed
qed


section \<open>A concrete run\<close>

text \<open>A cursor codec: strings are packed with a marker before every character.\<close>

fun pack_text :: "string \<Rightarrow> string" where
  "pack_text [] = ''0''"
| "pack_text (c # cs) = CHR ''1'' # c # pack_text cs"

fun unpack_text :: "string \<Rightarrow> string \<Rightarrow> string list" where
  "unpack_text cur [] = []"
| "unpack_text cur (x # rest) = (if x = CHR ''0'' then cur # unpack_text [] rest
     else case rest of [] \<Rightarrow> [] | c # rest' \<Rightarrow> unpack_text (cur @ [c]) rest')"

lemma unpack_pack: "unpack_text cur (pack_text s @ rest) = (cur @ s) # unpack_text [] rest"
  by (induction s arbitrary: cur) auto

lemma unpack_all: "unpack_text [] (concat (map pack_text ss)) = ss"
  by (induction ss) (auto simp: unpack_pack)

definition sample_keys :: cursor_keys where
  "sample_keys = \<lparr>ck_marshal = (\<lambda>c. concat (map pack_text [cu_root c, cu_org c, cu_user c, cu_access c,
       if cu_revision c < 0 then replicate (nat (- cu_revision c)) CHR ''-'' else replicate (nat (cu_revision c)) CHR ''+'']))
   , ck_unmarshal = (\<lambda>raw. case unpack_text [] raw of
        [a, b, c, d, e] \<Rightarrow> Some \<lparr>cu_root = a, cu_org = b, cu_user = c, cu_access = d,
          cu_revision = (if e \<noteq> [] \<and> hd e = CHR ''-'' then - int (length e) else int (length e))\<rparr>
      | _ \<Rightarrow> None)
   , ck_mac = (\<lambda>raw. ''m''), ck_access = (\<lambda>role denied. concat (map pack_text denied))\<rparr>"

lemma sample_keys_codec: "\<forall>c. ck_unmarshal sample_keys (ck_marshal sample_keys c) = Some c"
proof
  fix c :: catalog_cursor
  show "ck_unmarshal sample_keys (ck_marshal sample_keys c) = Some c"
    unfolding sample_keys_def cursor_keys.select_convs unpack_all by (cases c) (auto split: if_splits)
qed

lemma sample_keys_access: "\<forall>role d d'. ck_access sample_keys role d = ck_access sample_keys role d' \<longrightarrow> d = d'"
  unfolding sample_keys_def cursor_keys.select_convs using unpack_all by metis

definition sample_follower :: follower where
  "sample_follower = \<lparr>fo_db = sample_capture_db, fo_view = Map.empty, fo_cursor = [], fo_complete = False\<rparr>"

lemma sample_server_ok: "server_ok sample_capture_db sample_owner ''r1''"
proof -
  have tables: "file_catalog sample_capture_db = []" "catalog_file_changes sample_capture_db = []" "catalog_change_outbox sample_capture_db = []"
    "catalog_change_state sample_capture_db = []" by code_simp+
  have "live_root sample_capture_db (id_org sample_owner) ''r1''" by code_simp
  then show ?thesis using sample_capture_wf by (simp add: server_ok_def feed_ok_def follows_def tables revision_of_def)
qed

abbreviation sample_page :: "feed_response \<times> database" where
  "sample_page \<equiv> handleCatalogChanges sample_keys (snd sample_accept) (Some sample_owner) ''r1'' [] []"

lemma sample_page_run: "case fst sample_page of FeedPage p \<Rightarrow> \<not> cp_more p \<and> map ce_path (cp_files p) = [''a/b.txt''] | _ \<Rightarrow> False"
  by code_simp


end
