(* ===== verification/Catalog_Client.thy ===== *)
theory Catalog_Client
  imports Feed_Convergence
begin

text \<open>
  The client side of the catalog: \<^verbatim>\<open>cmd/pufferfs/capture_catalog_cache.go\<close> (a local copy of the remote
  catalog, kept current through the change feed) and \<^verbatim>\<open>walkCapturedFiles\<close> of
  \<^verbatim>\<open>capture_client.go\<close> (the complete listing).  The store of the cache (bbolt) is a key-ordered
  association list per bucket and its transactions succeed; requests go to a parameter, which
  the theorems instantiate with the server's handlers.
\<close>

section \<open>Cached files\<close>

definition validContentHash :: "string \<Rightarrow> bool" where
  "validContentHash value \<longleftrightarrow> (let raw = trim_prefix value ''sha256:'' in
     has_prefix value ''sha256:'' \<and> hex_decodes raw \<and> length raw div 2 = 32)"

definition validCachedCatalogFile :: "captured_file_head \<Rightarrow> bool" where
  "validCachedCatalogFile e \<longleftrightarrow> ce_path e \<noteq> ''.'' \<and> is_local (ce_path e) \<and> path_clean (ce_path e) = ce_path e
     \<and> ce_file e \<noteq> [] \<and> ce_version e \<noteq> [] \<and> ce_sequence e > 0 \<and> ce_size e \<ge> 0 \<and> (ce_deleted e \<or> validContentHash (ce_hash e))"

section \<open>The cache\<close>

record catalog_cache =
  cc_identity :: "string option"
  cc_files :: "(string \<times> captured_file_head) list"
  cc_cursor :: string
  cc_pending :: "string list"
  cc_policy :: "string option"

definition openCapturedCatalog :: "string \<Rightarrow> string \<Rightarrow> catalog_cache \<Rightarrow> string + catalog_cache" where
  "openCapturedCatalog baseURL rootID cache0 =
    (let identity = ''1'' @ [nul] @ baseURL @ [nul] @ rootID in
     if cc_identity cache0 \<noteq> None \<and> cc_identity cache0 \<noteq> Some identity then Inl ''remote catalog cache identity mismatch''
     else Inr (cache0\<lparr>cc_identity := Some identity\<rparr>))"

text \<open>The digest of the ignore policy (\<open>stamp\<close>) decides whether cached paths have to be considered again.\<close>

definition policyStamp :: "catalog_cache \<Rightarrow> string \<Rightarrow> bool" where
  "policyStamp cache stamp \<longleftrightarrow> cc_policy cache \<noteq> Some stamp"

definition savePolicy :: "catalog_cache \<Rightarrow> string \<Rightarrow> catalog_cache" where
  "savePolicy cache stamp = cache\<lparr>cc_policy := Some stamp, cc_pending := []\<rparr>"

definition insert_path :: "string \<Rightarrow> string list \<Rightarrow> string list" where
  "insert_path p ps = (if p \<in> set ps then ps else ps @ [p])"

text \<open>The transaction that stores a page with its cursor; None where a file of the page is invalid.\<close>

definition store_page :: "catalog_cache \<Rightarrow> changes_page \<Rightarrow> string list \<Rightarrow> (catalog_cache \<times> string list) option" where
  "store_page cache page changed =
    (if \<not> list_all validCachedCatalogFile (cp_files page) then None
     else Some (cache\<lparr>cc_files := fold (\<lambda>e. AList.update (ce_path e) e) (cp_files page) (cc_files cache),
                      cc_pending := fold (\<lambda>e. insert_path (ce_path e)) (cp_files page) (cc_pending cache),
                      cc_cursor := cp_cursor page\<rparr>,
                fold (\<lambda>e. insert_path (ce_path e)) (cp_files page) changed))"

datatype refresh_error = RequestFailed | InvalidChanges | InvalidChangedFile | DidNotAdvance

partial_function (option) refresh_loop ::
  "(string \<Rightarrow> 's \<Rightarrow> feed_response option \<times> 's) \<Rightarrow> catalog_cache \<Rightarrow> string \<Rightarrow> string list \<Rightarrow> bool \<Rightarrow> 's
    \<Rightarrow> ((refresh_error + string list \<times> bool) \<times> catalog_cache \<times> 's) option" where
  "refresh_loop fetch cache cursor changed reset s =
    (case fetch cursor s of
       (None, s') \<Rightarrow> Some (Inl RequestFailed, cache, s')
     | (Some (FeedFail code c), s') \<Rightarrow>
         if reset \<or> code \<noteq> 409 \<or> c \<noteq> ''catalog_cursor_reset'' then Some (Inl RequestFailed, cache, s')
         else refresh_loop fetch (cache\<lparr>cc_files := [], cc_pending := [], cc_cursor := []\<rparr>) [] [] True s'
     | (Some (FeedPage page), s') \<Rightarrow>
         if cp_cursor page = [] \<or> length (cp_cursor page) > 2048 \<or> length (cp_files page) > 500 then Some (Inl InvalidChanges, cache, s')
         else (case (if cp_files page \<noteq> [] \<or> cp_cursor page \<noteq> cursor then store_page cache page changed else Some (cache, changed)) of
             None \<Rightarrow> Some (Inl InvalidChangedFile, cache, s')
           | Some (cache', changed') \<Rightarrow>
               if \<not> cp_more page then Some (Inr (changed', reset), cache', s')
               else if cp_cursor page = cursor then Some (Inl DidNotAdvance, cache', s')
               else refresh_loop fetch cache' (cp_cursor page) changed' reset s'))"

definition refresh ::
  "(string \<Rightarrow> 's \<Rightarrow> feed_response option \<times> 's) \<Rightarrow> catalog_cache \<Rightarrow> 's
    \<Rightarrow> ((refresh_error + string list \<times> bool) \<times> catalog_cache \<times> 's) option" where
  "refresh fetch cache s = refresh_loop fetch cache (cc_cursor cache) (cc_pending cache) False s"

text \<open>
  \<^verbatim>\<open>walk\<close> without paths visits every record in key order; with paths, the record at each path and then,
  from a cursor at \<open>path/\<close>, the records while their keys keep the prefix.
\<close>

definition bucket_order :: "(string \<times> captured_file_head) list \<Rightarrow> (string \<times> captured_file_head) list" where
  "bucket_order files = sort_key fst files"

definition seek_prefix :: "(string \<times> captured_file_head) list \<Rightarrow> string \<Rightarrow> (string \<times> captured_file_head) list" where
  "seek_prefix files pre = takeWhile (\<lambda>x. has_prefix (fst x) pre) (dropWhile (\<lambda>x. fst x < pre) (bucket_order files))"

definition walk_records :: "catalog_cache \<Rightarrow> string list option \<Rightarrow> (string \<times> captured_file_head) list" where
  "walk_records cache paths = (case paths of
      None \<Rightarrow> bucket_order (cc_files cache)
    | Some ps \<Rightarrow> concat (map (\<lambda>p. (case map_of (cc_files cache) p of None \<Rightarrow> [] | Some e \<Rightarrow> [(p, e)]) @ seek_prefix (cc_files cache) (p @ [slash])) ps))"

fun visit_all :: "('v \<Rightarrow> captured_file_head \<Rightarrow> string + 'v) \<Rightarrow> (string \<times> captured_file_head) list \<Rightarrow> 'v \<Rightarrow> string + 'v" where
  "visit_all visit [] v = Inr v"
| "visit_all visit ((p, e) # xs) v =
    (if \<not> validCachedCatalogFile e \<or> ce_path e \<noteq> p then Inl ''invalid cached catalog record''
     else case visit v e of Inl err \<Rightarrow> Inl err | Inr v' \<Rightarrow> visit_all visit xs v')"

definition catalog_walk :: "catalog_cache \<Rightarrow> string list option \<Rightarrow> ('v \<Rightarrow> captured_file_head \<Rightarrow> string + 'v) \<Rightarrow> 'v \<Rightarrow> string + 'v" where
  "catalog_walk cache paths visit v = visit_all visit (walk_records cache paths) v"

section \<open>The complete listing\<close>

fun visit_page :: "('v \<Rightarrow> captured_file_head \<Rightarrow> string + 'v) \<Rightarrow> string \<Rightarrow> captured_file_head list \<Rightarrow> 'v \<Rightarrow> string + string \<times> 'v" where
  "visit_page visit prev [] v = Inr (prev, v)"
| "visit_page visit prev (e # es) v =
    (if ce_file e \<le> prev \<or> ce_path e = [] \<or> ce_version e = [] \<or> ce_sequence e < 1 then Inl ''invalid or non-advancing captured catalog''
     else case visit v e of Inl err \<Rightarrow> Inl err | Inr v' \<Rightarrow> visit_page visit (ce_file e) es v')"

partial_function (option) walkCapturedFiles ::
  "(string \<Rightarrow> captured_page option) \<Rightarrow> ('v \<Rightarrow> captured_file_head \<Rightarrow> string + 'v) \<Rightarrow> string \<Rightarrow> 'v \<Rightarrow> (string + 'v) option" where
  "walkCapturedFiles fetch visit cursor v =
    (case fetch cursor of
       None \<Rightarrow> Some (Inl ''request failed'')
     | Some page \<Rightarrow>
        (case visit_page visit cursor (pg_files page) v of
           Inl err \<Rightarrow> Some (Inl err)
         | Inr (prev, v') \<Rightarrow>
            if pg_next page = [] then Some (Inr v')
            else if pg_next page \<le> cursor \<or> pg_next page < prev then Some (Inl ''non-advancing captured catalog cursor'')
            else walkCapturedFiles fetch visit (pg_next page) v'))"

section \<open>Refreshing against the server\<close>

lemma store_files: "map_of (fold (\<lambda>e. AList.update (ce_path e) e) es files) = put_entries es (map_of files)"
  unfolding put_entries_def by (induction es arbitrary: files) (simp_all add: update_conv')

lemma store_paths [simp]: "set (fold (\<lambda>e. insert_path (ce_path e)) es ps) = set ps \<union> ce_path ` set es"
  by (induction es arbitrary: ps) (auto simp: insert_path_def)

text \<open>The server as a client of the feed sees it.\<close>

definition feed_fetch :: "cursor_keys \<Rightarrow> identity \<Rightarrow> string \<Rightarrow> string \<Rightarrow> database \<Rightarrow> feed_response option \<times> database" where
  "feed_fetch k idn root cursor db = (case handleCatalogChanges k db (Some idn) root ''500'' cursor of (r, db') \<Rightarrow> (Some r, db'))"

text \<open>No revision is ever handed out beyond this one until somebody writes.\<close>

definition feed_bound :: "database \<Rightarrow> string \<Rightarrow> int" where
  "feed_bound db root = revision_of db root + int (length (root_outbox db root))"

lemma advance_bound:
  assumes ok: "feed_ok db" and adv: "advanceCatalogChanges db root = (n, pend, db')"
  shows "n \<le> feed_bound db root" "feed_bound db' root \<le> feed_bound db root"
proof -
  obtain ids batch where P: "batch = take 2000 (root_outbox db root)" "distinct ids" "set ids = ob_file ` set batch"
    "n = revision_of db root + int (length ids)" 
    "catalog_change_outbox db' = filter (\<lambda>x. ob_id x \<notin> ob_id ` set batch) (catalog_change_outbox db)" "revision_of db' root = n"
    using advance_rows[OF ok adv] by metis
  have "length ids = card (ob_file ` set batch)" using P(2,3) by (metis distinct_card)
  also have "\<dots> \<le> length batch" by (metis card_image_le card_length finite_set le_trans)
  finally have ids: "length ids \<le> length batch" .
  let ?in = "\<lambda>x. ob_id x \<in> ob_id ` set batch" and ?all = "filter (\<lambda>x. ob_root x = root) (catalog_change_outbox db)"
  have len: "length (root_outbox db root) = length ?all" by (simp add: root_outbox_def)
  have "distinct (catalog_change_outbox db)" using feed_okD(6)[OF ok] by (simp add: distinct_map)
  then have "distinct batch" using P(1) by (simp add: root_outbox_def)
  moreover have "set batch \<subseteq> set (filter ?in ?all)" using P(1) set_take_subset[of 2000 "root_outbox db root"] by (auto simp: root_outbox_set)
  ultimately have "length batch \<le> length (filter ?in ?all)" by (metis card_length card_mono distinct_card finite_set le_trans)
  moreover have "length (root_outbox db' root) = length (filter (\<lambda>x. \<not> ?in x) ?all)"
    by (simp add: root_outbox_def P(5) conj_commute cong: filter_cong)
  moreover have "length (filter ?in ?all) + length (filter (\<lambda>x. \<not> ?in x) ?all) = length ?all" by (rule sum_length_filter_compl)
  ultimately have "length batch + length (root_outbox db' root) \<le> length (root_outbox db root)" using len by linarith
  then show "n \<le> feed_bound db root" "feed_bound db' root \<le> feed_bound db root"
    using ids by (simp_all add: feed_bound_def P(4,6))
qed

lemma captureIdentity_access:
  assumes "same_access db db'"
  shows "captureIdentity db' = captureIdentity db"
proof -
  have same: "roots db' = roots db" "root_grants db' = root_grants db" "group_members db' = group_members db" using assms by (simp_all add: same_access_def)
  have "grant_applies db' = grant_applies db" by (intro ext) (simp only: grant_applies_def same)
  then have "grants_of db' = grants_of db" by (intro ext) (simp only: grants_of_def same)
  then have "access_of db' = access_of db" by (intro ext) (simp only: access_of_def)
  then have "accessibleRoots db' = accessibleRoots db" by (intro ext) (simp only: accessibleRoots_def same)
  then show ?thesis by (intro ext) (simp only: captureIdentity_def permitted_root_def rootForPermission_def)
qed

lemma feed_cursor_inj:
  assumes codec: "\<forall>c. ck_unmarshal k (ck_marshal k c) = Some c" and "feed_cursor k idn root acls r = feed_cursor k idn root acls r'"
    and "length (feed_cursor k idn root acls r) \<le> 2048"
  shows "r = r'"
  using assms decode_encode unfolding feed_cursor_def by (metis catalog_cursor.ext_inject option.inject)

text \<open>What one request of the loop brings, for a follower at revision \<open>r\<close>.\<close>

lemma feed_fetch_page:
  assumes srv: "server_ok db idn root" and cid: "captureIdentity db (Some idn) root = Inr idn" and acls: "acls = user_rules db idn root"
    and fol: "follows db idn acls root view r" and acc: "cursor_from k idn root (feed_access k idn acls) cursor = Some r"
  obtains page db' r' where "feed_fetch k idn root cursor db = (Some (FeedPage page), db')" "cp_cursor page = feed_cursor k idn root acls r'"
    "follows db' idn acls root (put_entries (cp_files page) view) r'" "cp_more page \<Longrightarrow> r < r'"
    "\<not> cp_more page \<Longrightarrow> put_entries (cp_files page) view = visible_catalog db' idn acls root"
    "length (cp_files page) \<le> 500" "r' \<le> feed_bound db root" "feed_bound db' root \<le> feed_bound db root" "server_ok db' idn root"
    "file_catalog db' = file_catalog db" "head_entry db' = head_entry db" "same_access db db'"
    "\<And>e. e \<in> set (cp_files page) \<Longrightarrow> \<exists>f\<in>set (file_catalog db). shown acls root f \<and> head_entry db (id_org idn) (id_user idn) f = Some e"
proof -
  obtain n pend db' where adv: "advanceCatalogChanges db root = (n, pend, db')" by (cases "advanceCatalogChanges db root")
  have wf: "catalog_wf db" and ok: "feed_ok db" and live: "live_root db (id_org idn) root" using srv by (auto simp: server_ok_def)
  have lim: "page_limit ''500'' = Some 500" by code_simp
  let ?rows = "change_rows db' idn root r n"
  note S = page_step[OF wf ok live fol _ adv refl refl refl, of 500] and T = advance_tables[OF adv] and B = advance_bound[OF ok adv]
  define page where "page = \<lparr>cp_files = filter (\<lambda>e. checkPermission acls (ce_path e) ''write'') (map snd (page_rows 500 ?rows)),
       cp_cursor = feed_cursor k idn root acls (page_end 500 ?rows n), cp_more = pend \<or> 500 < int (length ?rows)\<rparr>"
  have "handleCatalogChanges k db (Some idn) root ''500'' cursor = (FeedPage page, db')"
    unfolding page_def using S(1) by (intro handleCatalogChanges_page[OF cid acls[unfolded user_rules_def] lim acc adv _ refl]) simp
  then have "feed_fetch k idn root cursor db = (Some (FeedPage page), db')" by (simp add: feed_fetch_def)
  moreover have "follows db' idn acls root (put_entries (cp_files page) view) (page_end 500 ?rows n)" using S(3) by (simp add: page_def)
  moreover have "put_entries (cp_files page) view = visible_catalog db' idn acls root" if "\<not> cp_more page"
    using that S(2,3,6) advance_revision(6)[OF ok adv]
    by (intro follows_complete[OF _ advance_feed_ok[OF ok adv], where r = "page_end 500 ?rows n"]) (auto simp: page_def)
  moreover have "length (cp_files page) \<le> length (page_rows 500 ?rows)" by (simp add: page_def order_trans[OF length_filter_le])
  then have "length (cp_files page) \<le> 500" by (simp add: page_rows_def)
  moreover have "page_end 500 ?rows n \<le> feed_bound db root"
    using B(1) S(3) advance_revision(1)[OF ok adv] by (simp add: follows_def)
  moreover have "head_entry db' = head_entry db" by (rule head_entry_cong[OF T(2,3)])
  ultimately show thesis
    using that[of page db' "page_end 500 ?rows n"] S(4,5) B(2) advance_server_ok[OF srv adv] T(1,5) by (simp add: page_def)
qed

text \<open>The requirements of the loop on what the server stores: valid entries, and cursors that fit a URL.\<close>

definition feed_fits :: "cursor_keys \<Rightarrow> database \<Rightarrow> identity \<Rightarrow> string \<Rightarrow> root_acl list \<Rightarrow> int \<Rightarrow> bool" where
  "feed_fits k db idn root acls bound \<longleftrightarrow>
    (\<forall>x. 0 \<le> x \<and> x \<le> bound \<longrightarrow> length (feed_cursor k idn root acls x) \<le> 2048)
    \<and> (\<forall>f\<in>set (file_catalog db). shown acls root f \<longrightarrow> (case head_entry db (id_org idn) (id_user idn) f of None \<Rightarrow> True | Some e \<Rightarrow> validCachedCatalogFile e))"

definition refreshed :: "database \<Rightarrow> identity \<Rightarrow> string \<Rightarrow> catalog_cache \<Rightarrow> string list \<Rightarrow> catalog_cache \<Rightarrow> string list \<Rightarrow> bool" where
  "refreshed db idn root cache changed cache' changed' \<longleftrightarrow>
     map_of (cc_files cache') = visible_catalog db idn (user_rules db idn root) root \<and> set changed \<subseteq> set changed'
     \<and> (\<forall>p. map_of (cc_files cache') p \<noteq> map_of (cc_files cache) p \<longrightarrow> p \<in> set changed')
     \<and> (set (cc_pending cache) = set changed \<longrightarrow> set (cc_pending cache') = set changed')"

lemma refreshed_step:
  assumes last: "refreshed db1 idn root cache1 changed1 cache' changed'"
    and same: "visible_catalog db1 idn (user_rules db1 idn root) root = visible_catalog db idn (user_rules db idn root) root"
    and page: "set changed1 = set changed \<union> X" "set (cc_pending cache1) = set (cc_pending cache) \<union> X"
      "\<And>p. map_of (cc_files cache1) p \<noteq> map_of (cc_files cache) p \<Longrightarrow> p \<in> X"
  shows "refreshed db idn root cache changed cache' changed'"
  unfolding refreshed_def
proof (intro conjI allI impI)
  show "map_of (cc_files cache') = visible_catalog db idn (user_rules db idn root) root" using last same by (simp add: refreshed_def)
  show "set changed \<subseteq> set changed'" using last page(1) by (auto simp: refreshed_def)
  show "p \<in> set changed'" if "map_of (cc_files cache') p \<noteq> map_of (cc_files cache) p" for p
    using that last page(1) page(3)[of p] unfolding refreshed_def by (cases "map_of (cc_files cache') p = map_of (cc_files cache1) p") auto
  show "set (cc_pending cache') = set changed'" if "set (cc_pending cache) = set changed"
    using that last page(1,2) by (simp add: refreshed_def)
qed

lemma refresh_pages:
  assumes codec: "\<forall>c. ck_unmarshal k (ck_marshal k c) = Some c"
    and srv: "server_ok db idn root" and cid: "captureIdentity db (Some idn) root = Inr idn" and acls: "acls = user_rules db idn root"
    and fol: "follows db idn acls root (map_of (cc_files cache)) r" and acc: "cursor_from k idn root (feed_access k idn acls) cursor = Some r"
    and cur: "cursor = [] \<or> cursor = feed_cursor k idn root acls r" "cc_cursor cache = cursor" and fits: "feed_fits k db idn root acls (feed_bound db root)"
  shows "\<exists>changed' cache' db'. refresh_loop (feed_fetch k idn root) cache cursor changed rst db = Some (Inr (changed', rst), cache', db')
    \<and> refreshed db idn root cache changed cache' changed' \<and> visible_catalog db' idn acls root = visible_catalog db idn acls root
    \<and> server_ok db' idn root \<and> tracks k idn root db' (map_of (cc_files cache')) (cc_cursor cache')"
  using assms(2-)
proof (induction "nat (feed_bound db root - r)" arbitrary: db cache cursor changed r rule: less_induct)
  case less
  obtain page db1 r' where P: "feed_fetch k idn root cursor db = (Some (FeedPage page), db1)" "cp_cursor page = feed_cursor k idn root acls r'"
    "follows db1 idn acls root (put_entries (cp_files page) (map_of (cc_files cache))) r'" "cp_more page \<Longrightarrow> r < r'"
    "\<not> cp_more page \<Longrightarrow> put_entries (cp_files page) (map_of (cc_files cache)) = visible_catalog db1 idn acls root"
    "length (cp_files page) \<le> 500" "r' \<le> feed_bound db root" "feed_bound db1 root \<le> feed_bound db root" "server_ok db1 idn root"
    "file_catalog db1 = file_catalog db" "head_entry db1 = head_entry db" "same_access db db1"
    "\<And>e. e \<in> set (cp_files page) \<Longrightarrow> \<exists>f\<in>set (file_catalog db). shown acls root f \<and> head_entry db (id_org idn) (id_user idn) f = Some e"
    using feed_fetch_page[OF less.prems(1-5)] by metis
  have r': "0 \<le> r'" using P(3) by (simp add: follows_def)
  have short: "length (cp_cursor page) \<le> 2048" "cp_cursor page \<noteq> []"
    using less.prems(8) P(2,7) r' by (auto simp: feed_fits_def feed_cursor_def encode_nonempty)
  have "list_all validCachedCatalogFile (cp_files page)"
    using P(13) less.prems(8) unfolding feed_fits_def list_all_iff by fastforce
  then obtain cache1 changed1 where st: "(if cp_files page \<noteq> [] \<or> cp_cursor page \<noteq> cursor then store_page cache page changed else Some (cache, changed)) = Some (cache1, changed1)"
      "map_of (cc_files cache1) = put_entries (cp_files page) (map_of (cc_files cache))" "set changed1 = set changed \<union> ce_path ` set (cp_files page)"
      "set (cc_pending cache1) = set (cc_pending cache) \<union> ce_path ` set (cp_files page)" "cc_cursor cache1 = cp_cursor page"
    using less.prems(7) by (cases "cp_files page \<noteq> [] \<or> cp_cursor page \<noteq> cursor") (auto simp: store_page_def store_files put_entries_def)
  have loop: "refresh_loop (feed_fetch k idn root) cache cursor changed rst db =
    (if \<not> cp_more page then Some (Inr (changed1, rst), cache1, db1)
     else if cp_cursor page = cursor then Some (Inl DidNotAdvance, cache1, db1)
     else refresh_loop (feed_fetch k idn root) cache1 (cp_cursor page) changed1 rst db1)"
    using short P(1,6) st(1) by (subst refresh_loop.simps) simp
  have vis: "visible_catalog db1 idn acls root = visible_catalog db idn acls root"
    by (intro ext) (simp only: visible_catalog_def file_at_def P(10,11))
  have rules: "user_rules db1 idn root = acls" using acls_access[OF P(12)] less.prems(3) by (simp add: user_rules_def)
  have put: "p \<in> ce_path ` set (cp_files page)" if "map_of (cc_files cache1) p \<noteq> map_of (cc_files cache) p" for p
    using that put_entries_cases[of "cp_files page" "map_of (cc_files cache)" p] unfolding st(2) by blast
  show ?case
  proof (cases "cp_more page")
    case False
    have "refreshed db idn root cache changed cache1 changed1"
      unfolding refreshed_def st(2) less.prems(3)[symmetric] using P(5)[OF False] vis put st(2-4) by auto
    moreover have "tracks k idn root db1 (map_of (cc_files cache1)) (cc_cursor cache1)" unfolding tracks_def st(2,5) P(2) using P(3) by blast
    ultimately show ?thesis using loop False vis P(9) by auto
  next
    case True
    have "cp_cursor page \<noteq> cursor" using feed_cursor_inj[OF codec, of idn root acls r' r] less.prems(6) short P(2) P(4)[OF True] by auto
    then have go: "refresh_loop (feed_fetch k idn root) cache cursor changed rst db = refresh_loop (feed_fetch k idn root) cache1 (cp_cursor page) changed1 rst db1"
      using loop True by simp
    have "feed_fits k db1 idn root acls (feed_bound db1 root)" using less.prems(8) P(8,10,11) by (auto simp: feed_fits_def)
    moreover have "nat (feed_bound db1 root - r') < nat (feed_bound db root - r)" using P(4)[OF True] P(7,8) by linarith
    moreover have "cursor_from k idn root (feed_access k idn acls) (cp_cursor page) = Some r'"
      using codec short r' unfolding P(2) by (simp add: cursor_from_def feed_cursor_def encode_nonempty decode_encode)
    moreover have "captureIdentity db1 (Some idn) root = Inr idn" using captureIdentity_access[OF P(12)] less.prems(2) by simp
    ultimately obtain changed' cache' db' where I: "refresh_loop (feed_fetch k idn root) cache1 (cp_cursor page) changed1 rst db1 = Some (Inr (changed', rst), cache', db')"
      "refreshed db1 idn root cache1 changed1 cache' changed'" "visible_catalog db' idn acls root = visible_catalog db1 idn acls root"
      "server_ok db' idn root" "tracks k idn root db' (map_of (cc_files cache')) (cc_cursor cache')"
      using less.hyps[of db1 r' cache1 "cp_cursor page" changed1] P(2,3,9) rules st(2,5) by auto
    have "refreshed db idn root cache changed cache' changed'"
      using rules vis less.prems(3) by (intro refreshed_step[OF I(2) _ st(3,4) put]) simp
    then show ?thesis using go I vis by auto
  qed
qed

text \<open>
  C16: Refreshing the local catalog ends, and ends with the server's catalog.  For a cache that holds what its
  cursor stands for, possibly under folder rules that have changed since, \<^verbatim>\<open>refresh\<close> against the server
  returns without an error; the cache then maps exactly the visible paths to their current entries;
  every path whose entry is new or different (every path, after a reset) is reported as
  changed and kept as pending, as are the paths that were pending before; and the new cache
  is again one from which the next refresh works.
\<close>

theorem refresh_exact:
  assumes codec: "\<forall>c. ck_unmarshal k (ck_marshal k c) = Some c"
    and inj: "\<forall>role d d'. ck_access k role d = ck_access k role d' \<longrightarrow> d = d'"
    and srv: "server_ok db idn root" and cid: "captureIdentity db (Some idn) root = Inr idn"
    and trk: "tracks k idn root db (map_of (cc_files cache)) (cc_cursor cache)"
    and fits: "feed_fits k db idn root (user_rules db idn root) (feed_bound db root)"
  shows "\<exists>changed rst cache' db'. refresh (feed_fetch k idn root) cache db = Some (Inr (changed, rst), cache', db')
    \<and> map_of (cc_files cache') = visible_catalog db' idn (user_rules db idn root) root
    \<and> visible_catalog db' idn (user_rules db idn root) root = visible_catalog db idn (user_rules db idn root) root
    \<and> (\<forall>p. map_of (cc_files cache') p \<noteq> (if rst then None else map_of (cc_files cache) p) \<longrightarrow> p \<in> set changed)
    \<and> (\<not> rst \<longrightarrow> set (cc_pending cache) \<subseteq> set changed) \<and> set (cc_pending cache') = set changed
    \<and> server_ok db' idn root \<and> tracks k idn root db' (map_of (cc_files cache')) (cc_cursor cache')"
proof (cases "cursor_from k idn root (feed_access k idn (user_rules db idn root)) (cc_cursor cache)")
  case (Some r)
  note A = tracks_accepted[OF srv trk codec inj Some]
  obtain changed' cache' db' where R: "refresh_loop (feed_fetch k idn root) cache (cc_cursor cache) (cc_pending cache) False db = Some (Inr (changed', False), cache', db')"
    "refreshed db idn root cache (cc_pending cache) cache' changed'" "visible_catalog db' idn (user_rules db idn root) root = visible_catalog db idn (user_rules db idn root) root"
    "server_ok db' idn root" "tracks k idn root db' (map_of (cc_files cache')) (cc_cursor cache')"
    using refresh_pages[OF codec srv cid refl A(1) Some A(2) refl fits, of "cc_pending cache" False] by blast
  show ?thesis
    by (rule exI[of _ changed'], rule exI[of _ False], rule exI[of _ cache'], rule exI[of _ db']) (use R in \<open>simp add: refresh_def refreshed_def\<close>)
next
  case None
  have lim: "page_limit ''500'' = Some 500" by code_simp
  have "handleCatalogChanges k db (Some idn) root ''500'' (cc_cursor cache) = (FeedFail 409 ''catalog_cursor_reset'', db)"
    using None by (simp add: handleCatalogChanges_def cid lim user_rules_def)
  then have fetch: "feed_fetch k idn root (cc_cursor cache) db = (Some (FeedFail 409 ''catalog_cursor_reset''), db)" by (simp add: feed_fetch_def)
  let ?empty = "cache\<lparr>cc_files := [], cc_pending := [], cc_cursor := []\<rparr>"
  have restart: "refresh (feed_fetch k idn root) cache db = refresh_loop (feed_fetch k idn root) ?empty [] [] True db"
    unfolding refresh_def by (subst refresh_loop.simps) (simp add: fetch)
  have "follows db idn (user_rules db idn root) root (map_of (cc_files ?empty)) 0" using srv by (simp add: server_ok_def)
  then obtain changed' cache' db' where R: "refresh_loop (feed_fetch k idn root) ?empty [] [] True db = Some (Inr (changed', True), cache', db')"
    "refreshed db idn root ?empty [] cache' changed'" "visible_catalog db' idn (user_rules db idn root) root = visible_catalog db idn (user_rules db idn root) root"
    "server_ok db' idn root" "tracks k idn root db' (map_of (cc_files cache')) (cc_cursor cache')"
    using refresh_pages[OF codec srv cid refl _ _ _ _ fits, of ?empty 0 "[]" "[]" True] by (auto simp: cursor_from_def)
  show ?thesis
    by (rule exI[of _ changed'], rule exI[of _ True], rule exI[of _ cache'], rule exI[of _ db']) (use R in \<open>simp add: restart refreshed_def\<close>)
qed

lemma sample_accept_server_ok: "server_ok (snd sample_accept) sample_owner ''r1''"
proof -
  have "announced ''r1'' sample_capture_db (snd sample_accept) \<and> catalog_wf (snd sample_accept)"
    by (rule handleRegister_announced[OF sample_accept_pair sample_capture_wf sample_env_ids])
  then show ?thesis using announced_server_ok[OF sample_server_ok] by blast
qed

definition empty_cache :: catalog_cache where
  "empty_cache = \<lparr>cc_identity = None, cc_files = [], cc_cursor = [], cc_pending = [], cc_policy = None\<rparr>"

lemma sample_fits:
  "feed_fits sample_keys (snd sample_accept) sample_owner ''r1'' (user_rules (snd sample_accept) sample_owner ''r1'') (feed_bound (snd sample_accept) ''r1'')"
proof -
  have "feed_bound (snd sample_accept) ''r1'' = 2" by code_simp
  moreover have "length (feed_cursor sample_keys sample_owner ''r1'' (user_rules (snd sample_accept) sample_owner ''r1'') x) \<le> 2048" if "x \<in> {0, 1, 2}" for x
  proof -
    have "list_all (\<lambda>x. length (feed_cursor sample_keys sample_owner ''r1'' (user_rules (snd sample_accept) sample_owner ''r1'') x) < 100) [0, 1, 2]" by code_simp
    then show ?thesis using that by auto
  qed
  moreover have "list_all (\<lambda>f. case head_entry (snd sample_accept) (id_org sample_owner) (id_user sample_owner) f of None \<Rightarrow> True | Some e \<Rightarrow> validCachedCatalogFile e)
      (file_catalog (snd sample_accept))" by code_simp
  moreover have "x \<in> {0, 1, 2}" if "0 \<le> x" "x \<le> 2" for x :: int using that by auto
  ultimately show ?thesis by (auto simp: feed_fits_def list_all_iff simp del: insert_iff)
qed

theorem refresh_exact_witness:
  "\<exists>changed rst cache' db'. refresh (feed_fetch sample_keys sample_owner ''r1'') empty_cache (snd sample_accept) = Some (Inr (changed, rst), cache', db')
     \<and> map_of (cc_files cache') ''a/b.txt'' \<noteq> None \<and> ''a/b.txt'' \<in> set changed"
proof -
  have cid: "captureIdentity (snd sample_accept) (Some sample_owner) ''r1'' = Inr sample_owner" by code_simp
  have "tracks sample_keys sample_owner ''r1'' (snd sample_accept) (map_of (cc_files empty_cache)) (cc_cursor empty_cache)"
    using sample_accept_server_ok by (auto simp: tracks_def server_ok_def empty_cache_def)
  from refresh_exact[OF sample_keys_codec sample_keys_access sample_accept_server_ok cid this sample_fits]
  obtain changed rst cache' db' where R: "refresh (feed_fetch sample_keys sample_owner ''r1'') empty_cache (snd sample_accept) = Some (Inr (changed, rst), cache', db')"
    "map_of (cc_files cache') = visible_catalog (snd sample_accept) sample_owner (user_rules (snd sample_accept) sample_owner ''r1'') ''r1''"
    "\<forall>p. map_of (cc_files cache') p \<noteq> (if rst then None else map_of (cc_files empty_cache) p) \<longrightarrow> p \<in> set changed" by auto
  have "visible_catalog (snd sample_accept) sample_owner (user_rules (snd sample_accept) sample_owner ''r1'') ''r1'' ''a/b.txt'' \<noteq> None" by code_simp
  then have here: "map_of (cc_files cache') ''a/b.txt'' \<noteq> None" "''a/b.txt'' \<in> set changed"
    using R(2,3) by (auto simp: empty_cache_def)
  with R(1) show ?thesis by auto
qed

section \<open>Walking the cache\<close>

lemma prefix_le: "has_prefix s pre \<Longrightarrow> pre \<le> (s :: string)"
proof (induction pre arbitrary: s)
  case (Cons c pre)
  then show ?case by (cases s) auto
qed simp

lemma prefix_between: "pre \<le> s \<Longrightarrow> s \<le> (t :: string) \<Longrightarrow> has_prefix t pre \<Longrightarrow> has_prefix s pre"
proof (induction pre arbitrary: s t)
  case (Cons c pre)
  obtain t' where t: "t = c # t'" "has_prefix t' pre" using Cons.prems(3) by (cases t) auto
  obtain x s' where s: "s = x # s'" using Cons.prems(1) by (cases s) auto
  have "x = c" using Cons.prems(1,2) unfolding s t by auto
  then show ?case using Cons.IH[of s' t'] Cons.prems(1,2) t(2) unfolding s t by auto
qed simp

text \<open>The records with a prefix are contiguous in key order, so the cursor loop finds all of them.\<close>

lemma seek_prefix_filter: "seek_prefix files pre = filter (\<lambda>x. has_prefix (fst x) pre) (bucket_order files)"
proof -
  have "takeWhile (\<lambda>x. has_prefix (fst x) pre) (dropWhile (\<lambda>x. fst x < pre) xs) = filter (\<lambda>x. has_prefix (fst x) pre) xs"
    if "sorted (map fst xs)" for xs :: "(string \<times> captured_file_head) list"
    using that
  proof (induction xs)
    case (Cons x xs)
    show ?case
    proof (cases "fst x < pre")
      case True
      then have "\<not> has_prefix (fst x) pre" using prefix_le by fastforce
      then show ?thesis using Cons True by simp
    next
      case False
      then have ge: "pre \<le> fst x" by simp
      have rest: "dropWhile (\<lambda>x. fst x < pre) xs = xs" using Cons.prems ge by (cases xs) auto
      show ?thesis
      proof (cases "has_prefix (fst x) pre")
        case True
        then show ?thesis using Cons False rest by simp
      next
        case no: False
        have "\<not> has_prefix (fst y) pre" if "y \<in> set xs" for y
          using prefix_between[OF ge, of "fst y"] Cons.prems that no by auto
        then have "filter (\<lambda>x. has_prefix (fst x) pre) xs = []" by (simp add: filter_empty_conv)
        then show ?thesis using False no by simp
      qed
    qed
  qed simp
  then show ?thesis by (simp add: seek_prefix_def bucket_order_def)
qed

lemma map_of_bucket:
  assumes "distinct (map fst files)"
  shows "(case map_of files p of None \<Rightarrow> [] | Some e \<Rightarrow> [(p, e)]) = filter (\<lambda>x. fst x = p) (bucket_order files)"
proof -
  have one: "(case map_of xs p of None \<Rightarrow> [] | Some e \<Rightarrow> [(p, e)]) = filter (\<lambda>x. fst x = p) xs"
    if "distinct (map fst xs)" for xs :: "(string \<times> captured_file_head) list"
    using that
  proof (induction xs)
    case (Cons x xs)
    then have "fst x = p \<Longrightarrow> filter (\<lambda>y. fst y = p) xs = []" by (auto simp: filter_empty_conv image_iff)
    with Cons show ?case by (cases x) auto
  qed simp
  have d: "distinct (map fst (bucket_order files))" using assms by (simp add: bucket_order_def distinct_map)
  then have "map_of (bucket_order files) = map_of files" using assms by (simp add: map_of_inject_set) (simp add: bucket_order_def)
  with d show ?thesis using one[of "bucket_order files"] by simp
qed

text \<open>
  C35: Walking the cache for a set of changed paths visits, for each path in turn, exactly the cached record at the
  path and the records of everything below it, in key order: the seek in the ordered bucket
  is equivalent to a filter over the whole catalog.
\<close>

theorem catalog_walk_below:
  assumes "distinct (map fst (cc_files cache))"
  shows "catalog_walk cache (Some ps) visit v = visit_all visit
    (concat (map (\<lambda>p. filter (\<lambda>x. fst x = p) (bucket_order (cc_files cache)) @ filter (\<lambda>x. has_prefix (fst x) (p @ [slash])) (bucket_order (cc_files cache))) ps)) v"
  using map_of_bucket[OF assms] by (simp add: catalog_walk_def walk_records_def seek_prefix_filter)

definition sample_head :: "string \<Rightarrow> captured_file_head" where
  "sample_head p = \<lparr>ce_file = ''f'', ce_path = p, ce_version = ''v'', ce_sequence = 1, ce_indexed = [], ce_hash = ''sha256:'' @ replicate 64 CHR ''a'',
     ce_size = 1, ce_deleted = False, ce_ref = [], ce_proof = True, ce_processing = None\<rparr>"

definition sample_cache :: catalog_cache where
  "sample_cache = empty_cache\<lparr>cc_files := map (\<lambda>p. (p, sample_head p)) [''src/a'', ''src'', ''src-old'', ''lib'', ''src/b/c'']\<rparr>"

theorem catalog_walk_below_witness:
  "catalog_walk sample_cache (Some [''src'']) (\<lambda>v e. Inr (v @ [ce_path e])) [] = Inr [''src'', ''src/a'', ''src/b/c'']"
proof -
  have "distinct (map fst (cc_files sample_cache))" by code_simp
  then show ?thesis by (subst catalog_walk_below) code_simp+
qed

section \<open>Walking the server's listing\<close>

definition list_fetch :: "database \<Rightarrow> identity \<Rightarrow> string \<Rightarrow> string \<Rightarrow> string \<Rightarrow> captured_page option" where
  "list_fetch db idn root processing cursor = (case handleListCapturedFiles db (Some idn) root processing ''500'' cursor of
      ListPage p \<Rightarrow> Some p | ListFail _ \<Rightarrow> None)"

fun visit_each :: "('v \<Rightarrow> captured_file_head \<Rightarrow> string + 'v) \<Rightarrow> captured_file_head list \<Rightarrow> 'v \<Rightarrow> string + 'v" where
  "visit_each visit [] v = Inr v"
| "visit_each visit (e # es) v = (case visit v e of Inl err \<Rightarrow> Inl err | Inr v' \<Rightarrow> visit_each visit es v')"

lemma visit_each_append: "visit_each visit (xs @ ys) v = try_then (visit_each visit xs v) (visit_each visit ys)"
  by (induction xs arbitrary: v) (auto simp: try_then_def split: sum.splits)

definition listable :: "captured_file_head \<Rightarrow> bool" where
  "listable e \<longleftrightarrow> ce_path e \<noteq> [] \<and> ce_version e \<noteq> [] \<and> 1 \<le> ce_sequence e"

text \<open>A page in ascending order is visited completely.\<close>

lemma visit_page_each:
  assumes "sorted_wrt (\<lambda>a b. ce_file a < ce_file b) es" "\<forall>e\<in>set es. prev < ce_file e \<and> listable e"
  shows "visit_page visit prev es v = map_sum id (Pair (if es = [] then prev else ce_file (last es))) (visit_each visit es v)"
  using assms
proof (induction es arbitrary: prev v)
  case (Cons e es)
  have "\<forall>x\<in>set es. ce_file e < ce_file x \<and> listable x" using Cons.prems by auto
  then have "visit_page visit (ce_file e) es v' = map_sum id (Pair (if es = [] then ce_file e else ce_file (last es))) (visit_each visit es v')" for v'
    using Cons by (auto simp: id_def)
  moreover have "\<not> ce_file e \<le> prev" "listable e" using Cons.prems(2) by auto
  ultimately show ?case by (simp add: listable_def id_def split: sum.split)
qed simp

lemma captured_rows_after:
  assumes keys: "catalog_keys db" and c: "c \<le> c'"
  shows "sorted_wrt (\<lambda>a b. ce_file a < ce_file b) (captured_rows db idn root pr c)"
    "\<forall>e\<in>set (captured_rows db idn root pr c). c < ce_file e"
    "captured_rows db idn root pr c' = filter (\<lambda>e. c' < ce_file e) (captured_rows db idn root pr c)"
    "\<forall>e\<in>set (captured_rows db idn root pr c). \<exists>f\<in>set (file_catalog db). ce_file e = fc_id f"
proof -
  define g where "g = (\<lambda>f. case (head_entry db (id_org idn) (id_user idn) f, head_version_of db f) of
          (Some e, Some v) \<Rightarrow> Some (if pr then e\<lparr>ce_processing := Some (processing_of db f v)\<rparr> else e)
        | _ \<Rightarrow> None)"
  have key: "ce_file e = fc_id f" if "g f = Some e" for f e
    using that by (auto simp: g_def head_entry_def split: option.splits if_splits)
  define fs where "fs = (\<lambda>c. sort_key fc_id (filter (\<lambda>f. fc_root f = root \<and> c < fc_id f) (file_catalog db)))"
  have rows: "captured_rows db idn root pr c = (if live_root db (id_org idn) root then List.map_filter g (fs c) else [])" for c
    by (simp add: captured_rows_def g_def fs_def)
  have ids: "distinct (map fc_id (file_catalog db))" using keys by (simp add: catalog_keys_def)
  have "sorted_wrt (\<lambda>x y. fc_id x < fc_id y) (fs c)"
    unfolding fs_def by (rule strict_sort_key) (use ids in \<open>auto simp: distinct_map inj_on_def\<close>)
  from sorted_map_filter[where g = g and out = ce_file, OF this key] show "sorted_wrt (\<lambda>a b. ce_file a < ce_file b) (captured_rows db idn root pr c)" by (simp add: rows)
  show "\<forall>e\<in>set (captured_rows db idn root pr c). c < ce_file e"
    "\<forall>e\<in>set (captured_rows db idn root pr c). \<exists>f\<in>set (file_catalog db). ce_file e = fc_id f"
    using key by (fastforce simp: rows fs_def List.map_filter_def)+
  have "fs c' = filter (\<lambda>f. c' < fc_id f) (fs c)" using c by (auto simp: fs_def filter_sort intro!: arg_cong[of _ _ "sort_key fc_id"] filter_cong)
  then show "captured_rows db idn root pr c' = filter (\<lambda>e. c' < ce_file e) (captured_rows db idn root pr c)"
    unfolding rows by (simp add: filter_map_filter[OF arg_cong[of _ _ "\<lambda>x. c' < x", OF key]])
qed

lemma after_page:
  assumes "sorted_wrt (\<lambda>a b. key a < (key b :: 'k :: linorder)) xs" "0 < n" "n < length xs"
  shows "filter (\<lambda>e. key (last (take n xs)) < key e) xs = drop n xs"
proof -
  define ys zs where "ys = take n xs" and "zs = drop n xs"
  have parts: "xs = ys @ zs" "ys \<noteq> []" using assms(2,3) by (auto simp: ys_def zs_def)
  have "sorted_wrt (\<lambda>a b. key a < key b) (butlast ys @ [last ys] @ zs)" using assms(1) parts by (metis append_assoc append_butlast_last_id)
  then have z: "\<forall>x\<in>set zs. key (last ys) < key x" and "\<forall>x\<in>set (butlast ys). key x < key (last ys)" by (auto simp: sorted_wrt_append)
  then have "\<forall>x\<in>set ys. \<not> key (last ys) < key x"
    using parts(2) by (metis append_butlast_last_id UnE empty_iff empty_set less_asym less_irrefl set_ConsD set_append)
  then have "filter (\<lambda>e. key (last ys) < key e) ys = []" "filter (\<lambda>e. key (last ys) < key e) zs = zs" using z by (simp_all add: filter_empty_conv filter_id_conv)
  then show ?thesis unfolding ys_def[symmetric] zs_def[symmetric] by (subst parts(1)) simp
qed

text \<open>The rows of a listing, as the server filters them for the caller.\<close>

definition visible_rows :: "database \<Rightarrow> identity \<Rightarrow> string \<Rightarrow> bool \<Rightarrow> string \<Rightarrow> captured_file_head list" where
  "visible_rows db idn root pr cursor = filter (\<lambda>e. user_rules db idn root = [] \<or> checkPermission (user_rules db idn root) (ce_path e) ''write'')
     (captured_rows db idn root pr cursor)"

lemma walk_pages:
  assumes keys: "catalog_keys db" and cid: "captureIdentity db (Some idn) root = Inr idn"
    and ids: "\<forall>f\<in>set (file_catalog db). fc_id f \<noteq> [] \<and> length (fc_id f) \<le> 128" and pr: "processing \<in> {[], ''true'', ''false''}"
    and rows: "\<forall>e\<in>set (captured_rows db idn root (processing = ''true'') []). listable e" and c: "length cursor \<le> 128"
  shows "walkCapturedFiles (list_fetch db idn root processing) visit cursor v
    = Some (visit_each visit (visible_rows db idn root (processing = ''true'') cursor) v)"
  using c
proof (induction "length (captured_rows db idn root (processing = ''true'') cursor)" arbitrary: cursor v rule: less_induct)
  case less
  let ?rows = "captured_rows db idn root (processing = ''true'')" and ?ok = "\<lambda>e. user_rules db idn root = [] \<or> checkPermission (user_rules db idn root) (ce_path e) ''write''"
  note R = captured_rows_after[OF keys order_refl, of idn root "processing = ''true''" cursor]
  have lim: "page_limit ''500'' = Some 500" by code_simp
  let ?page = "take 500 (?rows cursor)" and ?more = "500 < length (?rows cursor)"
  have fetch: "list_fetch db idn root processing cursor = Some \<lparr>pg_files = filter ?ok ?page, pg_next = (if ?more then ce_file (last ?page) else [])\<rparr>"
    using less.prems pr by (auto simp: list_fetch_def handleListCapturedFiles_def cid lim user_rules_def Let_def take_upto_take)
  have sub: "listable e" if "e \<in> set (?rows cursor)" for e
    using that rows captured_rows_after(3)[OF keys, of "[]" cursor idn root] by auto
  define files nxt lst where "files = filter ?ok ?page" and "nxt = (if ?more then ce_file (last ?page) else [])"
    and "lst = (if files = [] then cursor else ce_file (last files))"
  have page: "visit_page visit cursor files v = map_sum id (Pair lst) (visit_each visit files v)"
    unfolding lst_def using R(1,2) sub by (intro visit_page_each) (auto simp: files_def intro!: sorted_wrt_filter sorted_wrt_take dest: in_set_takeD)
  have loop: "walkCapturedFiles (list_fetch db idn root processing) visit cursor v = (case visit_each visit files v of
      Inl err \<Rightarrow> Some (Inl err)
    | Inr v' \<Rightarrow> if nxt = [] then Some (Inr v') else if nxt \<le> cursor \<or> nxt < lst then Some (Inl ''non-advancing captured catalog cursor'')
        else walkCapturedFiles (list_fetch db idn root processing) visit nxt v')"
    using fetch page by (subst walkCapturedFiles.simps) (simp add: files_def[symmetric] nxt_def[symmetric] split: sum.split)
  show ?case
  proof (cases ?more)
    case False
    then have "nxt = []" "files = visible_rows db idn root (processing = ''true'') cursor" by (simp_all add: nxt_def files_def visible_rows_def)
    then show ?thesis unfolding loop by (simp split: sum.split)
  next
    case True
    then have page_ne: "?page \<noteq> []" by auto
    then have mem: "last ?page \<in> set ?page" by (rule last_in_set)
    then have last: "last ?page \<in> set (?rows cursor)" by (rule in_set_takeD)
    have nxt: "nxt = ce_file (last ?page)" using True by (simp add: nxt_def)
    have after: "cursor < nxt" using R(2) last nxt by auto
    have rest: "?rows nxt = drop 500 (?rows cursor)"
      using captured_rows_after(3)[OF keys less_imp_le[OF after], of idn root "processing = ''true''"] after_page[OF R(1), of 500] True nxt by simp
    have "lst \<le> nxt"
    proof (cases "files = []")
      case False
      then have "last files \<in> set ?page" using last_in_set[OF False] by (auto simp: files_def)
      moreover have "\<not> nxt < ce_file e" if "e \<in> set ?page" for e
      proof
        assume "nxt < ce_file e"
        then have "e \<in> set (?rows nxt)" using in_set_takeD[OF that] captured_rows_after(3)[OF keys, of cursor nxt idn root "processing = ''true''"] after by auto
        then have "e \<in> set ?page \<inter> set (drop 500 (?rows cursor))" using that rest by simp
        moreover have "distinct (?rows cursor)" using R(1) strict_sorted_iff[of "map ce_file (?rows cursor)"] by (simp add: sorted_wrt_map distinct_map)
        ultimately show False using set_take_disj_set_drop_if_distinct[of "?rows cursor" 500 500] by auto
      qed
      ultimately have "\<not> nxt < ce_file (last files)" by blast
      then show ?thesis using False by (simp add: lst_def)
    qed (use after in \<open>simp add: lst_def\<close>)
    moreover have "length nxt \<le> 128" using R(4) last ids nxt by metis
    moreover have "length (?rows nxt) < length (?rows cursor)" using True rest by simp
    ultimately have "walkCapturedFiles (list_fetch db idn root processing) visit nxt v' = Some (visit_each visit (visible_rows db idn root (processing = ''true'') nxt) v')" for v'
      using less.hyps by blast
    moreover have "visible_rows db idn root (processing = ''true'') cursor = files @ visible_rows db idn root (processing = ''true'') nxt"
      unfolding visible_rows_def rest files_def by (metis append_take_drop_id filter_append)
    moreover have "nxt \<noteq> []" using after by auto
    ultimately show ?thesis
      unfolding loop using after \<open>lst \<le> nxt\<close> by (auto simp: visit_each_append try_then_def split: sum.split)
  qed
qed

text \<open>
  C34: Listing the catalog ends and visits every file once.  Against a server whose rows have valid fields and whose
  identifiers fit a cursor, \<^verbatim>\<open>walkCapturedFiles\<close> returns, none of its checks for a catalog that does not
  advance ever fires, and the visitor is called on exactly the visible rows in the order of the
  file identifiers, up to the first error of its own.
\<close>

theorem walkCapturedFiles_complete:
  assumes "catalog_keys db" "captureIdentity db (Some idn) root = Inr idn" "processing \<in> {[], ''true'', ''false''}"
    "\<forall>f\<in>set (file_catalog db). fc_id f \<noteq> [] \<and> length (fc_id f) \<le> 128"
    "\<forall>e\<in>set (captured_rows db idn root (processing = ''true'') []). listable e"
  shows "walkCapturedFiles (list_fetch db idn root processing) visit [] v
    = Some (visit_each visit (visible_rows db idn root (processing = ''true'') []) v)"
  by (rule walk_pages[OF assms(1,2,4,3,5)]) simp

theorem walkCapturedFiles_complete_witness:
  "walkCapturedFiles (list_fetch (snd sample_accept) sample_owner ''r1'' ''true'') (\<lambda>v e. Inr (v @ [ce_path e])) [] [] = Some (Inr [''a/b.txt''])"
proof -
  have "catalog_keys (snd sample_accept)" using sample_accept_server_ok by (simp add: server_ok_def catalog_wf_def)
  moreover have "captureIdentity (snd sample_accept) (Some sample_owner) ''r1'' = Inr sample_owner" by code_simp
  moreover have "list_all (\<lambda>f. fc_id f \<noteq> [] \<and> length (fc_id f) \<le> 128) (file_catalog (snd sample_accept))" by code_simp
  moreover have "list_all listable (captured_rows (snd sample_accept) sample_owner ''r1'' (''true'' = ''true'') [])" by code_simp
  moreover have "visit_each (\<lambda>v e. Inr (v @ [ce_path e])) (visible_rows (snd sample_accept) sample_owner ''r1'' (''true'' = ''true'') []) [] = Inr [''a/b.txt'']"
    by code_simp
  ultimately show ?thesis by (subst walkCapturedFiles_complete) (auto simp: list_all_iff)
qed

end
