(* ===== verification/Search.thy ===== *)
theory Search
  imports Capture_Proofs Go_Base64 Complex_Main
begin

text \<open>
  Search over the published index: \<^verbatim>\<open>handleQuery\<close> and its helpers of \<^verbatim>\<open>handlers.go\<close>,
  \<^verbatim>\<open>search_publication.go\<close>, \<^verbatim>\<open>search_segments.go\<close>, \<^verbatim>\<open>search_admission.go\<close>, \<^verbatim>\<open>query_namespaces.go\<close>, the access
  filter of \<^verbatim>\<open>file_proofs.go\<close> and the rank fusion of \<^verbatim>\<open>turbopuffer.go\<close>.  The search provider is a
  parameter, and so is the database at every point where the code reads it, since captures and
  indexing go on while a query runs.  A row of the provider is a record whose string fields are
  empty where the provider sent no string; scores are rationals.
\<close>

section \<open>Rows, publications and filters\<close>

record search_row =
  sr_id :: string
  sr_path :: string
  sr_extraction :: string
  sr_segment :: string
  sr_hash :: string
  sr_content :: string
  sr_absolute :: string
  sr_type :: string
  sr_dist :: rat
  sr_chunk :: "int option"
  sr_page :: "int option"
  sr_line_start :: "int option"
  sr_line_end :: "int option"

record file_publication =
  pb_extraction :: string
  pb_deleted :: bool
  pb_format :: int
  pb_hash :: string

definition no_publication :: file_publication where
  "no_publication = \<lparr>pb_extraction = [], pb_deleted = False, pb_format = 0, pb_hash = []\<rparr>"

datatype tp_filter =
    NoFilter
  | NotNull string
  | IsNull string
  | NotIn string "string list"
  | IsEqual string string
  | IsIn string "string list"
  | AtMost string int
  | GreaterThan string int
  | GlobMatch string string
  | AnyOf "tp_filter list"
  | AllOf "tp_filter list"

definition tpAndFilter :: "tp_filter list \<Rightarrow> tp_filter" where
  "tpAndFilter filters = (case filters of [] \<Rightarrow> NoFilter | [f] \<Rightarrow> f | _ \<Rightarrow> AllOf filters)"

definition searchPublicationFilter :: "string list \<Rightarrow> string list \<Rightarrow> tp_filter" where
  "searchPublicationFilter extractions segments = tpAndFilter ([NotNull ''extraction_id'']
     @ (if extractions \<noteq> [] then [NotIn ''extraction_id'' extractions] else [])
     @ (if segments \<noteq> [] then [AnyOf [IsNull ''segment_id'', NotIn ''segment_id'' segments]] else []))"

record namespace_search =
  se_root :: string
  se_namespace :: string
  se_rankings :: "string list"
  se_sets :: "search_row list list"
  se_publications :: "(string \<times> file_publication) list"
  se_excluded :: "string list"
  se_excluded_segments :: "string list"
  se_segments :: "((string \<times> string \<times> string) \<times> bool) list"
  se_filter_bytes :: int

datatype provider_error = EmbeddingBusy | DeadlineExceeded | ProviderError

datatype query_error =
    QueryRootMissing
  | PublicationBusy
  | AdmissionFull
  | MissingPath
  | MissingExtraction
  | ProviderFailed provider_error
  | PermissionsUnavailable

definition maxPublicationSearchPasses :: nat where "maxPublicationSearchPasses = 16"
definition maxPublicationExclusions :: nat where "maxPublicationExclusions = 4096"
definition maxPublicationFilterBytes :: int where "maxPublicationFilterBytes = 1048576"
definition maxPublicationCandidatePaths :: nat where "maxPublicationCandidatePaths = 8192"
definition maxConcurrentSearchNamespaces :: int where "maxConcurrentSearchNamespaces = 16"

section \<open>Validating candidates\<close>

text \<open>One row of \<^verbatim>\<open>candidatePublicationsSQL\<close>; the zero value where the path is not in the catalog.\<close>

definition publication_at :: "database \<Rightarrow> string \<Rightarrow> string \<Rightarrow> file_publication" where
  "publication_at db rootID path = (case file_at db rootID path of
      None \<Rightarrow> no_publication
    | Some f \<Rightarrow> \<lparr>pb_extraction = fc_indexed_extraction f, pb_deleted = fc_deleted f,
        pb_format = (case find (\<lambda>e. fe_id e = fc_indexed_extraction f) (file_extractions db) of None \<Rightarrow> 1 | Some e \<Rightarrow> fe_format e),
        pb_hash = (case find (\<lambda>v. fv_id v = fc_indexed_version f) (file_versions db) of None \<Rightarrow> [] | Some v \<Rightarrow> fv_hash v)\<rparr>)"

definition candidatePublications :: "database \<Rightarrow> string \<Rightarrow> string list \<Rightarrow> namespace_search \<Rightarrow> query_error + namespace_search" where
  "candidatePublications db orgID paths s =
    (if paths = [] then Inr s
     else if \<not> live_root db orgID (se_root s) then Inl QueryRootMissing
     else Inr (s\<lparr>se_publications := map (\<lambda>p. (p, publication_at db (se_root s) p)) paths @ se_publications s\<rparr>))"

definition published :: "namespace_search \<Rightarrow> string \<Rightarrow> file_publication" where
  "published s path = (case map_of (se_publications s) path of None \<Rightarrow> no_publication | Some p \<Rightarrow> p)"

text \<open>The paths of a result that have not been looked up, or the error of a malformed candidate.\<close>

definition unseen_paths :: "namespace_search \<Rightarrow> query_error + string list" where
  "unseen_paths s = (case find (\<lambda>r. sr_path r = [] \<or> sr_extraction r = []) (concat (se_sets s)) of
      Some r \<Rightarrow> Inl (if sr_path r = [] then MissingPath else MissingExtraction)
    | None \<Rightarrow>
       (let unseen = sort (remdups (filter (\<lambda>p. p \<notin> fst ` set (se_publications s)) (map sr_path (concat (se_sets s))))) in
        if length (se_publications s) + length unseen > maxPublicationCandidatePaths then Inl PublicationBusy else Inr unseen))"

fun note_segments :: "namespace_search \<Rightarrow> search_row list \<Rightarrow> (string \<times> string \<times> string) list
    \<Rightarrow> query_error + namespace_search \<times> (string \<times> string \<times> string) list" where
  "note_segments s [] lookups = Inr (s, lookups)"
| "note_segments s (r # rs) lookups =
    (let p = published s (sr_path r); candidate = (sr_path r, sr_segment r, pb_extraction p) in
     if pb_deleted p \<or> pb_format p \<noteq> 2 \<or> sr_segment r = [] \<or> candidate \<in> fst ` set (se_segments s) then note_segments s rs lookups
     else if length (se_segments s) \<ge> maxPublicationCandidatePaths then Inl PublicationBusy
     else note_segments (s\<lparr>se_segments := (candidate, False) # se_segments s\<rparr>) rs (candidate # lookups))"

definition segment_published :: "database \<Rightarrow> string \<Rightarrow> string \<Rightarrow> string \<times> string \<times> string \<Rightarrow> bool" where
  "segment_published db orgID rootID candidate = (case candidate of (path, segment, extraction) \<Rightarrow>
     live_root db orgID rootID \<and> list_ex (\<lambda>f. fc_root f = rootID \<and> fc_path f = path
       \<and> list_ex (\<lambda>v. fv_file v = fc_id f \<and> list_ex (\<lambda>e. fe_version e = fv_id v \<and> fe_id e = extraction \<and> fe_format e = 2) (file_extractions db)) (file_versions db)
       \<and> list_ex (\<lambda>m. sm_extraction m = extraction \<and> sm_segment m = segment) (extraction_segments db)
       \<and> list_ex (\<lambda>g. sg_id g = segment \<and> sg_file g = fc_id f \<and> \<not> sg_retired g) (file_segments db)) (file_catalog db))"

definition candidateSegments :: "database \<Rightarrow> string \<Rightarrow> namespace_search \<Rightarrow> query_error + namespace_search" where
  "candidateSegments db orgID s = try_then (note_segments s (concat (se_sets s)) []) (\<lambda>(s', lookups).
     Inr (s'\<lparr>se_segments := map (\<lambda>(c, ok). (c, ok \<or> c \<in> set lookups \<and> segment_published db orgID (se_root s) c)) (se_segments s')\<rparr>))"

definition row_valid :: "namespace_search \<Rightarrow> search_row \<Rightarrow> bool" where
  "row_valid s r = (let p = published s (sr_path r);
       valid = (if pb_format p = 2 then map_of (se_segments s) (sr_path r, sr_segment r, pb_extraction p) = Some True
                else pb_extraction p = sr_extraction r \<and> pb_format p = 1 \<and> sr_segment r = [])
     in \<not> pb_deleted p \<and> pb_extraction p \<noteq> [] \<and> valid)"

definition exclude_row :: "search_row \<Rightarrow> namespace_search \<Rightarrow> namespace_search" where
  "exclude_row r s =
    (if sr_segment r \<noteq> [] then
       (if sr_segment r \<in> set (se_excluded_segments s) then s
        else s\<lparr>se_excluded_segments := sr_segment r # se_excluded_segments s, se_filter_bytes := se_filter_bytes s + 6 * int (length (sr_segment r)) + 32\<rparr>)
     else
       (if sr_extraction r \<in> set (se_excluded s) then s
        else s\<lparr>se_excluded := sr_extraction r # se_excluded s, se_filter_bytes := se_filter_bytes s + 6 * int (length (sr_extraction r)) + 32\<rparr>))"

text \<open>The last loop of a pass over one search: whether it has to run again.\<close>

definition exclusions :: "namespace_search \<Rightarrow> nat" where
  "exclusions s = length (se_excluded s) + length (se_excluded_segments s)"

definition validate_search :: "namespace_search \<Rightarrow> query_error + namespace_search \<times> bool" where
  "validate_search s =
    (let rejected = filter (\<lambda>r. \<not> row_valid s r) (concat (se_sets s));
         s' = fold exclude_row rejected
           (s\<lparr>se_sets := map (map (\<lambda>r. if row_valid s r then r\<lparr>sr_hash := pb_hash (published s (sr_path r))\<rparr> else r)) (se_sets s)\<rparr>) in
     if rejected = [] then Inr (s', False)
     else if exclusions s' = exclusions s \<or> exclusions s' > maxPublicationExclusions \<or> se_filter_bytes s' > maxPublicationFilterBytes
     then Inl PublicationBusy
     else Inr (s', True))"

section \<open>The passes of a query\<close>

text \<open>
  The query of a pass and the database that a pass reads are arguments: the provider's answers and
  the catalog may change from pass to pass.  Requests of one pass are independent of each
  other, so their interleaving does not matter.
\<close>

type_synonym pass_query = "nat \<Rightarrow> namespace_search \<Rightarrow> tp_filter \<Rightarrow> provider_error + search_row list list"

definition fetch_sets :: "pass_query \<Rightarrow> nat \<Rightarrow> namespace_search \<Rightarrow> query_error + namespace_search" where
  "fetch_sets query pass s =
    (case query pass s (searchPublicationFilter (sort (se_excluded s)) (sort (se_excluded_segments s))) of
       Inl e \<Rightarrow> Inl (ProviderFailed e)
     | Inr sets \<Rightarrow> try_then (unseen_paths (s\<lparr>se_sets := sets\<rparr>)) (\<lambda>_. Inr (s\<lparr>se_sets := sets\<rparr>)))"

definition look_up_paths :: "database \<Rightarrow> string \<Rightarrow> namespace_search \<Rightarrow> query_error + namespace_search" where
  "look_up_paths db orgID s = try_then (unseen_paths s) (\<lambda>paths. candidatePublications db orgID paths s)"

text \<open>A step of a pass on every pending search, in their order.\<close>

fun over_pending :: "('s \<Rightarrow> query_error + 's) \<Rightarrow> nat list \<Rightarrow> 's list \<Rightarrow> query_error + 's list" where
  "over_pending f [] xs = Inr xs"
| "over_pending f (i # is) xs = try_then (f (xs ! i)) (\<lambda>x. over_pending f is (xs[i := x]))"

fun validate_pending :: "nat list \<Rightarrow> namespace_search list \<Rightarrow> query_error + namespace_search list \<times> nat list" where
  "validate_pending [] ss = Inr (ss, [])"
| "validate_pending (i # is) ss = try_then (validate_search (ss ! i)) (\<lambda>(s, again).
     try_then (validate_pending is (ss[i := s])) (\<lambda>(ss', todo). Inr (ss', if again then i # todo else todo)))"

fun publication_passes :: "pass_query \<Rightarrow> (nat \<Rightarrow> database) \<Rightarrow> string \<Rightarrow> nat \<Rightarrow> nat \<Rightarrow> nat list \<Rightarrow> namespace_search list
    \<Rightarrow> query_error + namespace_search list" where
  "publication_passes query dbs orgID 0 pass waiting ss = (if waiting = [] then Inr ss else Inl PublicationBusy)"
| "publication_passes query dbs orgID (Suc n) pass waiting ss =
    (if waiting = [] then Inr ss
     else try_then (over_pending (fetch_sets query pass) waiting ss) (\<lambda>ss1.
       try_then (over_pending (look_up_paths (dbs pass) orgID) waiting ss1) (\<lambda>ss2.
         try_then (over_pending (candidateSegments (dbs pass) orgID) waiting ss2) (\<lambda>ss3.
           try_then (validate_pending waiting ss3) (\<lambda>(ss4, todo).
             publication_passes query dbs orgID n (Suc pass) todo ss4)))))"

definition queryPublishedRows :: "pass_query \<Rightarrow> (nat \<Rightarrow> database) \<Rightarrow> string \<Rightarrow> namespace_search list \<Rightarrow> query_error + namespace_search list" where
  "queryPublishedRows query dbs orgID ss = publication_passes query dbs orgID maxPublicationSearchPasses 0 [0..<length ss]
     (map (\<lambda>s. s\<lparr>se_publications := [], se_excluded := [], se_excluded_segments := [], se_segments := []\<rparr>) ss)"

section \<open>Rank fusion\<close>

definition rrf_score :: "search_row list list \<Rightarrow> nat \<Rightarrow> string \<Rightarrow> rat" where
  "rrf_score sets k i = sum_list (map (\<lambda>rs. sum_list (map (\<lambda>(rank, r). if sr_id r = i then 1 / of_nat (k + rank + 1) else 0) (enumerate 0 rs))) sets)"

definition reciprocalRankFusion :: "(string list \<Rightarrow> string list) \<Rightarrow> search_row list list \<Rightarrow> nat \<Rightarrow> search_row list" where
  "reciprocalRankFusion order sets k =
    (let docs = map_of (rev (map (\<lambda>r. (sr_id r, r)) (concat sets)));
         ids = order (remdups (map sr_id (concat sets))) in
     List.map_filter (\<lambda>i. map_option (\<lambda>r. r\<lparr>sr_dist := rrf_score sets k i\<rparr>) (docs i)) (sort_key (\<lambda>i. - rrf_score sets k i) ids))"

section \<open>Admission\<close>

record search_limits = lim_global :: int lim_tenant :: int

definition lease_sum :: "lease_row list \<Rightarrow> int" where
  "lease_sum leases = sum_list (map sl_slots leases)"

definition admitSearch :: "search_limits \<Rightarrow> database \<Rightarrow> nat \<Rightarrow> string \<Rightarrow> string \<Rightarrow> int \<Rightarrow> (query_error + string) \<times> database" where
  "admitSearch limits db now newID orgID slots =
    (let live = filter (\<lambda>l. \<not> sl_expires l \<le> now) (search_leases db); db' = db\<lparr>search_leases := live\<rparr> in
     if lease_sum live + slots \<le> lim_global limits \<and> lease_sum (filter (\<lambda>l. sl_org l = orgID) live) + slots \<le> lim_tenant limits
     then (Inr newID, db'\<lparr>search_leases := live @ [\<lparr>sl_id = newID, sl_org = orgID, sl_slots = slots, sl_expires = now + 45\<rparr>]\<rparr>)
     else (Inl AdmissionFull, db'))"

definition release_search :: "database \<Rightarrow> string \<Rightarrow> database" where
  "release_search db leaseID = db\<lparr>search_leases := filter (\<lambda>l. sl_id l \<noteq> leaseID) (search_leases db)\<rparr>"

definition default_limits :: search_limits where
  "default_limits = \<lparr>lim_global = 32, lim_tenant = 16\<rparr>"

text \<open>\<^verbatim>\<open>ConfigureSearchAdmissionFromEnv\<close>: a limit that is set must be in 1..4096, and the tenant's must not exceed the global one.\<close>

definition configured_limit :: "int \<Rightarrow> string \<Rightarrow> int option" where
  "configured_limit current raw = (if trim_space raw = [] then Some current
     else case atoi (trim_space raw) of None \<Rightarrow> None | Some n \<Rightarrow> if n < 1 \<or> n > 4096 then None else Some n)"

definition ConfigureSearchAdmission :: "search_limits \<Rightarrow> string \<Rightarrow> string \<Rightarrow> search_limits option" where
  "ConfigureSearchAdmission limits global tenant =
    (case (configured_limit (lim_global limits) global, configured_limit (lim_tenant limits) tenant) of
       (Some g, Some t) \<Rightarrow> if t > g then None else Some \<lparr>lim_global = g, lim_tenant = t\<rparr>
     | _ \<Rightarrow> None)"

section \<open>The access filter\<close>

definition filterDeniedQueryRows :: "search_row list \<Rightarrow> string list \<Rightarrow> search_row list" where
  "filterDeniedQueryRows rows deniedPrefixes = (if deniedPrefixes = [] then rows
     else filter (\<lambda>r. \<not> list_ex (\<lambda>d. has_prefix (''/'' @ sr_path r) d) deniedPrefixes) rows)"

definition denied_for :: "database \<Rightarrow> identity \<Rightarrow> string \<Rightarrow> string list" where
  "denied_for db idn rootID = map acl_prefix (filter (\<lambda>a. acl_org a = id_org idn \<and> acl_root a = rootID \<and> acl_permission a = ''none''
     \<and> acl_grant_to a \<in> set (acl_targets (id_user idn) (id_role idn))) (root_acls db))"

definition proof_hash :: "database \<Rightarrow> identity \<Rightarrow> string \<Rightarrow> string \<Rightarrow> string" where
  "proof_hash db idn rootID path = (case proof_of db (id_org idn) (id_user idn) rootID path of
     Some p \<Rightarrow> if pf_deleted p then [] else pf_hash p | None \<Rightarrow> [])"

definition needs_proof :: "identity \<Rightarrow> root_row \<Rightarrow> bool" where
  "needs_proof idn rm \<longleftrightarrow> root_scope rm = RootScopeUser \<and> \<not> HasMinRole (id_role idn) RoleAdmin"

definition filter_root_rows :: "database \<Rightarrow> identity \<Rightarrow> root_row \<Rightarrow> search_row list \<Rightarrow> search_row list" where
  "filter_root_rows db idn rm rows = (if rows = [] then []
     else let rows' = filterDeniedQueryRows rows (denied_for db idn (root_id rm)) in
       if needs_proof idn rm then filter (\<lambda>r. sr_hash r \<noteq> [] \<and> proof_hash db idn (root_id rm) (sr_path r) = sr_hash r) rows' else rows')"

definition filterSearchRowsAccess :: "database \<Rightarrow> identity \<Rightarrow> root_row list \<Rightarrow> search_row list list \<Rightarrow> search_row list list" where
  "filterSearchRowsAccess db idn selected sets = map (\<lambda>(rm, rows). filter_root_rows db idn rm rows) (zip selected sets)"

definition filterRowsAccess :: "database \<Rightarrow> identity \<Rightarrow> root_row \<Rightarrow> search_row list \<Rightarrow> search_row list" where
  "filterRowsAccess db idn rm rows = hd (filterSearchRowsAccess db idn [rm] [rows])"

section \<open>The query endpoint\<close>

record query_request =
  qq_query :: string
  qq_root :: string
  qq_roots :: "string list"
  qq_all :: bool
  qq_topk :: int
  qq_mode :: string
  qq_glob :: string

record query_result =
  qs_root :: string
  qs_name :: string
  qs_path :: string
  qs_absolute :: string
  qs_content :: string
  qs_type :: string
  qs_score :: rat
  qs_chunk :: int
  qs_page :: "int option"

datatype selection_error = SelectorMissing | SelectorConflict | SelectorEmpty | SelectedRootMissing

definition filteredQueryLimit :: "int \<Rightarrow> int" where
  "filteredQueryLimit topK = (let limit = wrap64 ((if topK < 1 then 10 else topK) * 10);
      limit1 = (if limit < 50 then 50 else limit) in if limit1 > 1000 then 1000 else limit1)"

definition selected_ids :: "string list \<Rightarrow> string list" where
  "selected_ids raw = rev (remdups (rev (filter (\<lambda>i. i \<noteq> []) (map trim_space raw))))"

definition resolveQueryRoots :: "database \<Rightarrow> identity \<Rightarrow> query_request \<Rightarrow> selection_error + root_access list" where
  "resolveQueryRoots db idn req =
    (let selectors = (if trim_space (qq_root req) \<noteq> [] then 1 else 0) + (if qq_roots req \<noteq> [] then 1 else 0) + (if qq_all req then 1 else (0 :: nat)) in
     if selectors = 0 then Inl SelectorMissing
     else if selectors > 1 then Inl SelectorConflict
     else if qq_all req then Inr (accessibleRoots db (id_org idn) (id_user idn) (id_role idn) None)
     else if trim_space (qq_root req) \<noteq> [] then
       (case permitted_root db (Some idn) (trim_space (qq_root req)) PermRead of None \<Rightarrow> Inl SelectedRootMissing | Some a \<Rightarrow> Inr [a])
     else (let ids = selected_ids (qq_roots req) in
       if ids = [] then Inl SelectorEmpty
       else (let loaded = accessibleRoots db (id_org idn) (id_user idn) (id_role idn) (Some ids);
                 byID = map_of (rev (map (\<lambda>a. (root_id (ra_root a), a)) loaded)) in
             if list_all (\<lambda>i. byID i \<noteq> None) ids then Inr (map (\<lambda>i. the (byID i)) ids) else Inl SelectedRootMissing)))"

definition queryNamespaces :: "database \<Rightarrow> string \<Rightarrow> root_row list \<Rightarrow> query_error + (string \<times> string) list" where
  "queryNamespaces db orgID selected =
    (let rows = map (\<lambda>r. (root_id r, if list_ex (\<lambda>f. fc_root f = root_id r) (file_catalog db)
            then (case find (\<lambda>n. ns_org n = orgID \<and> ns_root n = root_id r \<and> \<not> ns_retired n) (root_index_namespaces db) of
                    None \<Rightarrow> [] | Some n \<Rightarrow> ns_namespace n)
            else [])) (filter (\<lambda>r. live_root db orgID (root_id r)) selected) in
     if length (remdups (map fst rows)) \<noteq> length selected then Inl QueryRootMissing else Inr rows)"

record tp_query = tq_rank :: string tq_limit :: int tq_filter :: tp_filter

record search_env =
  en_query :: "nat \<Rightarrow> string \<Rightarrow> tp_query \<Rightarrow> provider_error + search_row list"
  en_multi :: "nat \<Rightarrow> string \<Rightarrow> tp_query list \<Rightarrow> provider_error + search_row list list"
  en_pass_db :: "nat \<Rightarrow> database"
  en_access_db :: "database option"
  en_order :: "string list \<Rightarrow> string list"

definition rankings :: "string \<Rightarrow> root_row \<Rightarrow> string list" where
  "rankings mode rm = (if mode = ''hybrid'' \<and> \<not> root_vector_disabled rm then [''ANN'', ''BM25'']
     else if mode = ''vector'' then [''ANN''] else [''BM25''])"

definition new_searches :: "string \<Rightarrow> (string \<times> string) list \<Rightarrow> root_row list \<Rightarrow> namespace_search list" where
  "new_searches mode namespaces selected = List.map_filter (\<lambda>rm. case map_of namespaces (root_id rm) of
      None \<Rightarrow> None
    | Some ns \<Rightarrow> if ns = [] then None else Some \<lparr>se_root = root_id rm, se_namespace = ns, se_rankings = rankings mode rm, se_sets = [],
        se_publications = [], se_excluded = [], se_excluded_segments = [], se_segments = [], se_filter_bytes = 0\<rparr>) selected"

definition provider_query :: "search_env \<Rightarrow> query_request \<Rightarrow> int \<Rightarrow> pass_query" where
  "provider_query env req queryLimit pass s visibility =
    (let filters = tpAndFilter (visibility # (if qq_glob req \<noteq> [] then [GlobMatch ''file_path'' (qq_glob req)] else []));
         queries = map (\<lambda>rank. \<lparr>tq_rank = rank, tq_limit = queryLimit, tq_filter = filters\<rparr>) (se_rankings s) in
     case queries of
       [q] \<Rightarrow> (case en_query env pass (se_namespace s) q of Inl e \<Rightarrow> Inl e | Inr rows \<Rightarrow> Inr [rows])
     | _ \<Rightarrow> en_multi env pass (se_namespace s) queries)"

definition root_rows :: "search_env \<Rightarrow> namespace_search list \<Rightarrow> int \<Rightarrow> root_row \<Rightarrow> search_row list" where
  "root_rows env ss queryLimit rm = take (nat queryLimit)
     (case find (\<lambda>s. se_root s = root_id rm) (rev ss) of
        None \<Rightarrow> []
      | Some s \<Rightarrow> (case se_sets s of [rows] \<Rightarrow> rows | sets \<Rightarrow> reciprocalRankFusion (en_order env) sets 60))"

definition queryResultsFromRows :: "root_row \<Rightarrow> search_row list \<Rightarrow> query_result list" where
  "queryResultsFromRows rm rows = map (\<lambda>r. \<lparr>qs_root = root_id rm, qs_name = root_name rm, qs_path = sr_path r, qs_absolute = sr_absolute r,
     qs_content = sr_content r, qs_type = sr_type r, qs_score = sr_dist r, qs_chunk = (case sr_chunk r of None \<Rightarrow> 0 | Some c \<Rightarrow> c),
     qs_page = sr_page r\<rparr>) rows"

definition query_width :: "search_limits \<Rightarrow> nat \<Rightarrow> int" where
  "query_width limits n = min (min (int n) maxConcurrentSearchNamespaces) (min (lim_global limits) (lim_tenant limits))"

definition querySearchRoots ::
  "search_env \<Rightarrow> search_limits \<Rightarrow> database \<Rightarrow> nat \<Rightarrow> string \<Rightarrow> identity \<Rightarrow> query_request \<Rightarrow> root_row list \<Rightarrow> (string \<times> string) list \<Rightarrow> int
    \<Rightarrow> (query_error + query_result list) \<times> database" where
  "querySearchRoots env limits db now leaseID idn req selected namespaces queryLimit =
    (let ss = new_searches (qq_mode req) namespaces selected in
     if ss = [] then (Inr [], db)
     else (case admitSearch limits db now leaseID (id_org idn) (query_width limits (length ss)) of
         (Inl e, db1) \<Rightarrow> (Inl e, db1)
       | (Inr lease, db1) \<Rightarrow>
          (case queryPublishedRows (provider_query env req queryLimit) (en_pass_db env) (id_org idn) ss of
             Inl e \<Rightarrow> (Inl e, release_search db1 lease)
           | Inr ss' \<Rightarrow>
              (case en_access_db env of
                 None \<Rightarrow> (Inl PermissionsUnavailable, release_search db1 lease)
               | Some adb \<Rightarrow>
                  (let sets = filterSearchRowsAccess adb idn selected (map (root_rows env ss' queryLimit) selected)
                   in (Inr (concat (map (\<lambda>(rm, rows). queryResultsFromRows rm (take (nat (qq_topk req)) rows)) (zip selected sets))),
                       release_search db1 lease))))))"

datatype query_response = QueryFail nat string | QueryReply "query_result list" nat

definition writeQueryError :: "query_error \<Rightarrow> query_response" where
  "writeQueryError e = (case e of
      ProviderFailed EmbeddingBusy \<Rightarrow> QueryFail 429 ''embedding_capacity_busy''
    | AdmissionFull \<Rightarrow> QueryFail 429 ''search_capacity_busy''
    | QueryRootMissing \<Rightarrow> QueryFail 404 []
    | PublicationBusy \<Rightarrow> QueryFail 503 ''search_publication_busy''
    | ProviderFailed DeadlineExceeded \<Rightarrow> QueryFail 504 []
    | _ \<Rightarrow> QueryFail 500 [])"

definition defaulted :: "query_request \<Rightarrow> query_request" where
  "defaulted raw = raw\<lparr>qq_topk := (if qq_topk raw \<le> 0 then 10 else qq_topk raw), qq_mode := (if qq_mode raw = [] then ''hybrid'' else qq_mode raw)\<rparr>"

definition handleQuery ::
  "search_env \<Rightarrow> search_limits \<Rightarrow> database \<Rightarrow> nat \<Rightarrow> string \<Rightarrow> identity option \<Rightarrow> query_request option \<Rightarrow> query_response \<times> database" where
  "handleQuery env limits db now leaseID who body =
    (case who of
       None \<Rightarrow> (QueryFail 401 [], db)
     | Some idn \<Rightarrow>
        if \<not> HasScope who ''query'' [''read''] then (QueryFail 403 [], db)
        else (case body of
           None \<Rightarrow> (QueryFail 400 [], db)
         | Some raw \<Rightarrow>
            if qq_query raw = [] then (QueryFail 400 [], db)
            else (let req = defaulted raw in
              case resolveQueryRoots db idn req of
                Inl e \<Rightarrow> (QueryFail (if e = SelectedRootMissing then 404 else 400) [], db)
              | Inr selection \<Rightarrow>
                 (let selected = map ra_root selection in
                  if qq_mode req \<notin> {''fts'', ''vector'', ''hybrid''} then (QueryFail 400 [], db)
                  else if qq_mode req = ''vector'' \<and> list_ex root_vector_disabled selected then (QueryFail 400 [], db)
                  else (case queryNamespaces db (id_org idn) selected of
                      Inl e \<Rightarrow> (writeQueryError e, db)
                    | Inr namespaces \<Rightarrow>
                       (case querySearchRoots env limits db now leaseID idn req selected namespaces (filteredQueryLimit (qq_topk req)) of
                          (Inl e, db') \<Rightarrow> (writeQueryError e, db')
                        | (Inr results, db') \<Rightarrow>
                           (let sorted_results = (if length selected > 1
                                  then sort_key (\<lambda>r. if qq_mode req = ''vector'' then qs_score r else - qs_score r) results else results)
                            in (QueryReply (take (nat (qq_topk req)) sorted_results) (length selected), db'))))))))"

section \<open>Every row of an answer is published\<close>

text \<open>What a search has learned from the database in the passes so far.\<close>

definition learned :: "(nat \<Rightarrow> database) \<Rightarrow> string \<Rightarrow> namespace_search \<Rightarrow> bool" where
  "learned dbs orgID s \<longleftrightarrow>
     (\<forall>(p, pub)\<in>set (se_publications s). \<exists>k. live_root (dbs k) orgID (se_root s) \<and> pub = publication_at (dbs k) (se_root s) p)
     \<and> (\<forall>(c, ok)\<in>set (se_segments s). ok \<longrightarrow> (\<exists>k. segment_published (dbs k) orgID (se_root s) c))"

definition rows_published :: "namespace_search \<Rightarrow> bool" where
  "rows_published s \<longleftrightarrow> (\<forall>r\<in>set (concat (se_sets s)). row_valid s r \<and> sr_hash r = pb_hash (published s (sr_path r)))"

lemma over_pending_Inr:
  assumes "over_pending f is xs = Inr ys" "distinct is" "\<forall>i\<in>set is. i < length xs"
  shows "length ys = length xs" "i \<notin> set is \<Longrightarrow> ys ! i = xs ! i" "i \<in> set is \<Longrightarrow> f (xs ! i) = Inr (ys ! i)"
proof -
  have "length ys = length xs \<and> (\<forall>i. (i \<notin> set is \<longrightarrow> ys ! i = xs ! i) \<and> (i \<in> set is \<longrightarrow> f (xs ! i) = Inr (ys ! i)))"
    using assms
  proof (induction f "is" xs rule: over_pending.induct)
    case (2 f j js xs)
    then obtain x where x: "f (xs ! j) = Inr x" and rest: "over_pending f js (xs[j := x]) = Inr ys" by (auto simp: try_then_Inr_iff)
    have ih: "length ys = length (xs[j := x]) \<and> (\<forall>i. (i \<notin> set js \<longrightarrow> ys ! i = xs[j := x] ! i) \<and> (i \<in> set js \<longrightarrow> f (xs[j := x] ! i) = Inr (ys ! i)))"
      using 2 x rest by auto
    have j: "j \<notin> set js" "j < length xs" using "2.prems" by auto
    then have "\<forall>i\<in>set js. f (xs ! i) = Inr (ys ! i)" using ih by (metis nth_list_update_neq)
    moreover have "ys ! j = x" using ih j by simp
    moreover have "\<forall>i. i \<notin> set (j # js) \<longrightarrow> ys ! i = xs ! i" using ih by auto
    ultimately show ?case using ih x by auto
  qed simp
  then show "length ys = length xs" "i \<notin> set is \<Longrightarrow> ys ! i = xs ! i" "i \<in> set is \<Longrightarrow> f (xs ! i) = Inr (ys ! i)" by blast+
qed

lemma published_exclude [simp]:
  "se_publications (exclude_row r s) = se_publications s" "se_segments (exclude_row r s) = se_segments s" "se_sets (exclude_row r s) = se_sets s"
  "se_root (exclude_row r s) = se_root s" "se_namespace (exclude_row r s) = se_namespace s"
  by (simp_all add: exclude_row_def)

lemma published_excludes [simp]:
  "se_publications (fold exclude_row rs s) = se_publications s" "se_segments (fold exclude_row rs s) = se_segments s"
  "se_sets (fold exclude_row rs s) = se_sets s" "se_root (fold exclude_row rs s) = se_root s"
  by (induction rs arbitrary: s) auto

lemma validate_search_Inr:
  assumes "validate_search s = Inr (s', again)"
  shows "se_root s' = se_root s" "learned dbs orgID s' = learned dbs orgID s" "\<not> again \<Longrightarrow> rows_published s'"
    "exclusions s' \<le> maxPublicationExclusions \<or> \<not> again"
proof -
  define mark where "mark = (\<lambda>r. if row_valid s r then r\<lparr>sr_hash := pb_hash (published s (sr_path r))\<rparr> else r)"
  define s1 where "s1 = s\<lparr>se_sets := map (map mark) (se_sets s)\<rparr>"
  let ?bad = "filter (\<lambda>r. \<not> row_valid s r) (concat (se_sets s))"
  have s': "s' = fold exclude_row ?bad s1" and again: "again \<longleftrightarrow> ?bad \<noteq> []"
    using assms by (auto simp: validate_search_def Let_def s1_def mark_def split: if_splits)
  show root: "se_root s' = se_root s" by (simp add: s' s1_def)
  show "learned dbs orgID s' = learned dbs orgID s" by (simp add: learned_def s' s1_def)
  have valid: "row_valid s' r = row_valid s r" "published s' p = published s p" for r p
    by (simp_all add: row_valid_def published_def s' s1_def Let_def)
  have hash: "row_valid s (r\<lparr>sr_hash := h\<rparr>) = row_valid s r" for r h by (simp add: row_valid_def Let_def)
  show "rows_published s'" if "\<not> again"
  proof -
    have all: "row_valid s r" if "r \<in> set (concat (se_sets s))" for r using \<open>\<not> again\<close> that again by (auto simp: filter_empty_conv)
    have "set (concat (se_sets s')) = mark ` set (concat (se_sets s))" by (auto simp: s' s1_def)
    then show ?thesis using all by (auto simp: rows_published_def valid hash mark_def)
  qed
  show "exclusions s' \<le> maxPublicationExclusions \<or> \<not> again"
    using assms by (auto simp: validate_search_def Let_def split: if_splits)
qed

lemma validate_pending_Inr:
  assumes "validate_pending is ss = Inr (ss', todo)" "distinct is" "\<forall>i\<in>set is. i < length ss"
  shows "length ss' = length ss \<and> distinct todo \<and> set todo \<subseteq> set is \<and> (\<forall>i. i \<notin> set is \<longrightarrow> ss' ! i = ss ! i)
    \<and> (\<forall>i\<in>set is. validate_search (ss ! i) = Inr (ss' ! i, i \<in> set todo))"
  using assms
proof (induction "is" ss arbitrary: todo rule: validate_pending.induct)
  case (2 j js ss)
  then obtain s again todo' where s: "validate_search (ss ! j) = Inr (s, again)" and rest: "validate_pending js (ss[j := s]) = Inr (ss', todo')"
    and todo: "todo = (if again then j # todo' else todo')" by (auto simp: try_then_Inr_iff)
  have j: "j \<notin> set js" "j < length ss" using "2.prems" by auto
  have ih: "length ss' = length (ss[j := s]) \<and> distinct todo' \<and> set todo' \<subseteq> set js \<and> (\<forall>i. i \<notin> set js \<longrightarrow> ss' ! i = ss[j := s] ! i)
    \<and> (\<forall>i\<in>set js. validate_search (ss[j := s] ! i) = Inr (ss' ! i, i \<in> set todo'))"
    using 2 s rest by auto
  have "validate_search (ss ! i) = Inr (ss' ! i, i \<in> set todo)" if "i \<in> set js" for i
  proof -
    have "j \<noteq> i" using j that by auto
    then show ?thesis using ih that unfolding todo by auto
  qed
  moreover have "validate_search (ss ! j) = Inr (ss' ! j, j \<in> set todo)" using ih j s unfolding todo by auto
  moreover have "\<forall>i. i \<notin> set (j # js) \<longrightarrow> ss' ! i = ss ! i" using ih by auto
  moreover have "distinct todo" "set todo \<subseteq> set (j # js)" using ih j unfolding todo by auto
  ultimately show ?case using ih by auto
qed auto

lemma look_up_paths_Inr:
  assumes "look_up_paths (dbs k) orgID s = Inr s'" "learned dbs orgID s"
  shows "learned dbs orgID s'" "se_root s' = se_root s"
  using assms by (auto simp: look_up_paths_def try_then_Inr_iff candidatePublications_def learned_def split: if_splits)

lemma note_segments_Inr:
  assumes "note_segments s rs lookups = Inr (s', lookups')"
  shows "se_root s' = se_root s \<and> se_publications s' = se_publications s
    \<and> (\<forall>(c, ok)\<in>set (se_segments s'). ok \<longrightarrow> (c, True) \<in> set (se_segments s))"
  using assms
proof (induction s rs lookups arbitrary: s' lookups' rule: note_segments.induct)
  case (2 s r rs lookups)
  then show ?case by (fastforce simp: Let_def split: if_splits)
qed auto

lemma candidateSegments_Inr:
  assumes run: "candidateSegments (dbs k) orgID s = Inr s'" and ok: "learned dbs orgID s"
  shows "learned dbs orgID s'" "se_root s' = se_root s"
proof -
  obtain s1 lookups where n: "note_segments s (concat (se_sets s)) [] = Inr (s1, lookups)"
    and s': "s' = s1\<lparr>se_segments := map (\<lambda>(c, ok). (c, ok \<or> c \<in> set lookups \<and> segment_published (dbs k) orgID (se_root s) c)) (se_segments s1)\<rparr>"
    using run by (auto simp: candidateSegments_def try_then_Inr_iff)
  note N = note_segments_Inr[OF n]
  show "se_root s' = se_root s" using N by (simp add: s')
  have "\<exists>k. segment_published (dbs k) orgID (se_root s) c" if "(c, ok) \<in> set (se_segments s')" "ok" for c ok
    using that N ok by (fastforce simp: s' learned_def)
  then show "learned dbs orgID s'" using N ok by (auto simp: learned_def s')
qed

lemma fetch_sets_Inr:
  assumes "fetch_sets query k s = Inr s'" "learned dbs orgID s"
  shows "learned dbs orgID s'" "se_root s' = se_root s"
  using assms by (auto simp: fetch_sets_def learned_def try_then_Inr_iff split: sum.splits)

text \<open>A pass, and then all of them, keep what is known of every search.\<close>

definition searches_ok :: "(nat \<Rightarrow> database) \<Rightarrow> string \<Rightarrow> string list \<Rightarrow> nat list \<Rightarrow> namespace_search list \<Rightarrow> bool" where
  "searches_ok dbs orgID ids waiting ss \<longleftrightarrow> map se_root ss = ids \<and> (\<forall>s\<in>set ss. learned dbs orgID s)
     \<and> (\<forall>i<length ss. i \<notin> set waiting \<longrightarrow> rows_published (ss ! i))"

lemma over_pending_keeps:
  assumes run: "over_pending f is xs = Inr ys" and d: "distinct is" "\<forall>i\<in>set is. i < length xs"
    and keeps: "\<And>s s'. f s = Inr s' \<Longrightarrow> learned dbs orgID s \<Longrightarrow> learned dbs orgID s' \<and> se_root s' = se_root s"
    and ok: "searches_ok dbs orgID ids is xs"
  shows "searches_ok dbs orgID ids is ys" "length ys = length xs"
proof -
  note P = over_pending_Inr[OF run d]
  show len: "length ys = length xs" by (rule P(1))
  have each: "learned dbs orgID (ys ! i) \<and> se_root (ys ! i) = se_root (xs ! i)" if "i < length xs" for i
  proof (cases "i \<in> set is")
    case True
    then show ?thesis using keeps[OF P(3)[OF True]] ok that by (simp add: searches_ok_def)
  next
    case False
    then show ?thesis using P(2)[OF False] ok that by (simp add: searches_ok_def)
  qed
  have "map se_root ys = map se_root xs" using each len by (simp add: list_eq_iff_nth_eq)
  moreover have "\<forall>s\<in>set ys. learned dbs orgID s" using each len by (metis in_set_conv_nth)
  moreover have "\<forall>i<length ys. i \<notin> set is \<longrightarrow> rows_published (ys ! i)" using ok P(2) len by (simp add: searches_ok_def)
  ultimately show "searches_ok dbs orgID ids is ys" using ok by (simp add: searches_ok_def)
qed

lemma validate_pending_keeps:
  assumes run: "validate_pending is ss = Inr (ss', todo)" and d: "distinct is" "\<forall>i\<in>set is. i < length ss"
    and ok: "searches_ok dbs orgID ids is ss"
  shows "searches_ok dbs orgID ids todo ss'" "distinct todo" "\<forall>i\<in>set todo. i < length ss'"
proof -
  note P = validate_pending_Inr[OF run d]
  show "distinct todo" "\<forall>i\<in>set todo. i < length ss'" using P d by auto
  have each: "learned dbs orgID (ss' ! i) \<and> se_root (ss' ! i) = se_root (ss ! i) \<and> (i \<notin> set todo \<longrightarrow> rows_published (ss' ! i))"
    if "i < length ss" for i
  proof (cases "i \<in> set is")
    case True
    then have v: "validate_search (ss ! i) = Inr (ss' ! i, i \<in> set todo)" using P by simp
    show ?thesis using validate_search_Inr(1,3)[OF v] validate_search_Inr(2)[OF v, of dbs orgID] ok that by (simp add: searches_ok_def)
  next
    case False
    then show ?thesis using P ok that by (simp add: searches_ok_def)
  qed
  have len: "length ss' = length ss" using P by simp
  have "map se_root ss' = map se_root ss" using each len by (simp add: list_eq_iff_nth_eq)
  moreover have "\<forall>s\<in>set ss'. learned dbs orgID s" using each len by (metis in_set_conv_nth)
  ultimately show "searches_ok dbs orgID ids todo ss'" using ok each len by (simp add: searches_ok_def)
qed

lemma publication_passes_ok:
  assumes "publication_passes query dbs orgID n pass waiting ss = Inr ss'" "searches_ok dbs orgID ids waiting ss"
    "distinct waiting" "\<forall>i\<in>set waiting. i < length ss"
  shows "searches_ok dbs orgID ids [] ss'"
  using assms
proof (induction n arbitrary: pass waiting ss)
  case 0
  then show ?case by (simp split: if_splits)
next
  case (Suc n)
  show ?case
  proof (cases "waiting = []")
    case True
    with Suc.prems show ?thesis by simp
  next
    case False
    with Suc.prems(1) obtain s1 s2 s3 s4 todo where
      r1: "over_pending (fetch_sets query pass) waiting ss = Inr s1" and
      r2: "over_pending (look_up_paths (dbs pass) orgID) waiting s1 = Inr s2" and
      r3: "over_pending (candidateSegments (dbs pass) orgID) waiting s2 = Inr s3" and
      r4: "validate_pending waiting s3 = Inr (s4, todo)" and
      r5: "publication_passes query dbs orgID n (Suc pass) todo s4 = Inr ss'" by (auto simp: try_then_Inr_iff)
    note d = Suc.prems(3,4)
    have k1: "searches_ok dbs orgID ids waiting s1" "length s1 = length ss"
      by (rule over_pending_keeps[OF r1 d _ Suc.prems(2)]; blast dest: fetch_sets_Inr)+
    have k2: "searches_ok dbs orgID ids waiting s2" "length s2 = length ss"
      using over_pending_keeps[OF r2 d(1) _ _ k1(1)] look_up_paths_Inr d(2) k1(2) by metis+
    have k3: "searches_ok dbs orgID ids waiting s3" "length s3 = length ss"
      using over_pending_keeps[OF r3 d(1) _ _ k2(1)] candidateSegments_Inr d(2) k2(2) by metis+
    have "\<forall>i\<in>set waiting. i < length s3" using d(2) k3(2) by simp
    from validate_pending_keeps[OF r4 d(1) this k3(1)] show ?thesis using Suc.IH[OF r5] by blast
  qed
qed

lemma queryPublishedRows_published:
  assumes "queryPublishedRows query dbs orgID ss = Inr ss'" "s \<in> set ss'"
  shows "learned dbs orgID s" "rows_published s" "se_root s \<in> se_root ` set ss"
proof -
  have "searches_ok dbs orgID (map se_root ss) [] ss'"
    using assms(1) unfolding queryPublishedRows_def
    by (rule publication_passes_ok) (auto simp: searches_ok_def learned_def)
  then have ok: "map se_root ss' = map se_root ss" "\<forall>s\<in>set ss'. learned dbs orgID s" "\<forall>s\<in>set ss'. rows_published s"
    by (auto simp: searches_ok_def in_set_conv_nth)
  then show "learned dbs orgID s" "rows_published s" using assms(2) by auto
  show "se_root s \<in> se_root ` set ss" using ok(1) assms(2) by (metis imageI list.set_map)
qed

text \<open>What a published row says of the catalog of some pass.\<close>

definition published_in :: "database \<Rightarrow> string \<Rightarrow> string \<Rightarrow> string \<Rightarrow> string \<Rightarrow> bool" where
  "published_in db orgID rootID path hash \<longleftrightarrow> live_root db orgID rootID \<and>
     (\<exists>f. file_at db rootID path = Some f \<and> \<not> fc_deleted f \<and> fc_indexed_extraction f \<noteq> []
       \<and> (hash \<noteq> [] \<longrightarrow> (\<exists>v\<in>set (file_versions db). fv_id v = fc_indexed_version f \<and> fv_hash v = hash)))"

lemma published_row:
  assumes "learned dbs orgID s" "rows_published s" "r \<in> set (concat (se_sets s))"
  shows "\<exists>k. published_in (dbs k) orgID (se_root s) (sr_path r) (sr_hash r)"
proof -
  have v: "row_valid s r" "sr_hash r = pb_hash (published s (sr_path r))" using assms by (auto simp: rows_published_def)
  obtain pub where pub: "map_of (se_publications s) (sr_path r) = Some pub" and p: "\<not> pb_deleted pub" "pb_extraction pub \<noteq> []" "sr_hash r = pb_hash pub"
    using v by (auto simp: row_valid_def published_def no_publication_def Let_def split: option.splits)
  from map_of_SomeD[OF pub] assms(1) obtain k where k: "live_root (dbs k) orgID (se_root s)" "pub = publication_at (dbs k) (se_root s) (sr_path r)"
    by (auto simp: learned_def)
  have "published_in (dbs k) orgID (se_root s) (sr_path r) (sr_hash r)"
    using k p by (auto simp: published_in_def publication_at_def no_publication_def dest: find_member_mem split: option.splits)
  then show ?thesis by blast
qed

section \<open>Every result of an answer is readable\<close>

lemma reciprocalRankFusion_rows:
  assumes "r \<in> set (reciprocalRankFusion order sets k)"
  shows "\<exists>r'\<in>set (concat sets). sr_path r = sr_path r' \<and> sr_hash r = sr_hash r'"
proof -
  obtain i r' where r': "map_of (rev (map (\<lambda>r. (sr_id r, r)) (concat sets))) i = Some r'" "r = r'\<lparr>sr_dist := rrf_score sets k i\<rparr>"
    using assms by (auto simp: reciprocalRankFusion_def Let_def map_filter_def)
  from map_of_SomeD[OF r'(1)] have "r' \<in> set (concat sets)" by auto
  then show ?thesis using r'(2) by (auto intro!: bexI[of _ r'])
qed

lemma root_rows_mem:
  assumes "r \<in> set (root_rows env ss n rm)"
  shows "\<exists>s\<in>set ss. se_root s = root_id rm \<and> (\<exists>r'\<in>set (concat (se_sets s)). sr_path r = sr_path r' \<and> sr_hash r = sr_hash r')"
proof -
  obtain s where s: "find (\<lambda>s. se_root s = root_id rm) (rev ss) = Some s"
    and r: "r \<in> set (case se_sets s of [rows] \<Rightarrow> rows | sets \<Rightarrow> reciprocalRankFusion (en_order env) sets 60)"
    using assms by (auto simp: root_rows_def dest!: in_set_takeD split: option.splits)
  have "\<exists>r'\<in>set (concat (se_sets s)). sr_path r = sr_path r' \<and> sr_hash r = sr_hash r'"
    using r reciprocalRankFusion_rows[of r "en_order env" "se_sets s" 60] by (auto split: list.splits)
  then show ?thesis using find_member_mem[OF s] by auto
qed

lemma denied_for_check:
  "checkPermission (getACLsForUser db (id_org idn) rootID (id_user idn) (id_role idn)) path perm
    \<longleftrightarrow> \<not> list_ex (\<lambda>d. has_prefix (''/'' @ path) d) (denied_for db idn rootID)"
  by (auto simp: folder.passes_iff acl_blocks_def denied_for_def list_ex_iff getACLsForUser_set)

lemma proof_hash_Some:
  "proof_hash db idn rootID path = h \<Longrightarrow> h \<noteq> []
    \<Longrightarrow> \<exists>p. proof_of db (id_org idn) (id_user idn) rootID path = Some p \<and> \<not> pf_deleted p \<and> pf_hash p = h"
  by (auto simp: proof_hash_def split: option.splits if_splits)

text \<open>The access filter keeps a row exactly when no rule denies its path and, where a proof is needed, the caller has one of its content.\<close>

lemma filter_root_rows_set:
  "r \<in> set (filter_root_rows db idn rm rows) \<longleftrightarrow> r \<in> set rows
     \<and> checkPermission (getACLsForUser db (id_org idn) (root_id rm) (id_user idn) (id_role idn)) (sr_path r) PermRead
     \<and> (needs_proof idn rm \<longrightarrow> sr_hash r \<noteq> [] \<and> proof_hash db idn (root_id rm) (sr_path r) = sr_hash r)"
  by (auto simp: filter_root_rows_def filterDeniedQueryRows_def denied_for_check Let_def)

definition readable_root :: "database \<Rightarrow> identity \<Rightarrow> root_row \<Rightarrow> bool" where
  "readable_root db idn rm \<longleftrightarrow> rm \<in> set (roots db) \<and> root_org rm = id_org idn
     \<and> policy_allows (root_scope rm) (root_owner rm) (id_user idn) (id_role idn) (grants_of db (id_org idn) (id_user idn) rm) PermRead"

lemma accessibleRoots_readable:
  "a \<in> set (accessibleRoots db (id_org idn) (id_user idn) (id_role idn) ids) \<Longrightarrow> readable_root db idn (ra_root a)"
  unfolding accessibleRoots_def readable_root_def by (auto simp: allowed_iff_policy simp del: in_permission_order)

lemma permitted_root_readable:
  "permitted_root db (Some idn) rootID PermRead = Some a \<Longrightarrow> readable_root db idn (ra_root a)"
  using accessibleRoots_readable[of a db idn "Some [rootID]"]
  by (auto simp: permitted_root_def rootForPermission_def split: list.splits bool.splits)

lemma resolveQueryRoots_readable:
  assumes "resolveQueryRoots db idn req = Inr selection" "a \<in> set selection"
  shows "readable_root db idn (ra_root a)"
proof -
  let ?loaded = "accessibleRoots db (id_org idn) (id_user idn) (id_role idn) (Some (selected_ids (qq_roots req)))"
  have byID: "readable_root db idn (ra_root x)" if "map_of (rev (map (\<lambda>a. (root_id (ra_root a), a)) ?loaded)) i = Some x" for i x
    using map_of_SomeD[OF that] by (auto intro: accessibleRoots_readable)
  have listed: "readable_root db idn (ra_root (the (map_of (rev (map (\<lambda>a. (root_id (ra_root a), a)) ?loaded)) i)))"
    if "map_of (rev (map (\<lambda>a. (root_id (ra_root a), a)) ?loaded)) i \<noteq> None" for i using that byID by force
  show ?thesis
    using assms accessibleRoots_readable[of a db idn None] permitted_root_readable[of db idn _ a] listed
    by (auto simp: resolveQueryRoots_def Let_def list_all_iff simp del: not_None_eq split: if_splits option.splits)
qed

text \<open>A result that the caller may see: of a readable root, published in a pass, not denied, and proved where a proof is needed.\<close>

definition may_see :: "search_env \<Rightarrow> database \<Rightarrow> identity \<Rightarrow> query_result \<Rightarrow> bool" where
  "may_see env db idn q \<longleftrightarrow> (\<exists>rm k adb hash. readable_root db idn rm \<and> root_id rm = qs_root q
     \<and> en_access_db env = Some adb \<and> published_in (en_pass_db env k) (id_org idn) (qs_root q) (qs_path q) hash
     \<and> checkPermission (getACLsForUser adb (id_org idn) (qs_root q) (id_user idn) (id_role idn)) (qs_path q) PermRead
     \<and> (needs_proof idn rm \<longrightarrow> hash \<noteq> [] \<and>
          (\<exists>p. proof_of adb (id_org idn) (id_user idn) (qs_root q) (qs_path q) = Some p \<and> \<not> pf_deleted p \<and> pf_hash p = hash)))"

lemma querySearchRoots_Inr:
  assumes run: "querySearchRoots env limits db now leaseID idn req selected namespaces n = (Inr results, db')" and q: "q \<in> set results"
  obtains ss' adb where "queryPublishedRows (provider_query env req n) (en_pass_db env) (id_org idn) (new_searches (qq_mode req) namespaces selected) = Inr ss'"
    "en_access_db env = Some adb"
    "results = concat (map (\<lambda>(rm, rows). queryResultsFromRows rm (take (nat (qq_topk req)) rows))
        (zip selected (filterSearchRowsAccess adb idn selected (map (root_rows env ss' n) selected))))"
proof -
  let ?ss = "new_searches (qq_mode req) namespaces selected"
  let ?admit = "admitSearch limits db now leaseID (id_org idn) (query_width limits (length ?ss))"
  let ?rows = "queryPublishedRows (provider_query env req n) (en_pass_db env) (id_org idn) ?ss"
  have ss: "?ss \<noteq> []" using run q unfolding querySearchRoots_def Let_def by auto
  obtain lease db1 where a: "?admit = (Inr lease, db1)"
    using run ss unfolding querySearchRoots_def Let_def by (cases ?admit; cases "fst ?admit") auto
  obtain ss' where r: "?rows = Inr ss'"
    using run ss a unfolding querySearchRoots_def Let_def by (cases ?rows) auto
  obtain adb where adb: "en_access_db env = Some adb"
    using run ss a r unfolding querySearchRoots_def Let_def by (cases "en_access_db env") auto
  show ?thesis by (rule that[OF r adb]) (use run ss a r adb in \<open>simp add: querySearchRoots_def Let_def\<close>)
qed

lemma querySearchRoots_may_see:
  assumes run: "querySearchRoots env limits db now leaseID idn req selected namespaces n = (Inr results, db')"
    and ok: "\<And>rm. rm \<in> set selected \<Longrightarrow> readable_root db idn rm" and q: "q \<in> set results"
  shows "may_see env db idn q"
proof -
  obtain ss' adb where qp: "queryPublishedRows (provider_query env req n) (en_pass_db env) (id_org idn) (new_searches (qq_mode req) namespaces selected) = Inr ss'"
    and adb: "en_access_db env = Some adb"
    and results: "results = concat (map (\<lambda>(rm, rows). queryResultsFromRows rm (take (nat (qq_topk req)) rows))
        (zip selected (filterSearchRowsAccess adb idn selected (map (root_rows env ss' n) selected))))"
    by (rule querySearchRoots_Inr[OF run q])
  have "zip selected (filterSearchRowsAccess adb idn selected (map (root_rows env ss' n) selected))
      = map (\<lambda>rm. (rm, filter_root_rows adb idn rm (root_rows env ss' n rm))) selected"
    by (simp add: filterSearchRowsAccess_def zip_map2 zip_same_conv_map)
  then obtain rm r where rm: "rm \<in> set selected" and r: "r \<in> set (filter_root_rows adb idn rm (root_rows env ss' n rm))"
    and q': "qs_root q = root_id rm" "qs_path q = sr_path r"
    using q results by (auto simp: queryResultsFromRows_def dest!: in_set_takeD)
  have "r \<in> set (root_rows env ss' n rm)" using r by (simp add: filter_root_rows_set)
  from root_rows_mem[OF this] obtain s r' where s: "s \<in> set ss'" "se_root s = root_id rm"
    and r': "r' \<in> set (concat (se_sets s))" "sr_path r = sr_path r'" "sr_hash r = sr_hash r'" by blast
  obtain k where k: "published_in (en_pass_db env k) (id_org idn) (root_id rm) (sr_path r) (sr_hash r)"
    using published_row[OF queryPublishedRows_published(1,2)[OF qp s(1)] r'(1)] unfolding s(2) r'(2,3) by blast
  have proved: "needs_proof idn rm \<longrightarrow> sr_hash r \<noteq> [] \<and>
      (\<exists>p. proof_of adb (id_org idn) (id_user idn) (root_id rm) (sr_path r) = Some p \<and> \<not> pf_deleted p \<and> pf_hash p = sr_hash r)"
    using r proof_hash_Some[of adb idn "root_id rm" "sr_path r" "sr_hash r"] unfolding filter_root_rows_set by blast
  show ?thesis unfolding may_see_def q'
    by (rule exI[of _ rm], rule exI[of _ k], rule exI[of _ adb], rule exI[of _ "sr_hash r"])
       (use ok[OF rm] adb k proved r in \<open>simp add: filter_root_rows_set\<close>)
qed


section \<open>Admission\<close>

text \<open>The events on the leases of all replicas: a query with \<open>n\<close> namespaces asks for its slots, or a lease is released.\<close>

datatype lease_event = Admit nat string string nat | Release string

fun lease_step :: "search_limits \<Rightarrow> lease_event \<Rightarrow> database \<Rightarrow> database" where
  "lease_step limits (Admit now newID orgID n) db = snd (admitSearch limits db now newID orgID (query_width limits n))"
| "lease_step limits (Release leaseID) db = release_search db leaseID"

definition leases_bounded :: "search_limits \<Rightarrow> database \<Rightarrow> bool" where
  "leases_bounded limits db \<longleftrightarrow> (\<forall>l\<in>set (search_leases db). 1 \<le> sl_slots l \<and> sl_slots l \<le> maxConcurrentSearchNamespaces)
     \<and> lease_sum (search_leases db) \<le> lim_global limits
     \<and> (\<forall>orgID. lease_sum (filter (\<lambda>l. sl_org l = orgID) (search_leases db)) \<le> lim_tenant limits)"

lemma lease_sum_simps [simp]: "lease_sum [] = 0" "lease_sum (l # ls) = sl_slots l + lease_sum ls" "lease_sum (ls @ ms) = lease_sum ls + lease_sum ms"
  by (simp_all add: lease_sum_def)

lemma lease_sum_filter: "\<forall>l\<in>set ls. 0 \<le> sl_slots l \<Longrightarrow> lease_sum (filter P ls) \<le> lease_sum ls"
  by (induction ls) auto

lemma leases_bounded_filter:
  assumes "leases_bounded limits db"
  shows "leases_bounded limits (db\<lparr>search_leases := filter P (search_leases db)\<rparr>)"
proof -
  have pos: "\<forall>l\<in>set (search_leases db). 0 \<le> sl_slots l" using assms by (auto simp: leases_bounded_def)
  have "lease_sum (filter (\<lambda>l. sl_org l = orgID) (filter P (search_leases db))) \<le> lease_sum (filter (\<lambda>l. sl_org l = orgID) (search_leases db))" for orgID
    using lease_sum_filter[of "filter (\<lambda>l. sl_org l = orgID) (search_leases db)" P] pos by (simp add: conj_commute)
  then show ?thesis using assms lease_sum_filter[OF pos, of P] by (fastforce simp: leases_bounded_def intro: order_trans)
qed

lemma configured_limits:
  assumes "ConfigureSearchAdmission default_limits global tenant = Some limits"
  shows "1 \<le> lim_tenant limits" "lim_tenant limits \<le> lim_global limits" "lim_global limits \<le> 4096"
  using assms by (auto simp: ConfigureSearchAdmission_def configured_limit_def default_limits_def split: option.splits if_splits)

lemma lease_step_bounded:
  assumes ok: "leases_bounded limits db" and lim: "1 \<le> lim_tenant limits" "lim_tenant limits \<le> lim_global limits"
    and n: "\<And>now i o' n. ev = Admit now i o' n \<Longrightarrow> 0 < n"
  shows "leases_bounded limits (lease_step limits ev db)"
proof (cases ev)
  case (Admit now newID orgID n)
  have n: "0 < n" by (rule assms(4)[OF Admit])
  let ?live = "filter (\<lambda>l. \<not> sl_expires l \<le> now) (search_leases db)"
  have w: "1 \<le> query_width limits n" "query_width limits n \<le> maxConcurrentSearchNamespaces"
    using lim n by (auto simp: query_width_def maxConcurrentSearchNamespaces_def)
  have live: "leases_bounded limits (db\<lparr>search_leases := ?live\<rparr>)" by (rule leases_bounded_filter[OF ok])
  show ?thesis unfolding Admit using live w by (auto simp: admitSearch_def Let_def leases_bounded_def simp del: filter_filter)
next
  case (Release leaseID)
  then show ?thesis using leases_bounded_filter[OF ok] by (simp add: release_search_def)
qed

text \<open>
  C37: with limits that \<^verbatim>\<open>ConfigureSearchAdmissionFromEnv\<close> accepts, no interleaving of queries of any
  replicas, with leases released, lost or expired in between, reserves more namespace requests
  than the global limit in all or than the tenant limit for one organisation; every running query
  holds between one and sixteen slots, so the number of running queries is bounded as well.
\<close>

theorem search_admission_bounded:
  assumes "ConfigureSearchAdmission default_limits global tenant = Some limits"
    and "\<forall>ev\<in>set evs. case ev of Admit now i org n \<Rightarrow> 0 < n | Release i \<Rightarrow> True"
    and "search_leases db = []"
  shows "leases_bounded limits (fold (lease_step limits) evs db)
    \<and> int (length (search_leases (fold (lease_step limits) evs db))) \<le> lim_global limits"
proof -
  note lim = configured_limits[OF assms(1)]
  have start: "leases_bounded limits db" using assms(3) lim by (simp add: leases_bounded_def)
  have keep: "leases_bounded limits (fold (lease_step limits) evs db)" if "leases_bounded limits db" for db
    using assms(2) that
  proof (induction evs arbitrary: db)
    case (Cons ev evs)
    have "leases_bounded limits (lease_step limits ev db)"
      by (rule lease_step_bounded[OF Cons.prems(2) lim(1,2)]) (use Cons.prems(1) in auto)
    with Cons show ?case by simp
  qed simp
  have all: "leases_bounded limits (fold (lease_step limits) evs db)" by (rule keep[OF start])
  have "int (length ls) \<le> lease_sum ls" if "\<forall>l\<in>set ls. 1 \<le> sl_slots l" for ls :: "lease_row list"
    using that by (induction ls) auto
  then have "int (length (search_leases (fold (lease_step limits) evs db))) \<le> lim_global limits"
    using all unfolding leases_bounded_def by (meson order_trans)
  with all show ?thesis ..
qed

theorem search_admission_bounded_witness:
  "leases_bounded \<lparr>lim_global = 3, lim_tenant = 2\<rparr>
     (fold (lease_step \<lparr>lim_global = 3, lim_tenant = 2\<rparr>) [Admit 1 ''a'' ''o1'' 2, Admit 2 ''b'' ''o1'' 1, Admit 3 ''c'' ''o2'' 2] empty_database)"
  by (rule search_admission_bounded[of "''3''" "'' 2''", THEN conjunct1]) (code_simp, simp, simp add: empty_database_def)

text \<open>
  The number of rows that a query requests from the provider per ranking stays between 50 and
  1000 for every requested result count, also where the 64-bit product with ten wraps around, and
  is at least the requested count when that is at most 1000.
\<close>

lemma filteredQueryLimit_bounds:
  "50 \<le> filteredQueryLimit topK \<and> filteredQueryLimit topK \<le> 1000 \<and> (topK \<le> 1000 \<longrightarrow> topK \<le> filteredQueryLimit topK)"
proof -
  have "wrap64 ((if topK < 1 then 10 else topK) * 10) = (if topK < 1 then 10 else topK) * 10" if "topK \<le> 1000"
    using that by (intro wrap64_id) (auto simp: int64_def)
  then show ?thesis by (auto simp: filteredQueryLimit_def Let_def)
qed

section \<open>A concrete query\<close>

text \<open>The capture of the earlier sample, indexed, and a provider that also returns a row of a superseded extraction on its first answer.\<close>

definition indexed_db :: database where
  "indexed_db = (let db = snd sample_accept in
     db\<lparr>file_catalog := map (\<lambda>f. f\<lparr>fc_indexed_version := fc_captured f, fc_indexed_extraction := ''e1''\<rparr>) (file_catalog db),
       root_index_namespaces := [\<lparr>ns_org = ''o1'', ns_root = ''r1'', ns_namespace = ''ns'', ns_retired = False\<rparr>]\<rparr>)"

definition sample_row :: "string \<Rightarrow> search_row" where
  "sample_row e = \<lparr>sr_id = ''1'', sr_path = ''a/b.txt'', sr_extraction = e, sr_segment = [], sr_hash = [], sr_content = ''text'', sr_absolute = [],
     sr_type = ''text'', sr_dist = 1, sr_chunk = Some 0, sr_page = None, sr_line_start = None, sr_line_end = None\<rparr>"

definition sample_search :: search_env where
  "sample_search = \<lparr>en_query = (\<lambda>pass ns q. Inr (if pass = 0 then [sample_row ''e1'', sample_row ''e0''] else [sample_row ''e1''])),
     en_multi = (\<lambda>pass ns qs. Inr []), en_pass_db = (\<lambda>_. indexed_db), en_access_db = Some indexed_db, en_order = (\<lambda>ids. ids)\<rparr>"

definition sample_request :: query_request where
  "sample_request = \<lparr>qq_query = ''words'', qq_root = ''r1'', qq_roots = [], qq_all = False, qq_topk = 0, qq_mode = ''fts'', qq_glob = []\<rparr>"

abbreviation sample_query :: "query_response \<times> database" where
  "sample_query \<equiv> handleQuery sample_search default_limits indexed_db 1 ''l1'' (Some sample_owner) (Some sample_request)"


end
