(* ===== verification/File_Reads.thy ===== *)
theory File_Reads
  imports Search
begin

text \<open>
  Deterministic reads of one indexed file: \<^verbatim>\<open>handleReadFile\<close> and its helpers of \<^verbatim>\<open>handlers.go\<close>,
  \<^verbatim>\<open>file_read_rows.go\<close> and \<^verbatim>\<open>segment_reads.go\<close>.  The provider is a function of the query, which is no
  restriction since no query is sent twice in a read (the position a loop asks for only grows); the
  databases that the statements read are parameters, since indexing goes on meanwhile.  A number of a row
  is an option, None where the provider sent none.  The name of the root and the absolute path in the
  answer are left out.  The two loops are partial functions: that they
  return is a theorem.
\<close>

section \<open>Requests, snapshots and errors\<close>

record read_range = rg_start :: int rg_end :: int

record read_request =
  rq_path :: string
  rq_pages :: "read_range option"
  rq_lines :: "read_range option"

record read_snapshot =
  sn_namespace :: string
  sn_path :: string
  sn_extraction :: string
  sn_file :: string
  sn_hash :: string
  sn_format :: int
  sn_segments :: "string list"

text \<open>What \<^verbatim>\<open>readLineRangeUnavailableError\<close> reports of the rows that it is given.\<close>

datatype line_problem =
    NoChunks
  | OtherLines string int int
  | PagesInstead string int int
  | NoLineMetadata string

datatype read_error =
    ReadMissing
  | ReadPermissions
  | ReadDeadline
  | ReadProvider
  | ReadNotAdvancing
  | ReadTooLarge
  | ReadOutside
  | LinesUnavailable line_problem

definition validateReadRange :: "read_range \<Rightarrow> bool" where
  "validateReadRange r \<longleftrightarrow> \<not> (rg_start r \<le> 0 \<or> rg_end r \<le> 0) \<and> \<not> rg_end r < rg_start r \<and> \<not> rg_end r - rg_start r > 999"

definition intFromAny :: "int option \<Rightarrow> int \<Rightarrow> int" where
  "intFromAny v fallback = (case v of Some n \<Rightarrow> n | None \<Rightarrow> fallback)"

definition loadFileReadSnapshot :: "database \<Rightarrow> root_row \<Rightarrow> string \<Rightarrow> read_error + read_snapshot" where
  "loadFileReadSnapshot db rm path =
    (if \<not> live_root db (root_org rm) (root_id rm) then Inl ReadMissing
     else case file_at db (root_id rm) path of
        None \<Rightarrow> Inl ReadMissing
      | Some f \<Rightarrow>
         if fc_deleted f \<or> fc_indexed_extraction f = [] then Inl ReadMissing
         else (case (find (\<lambda>e. fe_id e = fc_indexed_extraction f) (file_extractions db), find (\<lambda>v. fv_id v = fc_indexed_version f) (file_versions db),
                 find (\<lambda>n. ns_root n = root_id rm \<and> ns_org n = root_org rm \<and> \<not> ns_retired n) (root_index_namespaces db)) of
             (Some e, Some v, Some n) \<Rightarrow> Inr \<lparr>sn_namespace = ns_namespace n, sn_path = path, sn_extraction = fc_indexed_extraction f,
                sn_file = fc_id f, sn_hash = fv_hash v, sn_format = fe_format e, sn_segments = []\<rparr>
           | _ \<Rightarrow> Inl ReadMissing))"

definition snapshot_filters :: "read_snapshot \<Rightarrow> tp_filter option \<Rightarrow> tp_filter" where
  "snapshot_filters sn extra =
    (let ident = (if sn_format sn = 2 then IsIn ''segment_id'' (sn_segments sn) else IsEqual ''extraction_id'' (sn_extraction sn)) in
     tpAndFilter ([IsEqual ''file_path'' (sn_path sn), ident] @ (case extra of None \<Rightarrow> [] | Some f \<Rightarrow> [f])))"

definition maxReadBytes :: int where "maxReadBytes = 33554432"

abbreviation chunk_query :: "int \<Rightarrow> tp_filter \<Rightarrow> tp_query" where
  "chunk_query limit f \<equiv> \<lparr>tq_rank = ''chunk_index'', tq_limit = limit, tq_filter = f\<rparr>"

definition provider_failed :: "provider_error \<Rightarrow> read_error" where
  "provider_failed e = (if e = DeadlineExceeded then ReadDeadline else ReadProvider)"

section \<open>Rows of one extraction\<close>

text \<open>The inner loop of \<^verbatim>\<open>collectFileRows\<close>: the position, the bytes and the rows so far.\<close>

fun take_rows :: "search_row list \<Rightarrow> int \<Rightarrow> int \<Rightarrow> search_row list \<Rightarrow> read_error + int \<times> int \<times> search_row list" where
  "take_rows [] after bytes result = Inr (after, bytes, result)"
| "take_rows (r # rs) after bytes result =
    (let i = intFromAny (sr_chunk r) (- 1); bytes' = bytes + int (length (sr_content r)) in
     if i \<le> after then Inl ReadNotAdvancing
     else if bytes' > maxReadBytes then Inl ReadTooLarge
     else take_rows rs i bytes' (result @ [r]))"

partial_function (option) collect_loop ::
  "(int \<Rightarrow> bool) \<Rightarrow> (int \<Rightarrow> provider_error + search_row list) \<Rightarrow> int \<Rightarrow> int \<Rightarrow> search_row list \<Rightarrow> (read_error + search_row list) option" where
  "collect_loop expired query after bytes result =
    (if expired after then Some (Inl ReadDeadline)
     else case query after of
        Inl e \<Rightarrow> Some (Inl (provider_failed e))
      | Inr rows \<Rightarrow>
         (case take_rows rows after bytes result of
            Inl e \<Rightarrow> Some (Inl e)
          | Inr (after', bytes', result') \<Rightarrow>
              if length rows < 512 then Some (Inr result') else collect_loop expired query after' bytes' result'))"

definition collectFileRows :: "(int \<Rightarrow> bool) \<Rightarrow> (int \<Rightarrow> provider_error + search_row list) \<Rightarrow> (read_error + search_row list) option" where
  "collectFileRows expired query = collect_loop expired query (- 1) 0 []"

section \<open>Rows of the segments of an extraction\<close>

datatype segment_bounds = SegmentLines int int | SegmentPages int int | SegmentEnds

definition overlaps :: "(int \<times> int) option \<Rightarrow> int \<Rightarrow> int \<Rightarrow> bool" where
  "overlaps extent a b = (case extent of None \<Rightarrow> False | Some (first, final) \<Rightarrow> final \<ge> a \<and> first \<le> b)"

definition segment_in_bounds :: "database \<Rightarrow> read_snapshot \<Rightarrow> segment_bounds \<Rightarrow> segment_member_row \<Rightarrow> segment_row \<Rightarrow> bool" where
  "segment_in_bounds db sn bounds m g = (case bounds of
      SegmentLines a b \<Rightarrow> overlaps (sg_lines g) a b
    | SegmentPages a b \<Rightarrow> overlaps (sg_pages g) a b
    | SegmentEnds \<Rightarrow> (let all = map sm_ordinal (filter (\<lambda>x. sm_extraction x = sn_extraction sn) (extraction_segments db))
        in sm_ordinal m = Min (set all) \<or> sm_ordinal m = Max (set all)))"

record read_segment = rs_id :: string rs_start :: int rs_end :: int

definition readSegments :: "database \<Rightarrow> read_snapshot \<Rightarrow> int \<Rightarrow> segment_bounds \<Rightarrow> nat \<Rightarrow> read_segment list" where
  "readSegments db sn after bounds limit = take limit (List.map_filter
     (\<lambda>m. case find (\<lambda>g. sg_id g = sm_segment m \<and> sg_file g = sn_file sn \<and> \<not> sg_retired g \<and> segment_in_bounds db sn bounds m g) (file_segments db) of
        None \<Rightarrow> None
      | Some g \<Rightarrow> Some \<lparr>rs_id = sg_id g, rs_start = sm_ordinal m, rs_end = sm_ordinal m + sg_count g\<rparr>)
     (sort_key sm_ordinal (filter (\<lambda>m. sm_extraction m = sn_extraction sn \<and> sm_ordinal m > after) (extraction_segments db))))"

fun take_segment_rows :: "read_segment list \<Rightarrow> string \<Rightarrow> search_row list \<Rightarrow> int \<Rightarrow> int \<Rightarrow> search_row list \<Rightarrow> read_error + int \<times> int \<times> search_row list" where
  "take_segment_rows segs hash [] lastChunk bytes result = Inr (lastChunk, bytes, result)"
| "take_segment_rows segs hash (r # rs) lastChunk bytes result =
    (let ordinal = intFromAny (sr_chunk r) (- 1); bytes' = bytes + int (length (sr_content r)) in
     case find (\<lambda>s. rs_id s = sr_segment r) (rev segs) of
       None \<Rightarrow> Inl ReadOutside
     | Some s \<Rightarrow> if ordinal \<le> lastChunk \<or> ordinal < rs_start s \<or> ordinal \<ge> rs_end s then Inl ReadOutside
         else if bytes' > maxReadBytes then Inl ReadTooLarge
         else take_segment_rows segs hash rs ordinal bytes' (result @ [r\<lparr>sr_hash := hash\<rparr>]))"

record read_env =
  rd_query :: "string \<Rightarrow> tp_query \<Rightarrow> provider_error + search_row list"
  rd_expired :: "int \<Rightarrow> bool"
  rd_snapshot_db :: database
  rd_segment_db :: "int \<Rightarrow> database"
  rd_access_db :: "database option"

partial_function (option) segment_loop ::
  "read_env \<Rightarrow> read_snapshot \<Rightarrow> tp_filter \<Rightarrow> segment_bounds \<Rightarrow> int \<Rightarrow> int \<Rightarrow> int \<Rightarrow> search_row list \<Rightarrow> (read_error + search_row list) option" where
  "segment_loop env sn filters bounds lastSegment lastChunk bytes result =
    (let segs = readSegments (rd_segment_db env lastSegment) sn lastSegment bounds 8 in
     if segs = [] then Some (Inr result)
     else case rd_query env (sn_namespace sn) (chunk_query 512 (snapshot_filters (sn\<lparr>sn_segments := map rs_id segs\<rparr>) (Some filters))) of
        Inl e \<Rightarrow> Some (Inl (provider_failed e))
      | Inr rows \<Rightarrow>
         (case take_segment_rows segs (sn_hash sn) rows lastChunk bytes result of
            Inl e \<Rightarrow> Some (Inl e)
          | Inr (lastChunk', bytes', result') \<Rightarrow>
              if length segs < 8 then Some (Inr result')
              else segment_loop env sn filters bounds (rs_start (last segs)) lastChunk' bytes' result'))"

definition readSegmentRows :: "read_env \<Rightarrow> read_snapshot \<Rightarrow> tp_filter \<Rightarrow> segment_bounds \<Rightarrow> (read_error + search_row list) option" where
  "readSegmentRows env sn filters bounds = segment_loop env sn filters bounds (- 1) (- 1) 0 []"

definition readFileRows :: "read_env \<Rightarrow> read_snapshot \<Rightarrow> tp_filter \<Rightarrow> segment_bounds \<Rightarrow> (read_error + search_row list) option" where
  "readFileRows env sn filters bounds =
    (if sn_format sn = 2 then readSegmentRows env sn filters bounds
     else collectFileRows (rd_expired env) (\<lambda>after. rd_query env (sn_namespace sn)
       (chunk_query 512 (tpAndFilter (snapshot_filters sn (Some filters) # (if after \<ge> 0 then [GreaterThan ''chunk_index'' after] else []))))))"

definition readFileMetadata :: "read_env \<Rightarrow> read_snapshot \<Rightarrow> read_error + search_row list" where
  "readFileMetadata env sn =
    (let ends = readSegments (rd_segment_db env (- 1)) sn (- 1) SegmentEnds 2;
         sn' = (if sn_format sn = 2 then sn\<lparr>sn_segments := sn_segments sn @ map rs_id ends\<rparr> else sn) in
     if sn_format sn = 2 \<and> ends = [] then Inr []
     else case rd_query env (sn_namespace sn) (chunk_query 1000 (snapshot_filters sn' None)) of
        Inl e \<Rightarrow> Inl (provider_failed e)
      | Inr rows \<Rightarrow> Inr (if sn_format sn = 2 then map (\<lambda>r. r\<lparr>sr_hash := sn_hash sn\<rparr>) rows else rows))"

section \<open>Pages\<close>

record read_page =
  pg_number :: int
  pg_chunk :: int
  pg_content :: string
  pg_absolute :: string
  pg_type :: string

text \<open>The loop of \<^verbatim>\<open>readFilePages\<close>; the page that is still growing is the last one.\<close>

fun add_page :: "int \<Rightarrow> int \<Rightarrow> read_page list \<Rightarrow> search_row \<Rightarrow> read_page list" where
  "add_page a b pages r =
    (let n = intFromAny (sr_page r) (- 1) in
     if n < a \<or> n > b then pages
     else if pages \<noteq> [] \<and> pg_number (last pages) = n
     then butlast pages @ [(last pages)\<lparr>pg_content := pg_content (last pages) @ sr_content r\<rparr>]
     else pages @ [\<lparr>pg_number = n, pg_chunk = intFromAny (sr_chunk r) 0, pg_content = sr_content r, pg_absolute = sr_absolute r, pg_type = sr_type r\<rparr>])"

datatype read_content = PageContent "read_page list" | LineContent "(int \<times> string) list"

definition accessible_rows :: "read_env \<Rightarrow> identity \<Rightarrow> root_row \<Rightarrow> search_row list \<Rightarrow> read_error + search_row list" where
  "accessible_rows env idn rm rows = (case rd_access_db env of None \<Rightarrow> if rows = [] then Inr [] else Inl ReadPermissions
     | Some db \<Rightarrow> Inr (filterRowsAccess db idn rm rows))"

definition row_order :: "(search_row \<Rightarrow> int option) \<Rightarrow> search_row list \<Rightarrow> search_row list" where
  "row_order place rows = sort_key (\<lambda>r. intFromAny (place r) 0) (sort_key (\<lambda>r. intFromAny (sr_chunk r) 0) rows)"

definition readFilePages :: "read_env \<Rightarrow> identity \<Rightarrow> root_row \<Rightarrow> read_range \<Rightarrow> read_snapshot \<Rightarrow> (read_error + read_content) option" where
  "readFilePages env idn rm rng sn =
    (let a = rg_start rng - 1; b = rg_end rng - 1;
         filters = AllOf (AtMost ''page_number'' b # (if a > 0 then [GreaterThan ''page_number'' (a - 1)] else [])) in
     case readFileRows env sn filters (SegmentPages a b) of
       None \<Rightarrow> None
     | Some found \<Rightarrow> Some (try_then found (\<lambda>rows. try_then (accessible_rows env idn rm rows) (\<lambda>visible.
         Inr (PageContent (foldl (add_page a b) [] (row_order sr_page visible)))))))"

section \<open>Lines\<close>

text \<open>\<^verbatim>\<open>strings.SplitAfter\<close> with a newline.\<close>

fun split_after :: "string \<Rightarrow> string list" where
  "split_after [] = [[]]"
| "split_after (c # s) = (if c = CHR 0x0A then [c] # split_after s
     else case split_after s of p # ps \<Rightarrow> (c # p) # ps | [] \<Rightarrow> [[c]])"

text \<open>The inner loop of \<^verbatim>\<open>readFileLines\<close> over the pieces of one row, from line \<open>n\<close>.\<close>

fun add_pieces :: "bool \<Rightarrow> int \<Rightarrow> int \<Rightarrow> int \<Rightarrow> int \<Rightarrow> string list \<Rightarrow> (int \<rightharpoonup> string) \<Rightarrow> (int \<rightharpoonup> string)" where
  "add_pieces extracted a b n lineEnd [] m = m"
| "add_pieces extracted a b n lineEnd (p # ps) m =
    (if n > lineEnd then m
     else add_pieces extracted a b (n + 1) lineEnd ps
       (if n < a \<or> n > b then m
        else if extracted then m(n \<mapsto> (case m n of None \<Rightarrow> [] | Some old \<Rightarrow> old) @ trim_suffix p [CHR 0x0A])
        else if m n = None then m(n \<mapsto> trim_suffix p [CHR 0x0A]) else m))"

definition add_row :: "int \<Rightarrow> int \<Rightarrow> search_row \<Rightarrow> (int \<rightharpoonup> string) \<Rightarrow> (int \<rightharpoonup> string)" where
  "add_row a b r m =
    (let lineStart = intFromAny (sr_line_start r) 0; lineEnd = intFromAny (sr_line_end r) 0 in
     if lineStart = 0 \<or> lineEnd = 0 then m
     else add_pieces (sr_extraction r \<noteq> []) a b lineStart lineEnd (split_after (sr_content r)) m)"

definition lines_from :: "int \<Rightarrow> int \<Rightarrow> search_row list \<Rightarrow> (int \<times> string) list" where
  "lines_from a b rows = (let m = fold (add_row a b) rows Map.empty in List.map_filter (\<lambda>n. map_option (Pair n) (m n)) [a..b])"

definition readLineRangeUnavailableError :: "search_row list \<Rightarrow> line_problem" where
  "readLineRangeUnavailableError rows =
    (let kind = (case find (\<lambda>r. sr_type r \<noteq> []) rows of None \<Rightarrow> [] | Some r \<Rightarrow> sr_type r);
         pages = List.map_filter (\<lambda>r. map_option (\<lambda>n. n + 1) (sr_page r)) rows;
         bounds = List.map_filter (\<lambda>r. case (sr_line_start r, sr_line_end r) of
            (Some a, Some b) \<Rightarrow> if a \<le> 0 \<or> b \<le> 0 then None else Some (a, b) | _ \<Rightarrow> None) rows in
     if rows = [] then NoChunks
     else if bounds \<noteq> [] then OtherLines kind (Min (fst ` set bounds)) (Max (snd ` set bounds))
     else if pages \<noteq> [] then PagesInstead kind (Min (set pages)) (Max (set pages))
     else NoLineMetadata kind)"

definition readFileLines :: "read_env \<Rightarrow> identity \<Rightarrow> root_row \<Rightarrow> read_range \<Rightarrow> read_snapshot \<Rightarrow> (read_error + read_content) option" where
  "readFileLines env idn rm rng sn =
    (let a = rg_start rng; b = rg_end rng in
     case readFileRows env sn (AllOf [GreaterThan ''line_end'' (a - 1), AtMost ''line_start'' b]) (SegmentLines a b) of
       None \<Rightarrow> None
     | Some found \<Rightarrow> Some (try_then found (\<lambda>rows. try_then (accessible_rows env idn rm rows) (\<lambda>visible.
         if visible = [] then try_then (readFileMetadata env sn) (\<lambda>meta. try_then (accessible_rows env idn rm meta) (\<lambda>shown.
           Inl (LinesUnavailable (readLineRangeUnavailableError shown))))
         else (let lines = lines_from a b (row_order sr_line_start visible) in
           if lines = [] then Inl (LinesUnavailable (readLineRangeUnavailableError (row_order sr_line_start visible)))
           else Inr (LineContent lines))))))"

section \<open>The endpoint\<close>

datatype read_response = ReadFail nat | ReadReply string string read_content

definition read_status :: "read_error \<Rightarrow> nat" where
  "read_status e = (case e of ReadPermissions \<Rightarrow> 500 | ReadMissing \<Rightarrow> 404 | ReadDeadline \<Rightarrow> 504 | _ \<Rightarrow> 400)"

definition handleReadFile :: "read_env \<Rightarrow> database \<Rightarrow> identity option \<Rightarrow> string \<Rightarrow> read_request option \<Rightarrow> read_response option" where
  "handleReadFile env db who rootID body =
    (case who of
       None \<Rightarrow> Some (ReadFail 401)
     | Some idn \<Rightarrow>
        if \<not> HasScope who ''query'' [''read''] then Some (ReadFail 403)
        else (case permitted_root db who rootID PermRead of
            None \<Rightarrow> Some (ReadFail 404)
          | Some a \<Rightarrow>
             (case body of
                None \<Rightarrow> Some (ReadFail 400)
              | Some req \<Rightarrow>
                 (case cleanFilePath (rq_path req) of
                    Inl e \<Rightarrow> Some (ReadFail 400)
                  | Inr path \<Rightarrow>
                     if (rq_pages req = None) = (rq_lines req = None) then Some (ReadFail 400)
                     else (let rng = (case rq_lines req of Some r \<Rightarrow> r | None \<Rightarrow> the (rq_pages req)) in
                       if \<not> validateReadRange rng then Some (ReadFail 400)
                       else if \<not> checkPermission (getACLsForUser db (id_org idn) rootID (id_user idn) (id_role idn)) path PermRead then Some (ReadFail 404)
                       else (case loadFileReadSnapshot (rd_snapshot_db env) (ra_root a) path of
                           Inl e \<Rightarrow> Some (ReadFail (if e = ReadMissing then 404 else 500))
                         | Inr sn \<Rightarrow>
                            (case (if rq_pages req \<noteq> None then readFilePages env idn (ra_root a) rng sn else readFileLines env idn (ra_root a) rng sn) of
                               None \<Rightarrow> None
                             | Some (Inl e) \<Rightarrow> Some (ReadFail (read_status e))
                             | Some (Inr content) \<Rightarrow> Some (ReadReply rootID path content))))))))"

section \<open>Paging returns every row\<close>

definition chunk_at :: "search_row \<Rightarrow> int" where
  "chunk_at r = intFromAny (sr_chunk r) (- 1)"

definition row_bytes :: "search_row list \<Rightarrow> int" where
  "row_bytes rows = sum_list (map (\<lambda>r. int (length (sr_content r))) rows)"

lemma row_bytes_simps [simp]: "row_bytes [] = 0" "row_bytes (r # rs) = int (length (sr_content r)) + row_bytes rs" "row_bytes (xs @ ys) = row_bytes xs + row_bytes ys"
  by (simp_all add: row_bytes_def)

lemma row_bytes_nonneg [simp]: "0 \<le> row_bytes rows"
  by (induction rows) auto

lemma take_rows_ascending:
  assumes "sorted_wrt (<) (map chunk_at rows)" "\<forall>r\<in>set rows. after < chunk_at r" "bytes \<le> maxReadBytes"
  shows "take_rows rows after bytes result =
    (if bytes + row_bytes rows \<le> maxReadBytes then Inr (if rows = [] then after else chunk_at (last rows), bytes + row_bytes rows, result @ rows)
     else Inl ReadTooLarge)"
  using assms
proof (induction rows after bytes result rule: take_rows.induct)
  case (2 r rs after bytes result)
  have next_row: "after < chunk_at r" "\<forall>x\<in>set rs. chunk_at r < chunk_at x" "sorted_wrt (<) (map chunk_at rs)" using "2.prems" by auto
  show ?case
  proof (cases "bytes + int (length (sr_content r)) > maxReadBytes")
    case True
    then have "\<not> bytes + row_bytes (r # rs) \<le> maxReadBytes" using row_bytes_nonneg[of rs] unfolding row_bytes_simps by linarith
    with True next_row show ?thesis by (simp add: Let_def chunk_at_def)
  next
    case False
    have "take_rows (r # rs) after bytes result = take_rows rs (chunk_at r) (bytes + int (length (sr_content r))) (result @ [r])"
      using next_row(1) False by (simp add: Let_def chunk_at_def)
    also have "\<dots> = (if bytes + int (length (sr_content r)) + row_bytes rs \<le> maxReadBytes
        then Inr (if rs = [] then chunk_at r else chunk_at (last rs), bytes + int (length (sr_content r)) + row_bytes rs, (result @ [r]) @ rs) else Inl ReadTooLarge)"
      using "2.IH"[OF refl refl, folded chunk_at_def] next_row False by simp
    finally show ?thesis by (simp add: add.assoc)
  qed
qed simp

lemma filter_after_last:
  assumes "sorted_wrt (<) (map chunk_at rest)" "n \<le> length rest" "0 < n"
  shows "filter (\<lambda>r. chunk_at (last (take n rest)) < chunk_at r) rest = drop n rest"
proof -
  define pre where "pre = take n rest"
  define post where "post = drop n rest"
  have rest: "rest = pre @ post" and pre: "pre \<noteq> []" using assms by (auto simp: pre_def post_def)
  have s: "sorted_wrt (<) (map chunk_at pre @ map chunk_at post)" using assms(1) by (simp add: rest)
  have "\<forall>r\<in>set pre. chunk_at r \<le> chunk_at (last pre)"
  proof
    fix r assume "r \<in> set pre"
    moreover have "sorted_wrt (<) (map chunk_at (butlast pre) @ [chunk_at (last pre)])"
      using s pre by (metis append_butlast_last_id list.simps(8,9) map_append sorted_wrt_append)
    ultimately show "chunk_at r \<le> chunk_at (last pre)"
      using pre by (metis (no_types, lifting) Un_iff append_butlast_last_id empty_iff empty_set image_eqI less_imp_le list.set_intros(1)
          list.set_map order_refl set_ConsD set_append sorted_wrt_append)
  qed
  moreover have "\<forall>r\<in>set post. chunk_at (last pre) < chunk_at r" using s pre by (auto simp: sorted_wrt_append)
  ultimately have "filter (\<lambda>r. chunk_at (last pre) < chunk_at r) (pre @ post) = post" by (auto simp: filter_empty_conv filter_id_conv not_less)
  then show ?thesis by (simp add: rest[symmetric]) (simp add: pre_def post_def)
qed

text \<open>A provider that stores the rows of a file and answers a query with the next ones in the order of their chunks.\<close>

definition serves :: "(int \<Rightarrow> provider_error + search_row list) \<Rightarrow> search_row list \<Rightarrow> bool" where
  "serves query stored_rows \<longleftrightarrow> sorted_wrt (<) (map chunk_at stored_rows) \<and> (\<forall>r\<in>set stored_rows. 0 \<le> chunk_at r)
     \<and> (\<forall>after. query after = Inr (take 512 (filter (\<lambda>r. after < chunk_at r) stored_rows)))"

lemma collect_loop_complete:
  assumes srv: "serves query stored_rows" and live: "\<forall>i. \<not> expired i" and bytes: "bytes \<le> maxReadBytes"
  shows "collect_loop expired query after bytes result =
    (let rest = filter (\<lambda>r. after < chunk_at r) stored_rows in
     Some (if bytes + row_bytes rest \<le> maxReadBytes then Inr (result @ rest) else Inl ReadTooLarge))"
  using bytes
proof (induction "length (filter (\<lambda>r. after < chunk_at r) stored_rows)" arbitrary: after bytes result rule: less_induct)
  case less
  define rest where "rest = filter (\<lambda>r. after < chunk_at r) stored_rows"
  have asc: "sorted_wrt (<) (map chunk_at rest)" using srv by (auto simp: serves_def rest_def sorted_wrt_map intro: sorted_wrt_filter)
  have q: "query after = Inr (take 512 rest)" using srv by (simp add: serves_def rest_def)
  have tr: "take_rows (take 512 rest) after bytes result =
    (if bytes + row_bytes (take 512 rest) \<le> maxReadBytes
     then Inr (if take 512 rest = [] then after else chunk_at (last (take 512 rest)), bytes + row_bytes (take 512 rest), result @ take 512 rest) else Inl ReadTooLarge)"
    using asc less.prems by (intro take_rows_ascending) (auto simp: rest_def take_map[symmetric] sorted_wrt_take dest: in_set_takeD)
  have bound: "row_bytes rest = row_bytes (take 512 rest) + row_bytes (drop 512 rest)" by (metis append_take_drop_id row_bytes_simps(3))
  show ?case
  proof (cases "length rest < 512")
    case True
    then show ?thesis unfolding collect_loop.simps[of expired query after bytes result] using live q tr by (simp add: rest_def[symmetric] Let_def)
  next
    case False
    show ?thesis
    proof (cases "bytes + row_bytes (take 512 rest) \<le> maxReadBytes")
      case fits: True
      let ?after = "chunk_at (last (take 512 rest))"
      have "filter (\<lambda>r. ?after < chunk_at r) stored_rows = drop 512 rest"
      proof -
        have "take 512 rest \<noteq> []" using False by auto
        then have "last (take 512 rest) \<in> set rest" by (meson in_set_takeD last_in_set)
        then have "after < ?after" by (simp add: rest_def)
        then have "filter (\<lambda>r. ?after < chunk_at r) stored_rows = filter (\<lambda>r. ?after < chunk_at r) rest" by (auto simp: rest_def intro: filter_cong)
        also have "\<dots> = drop 512 rest"
          using filter_after_last[OF asc, of 512] False by simp
        finally show ?thesis .
      qed
      moreover from this have "length (filter (\<lambda>r. ?after < chunk_at r) stored_rows) < length rest" using False by simp
      ultimately have ih: "collect_loop expired query ?after (bytes + row_bytes (take 512 rest)) (result @ take 512 rest) =
         Some (if bytes + row_bytes (take 512 rest) + row_bytes (drop 512 rest) \<le> maxReadBytes then Inr ((result @ take 512 rest) @ drop 512 rest) else Inl ReadTooLarge)"
        using less.hyps[of ?after "bytes + row_bytes (take 512 rest)" "result @ take 512 rest"] fits by (simp add: rest_def Let_def)
      have "collect_loop expired query after bytes result = collect_loop expired query ?after (bytes + row_bytes (take 512 rest)) (result @ take 512 rest)"
        unfolding collect_loop.simps[of expired query after bytes result] using live q tr fits False by auto
      with ih bound show ?thesis by (simp add: rest_def[symmetric] Let_def add.assoc)
    next
      case False
      then have "\<not> bytes + row_bytes rest \<le> maxReadBytes" using bound row_bytes_nonneg[of "drop 512 rest"] by linarith
      then show ?thesis unfolding collect_loop.simps[of expired query after bytes result] using live q tr False by (simp add: rest_def[symmetric] Let_def)
    qed
  qed
qed

lemma collect_all:
  assumes "serves query stored_rows" "\<forall>i. \<not> expired i"
  shows "collectFileRows expired query = Some (if row_bytes stored_rows \<le> maxReadBytes then Inr stored_rows else Inl ReadTooLarge)"
proof -
  have "(\<lambda>r. - 1 < chunk_at r) r" if "r \<in> set stored_rows" for r using assms(1) that by (auto simp: serves_def)
  then have "filter (\<lambda>r. - 1 < chunk_at r) stored_rows = stored_rows" by (simp add: filter_id_conv)
  then show ?thesis unfolding collectFileRows_def using collect_loop_complete[OF assms, of 0 "- 1" "[]"] by (simp add: Let_def maxReadBytes_def)
qed

text \<open>
  Paging through the rows of an extraction returns, and never truncates: over a provider that holds the
  rows of a file and answers with the next 512 in chunk order, \<^verbatim>\<open>collectFileRows\<close> returns exactly the
  stored rows in order, or the error that the read is too large when their text exceeds 32 MiB.
\<close>

theorem collectFileRows_complete:
  assumes "serves query stored_rows" "\<forall>i. \<not> expired i"
  shows "collectFileRows expired query = Some (if row_bytes stored_rows \<le> maxReadBytes then Inr stored_rows else Inl ReadTooLarge)"
  using assms by (rule collect_all)

section \<open>Lines are put together from their chunks\<close>

abbreviation nl :: char where "nl \<equiv> CHR 0x0A"

text \<open>The number of lines a text has: a final newline ends the last line and does not start another.\<close>

definition line_count :: "string \<Rightarrow> nat" where
  "line_count t = length (split_on nl t) - (if last (split_on nl t) = [] then 1 else 0)"

text \<open>Rows that cut a text into pieces, with the line numbers of their first and last character.\<close>

fun chunked :: "int \<Rightarrow> search_row list \<Rightarrow> bool" where
  "chunked k [] = True"
| "chunked k (r # rs) \<longleftrightarrow> sr_content r \<noteq> [] \<and> sr_extraction r \<noteq> [] \<and> sr_line_start r = Some k
     \<and> sr_line_end r = Some (k + int (line_count (sr_content r)) - 1) \<and> chunked (k + int (length (split_on nl (sr_content r))) - 1) rs"

definition full_text :: "search_row list \<Rightarrow> string" where
  "full_text rows = concat (map sr_content rows)"

lemma split_after_nonempty: "split_after s \<noteq> []"
  by (induction s) (auto split: list.splits)

lemma split_after_lines: "map (\<lambda>p. trim_suffix p [nl]) (split_after s) = split_on nl s"
proof (induction s)
  case (Cons c s)
  obtain p ps where s: "split_after s = p # ps" using split_after_nonempty[of s] by (auto simp: neq_Nil_conv)
  have keep: "trim_suffix (c # p) [nl] = c # trim_suffix p [nl]" if "c \<noteq> nl"
    using that by (cases p rule: rev_cases) (auto simp: trim_suffix_def has_suffix_def)
  have drop: "trim_suffix [nl] [nl] = []" by (simp add: trim_suffix_def has_suffix_def)
  show ?case using Cons.IH[symmetric] s keep drop by (cases "c = nl") simp_all
qed (simp add: trim_suffix_def has_suffix_def)

lemma split_on_join: "split_on c (s @ t) = butlast (split_on c s) @ (last (split_on c s) @ hd (split_on c t)) # tl (split_on c t)"
proof (induction c s rule: split_on.induct)
  case (1 c)
  then show ?case by (cases "split_on c t") auto
next
  case (2 c d s)
  obtain p ps where p: "split_on c s = p # ps" by (cases "split_on c s") auto
  show ?case using 2 p by (cases ps) auto
qed

definition gather :: "int \<Rightarrow> int \<Rightarrow> int \<Rightarrow> string list \<Rightarrow> nat \<Rightarrow> (int \<rightharpoonup> string) \<Rightarrow> (int \<rightharpoonup> string)" where
  "gather a b k ps n m = (\<lambda>x. if a \<le> x \<and> x \<le> b \<and> k \<le> x \<and> nat (x - k) < n
     then Some ((case m x of None \<Rightarrow> [] | Some old \<Rightarrow> old) @ ps ! nat (x - k)) else m x)"

lemma add_pieces_gather:
  "n \<le> length ps \<Longrightarrow> add_pieces True a b k (k + int n - 1) ps m = gather a b k (map (\<lambda>p. trim_suffix p [nl]) ps) n m"
proof (induction ps arbitrary: k n m)
  case (Cons p ps)
  show ?case
  proof (cases n)
    case (Suc n')
    let ?m = "if k < a \<or> k > b then m else m(k \<mapsto> (case m k of None \<Rightarrow> [] | Some old \<Rightarrow> old) @ trim_suffix p [nl])"
    have "add_pieces True a b k (k + int n - 1) (p # ps) m = add_pieces True a b (k + 1) (k + 1 + int n' - 1) ps ?m" by (simp add: Suc)
    also have "\<dots> = gather a b (k + 1) (map (\<lambda>p. trim_suffix p [nl]) ps) n' ?m" by (rule Cons.IH) (use Cons.prems Suc in simp)
    also have "\<dots> = gather a b k (map (\<lambda>p. trim_suffix p [nl]) (p # ps)) n m"
    proof
      fix x
      consider "x < k" | "x = k" | "k < x" by linarith
      then show "gather a b (k + 1) (map (\<lambda>p. trim_suffix p [nl]) ps) n' ?m x = gather a b k (map (\<lambda>p. trim_suffix p [nl]) (p # ps)) n m x"
      proof cases
        case 3
        then have "nat (x - k) = Suc (nat (x - (k + 1)))" by simp
        with 3 show ?thesis by (auto simp: gather_def Suc)
      qed (auto simp: gather_def Suc)
    qed
    finally show ?thesis .
  qed (simp add: gather_def)
qed (simp add: gather_def)

lemma line_count_bounds: "line_count s \<le> length (split_on nl s)" "length (split_on nl s) - 1 \<le> line_count s"
  by (auto simp: line_count_def)

lemma add_row_gather:
  assumes "sr_line_start r = Some k" "sr_line_end r = Some (k + int (line_count (sr_content r)) - 1)" "sr_extraction r \<noteq> []"
    "sr_content r \<noteq> []" "1 \<le> k"
  shows "add_row a b r m = gather a b k (split_on nl (sr_content r)) (line_count (sr_content r)) m"
proof -
  have "1 \<le> line_count (sr_content r)"
  proof (cases "sr_content r")
    case (Cons c s)
    then show ?thesis by (cases "split_on nl s") (auto simp: line_count_def Suc_le_eq)
  qed (use assms(4) in simp)
  then have "k + int (line_count (sr_content r)) - 1 \<noteq> 0" using assms(5) by linarith
  moreover have "length (split_after (sr_content r)) = length (split_on nl (sr_content r))" using split_after_lines[of "sr_content r"] by (metis length_map)
  ultimately show ?thesis
    using assms line_count_bounds(1)[of "sr_content r"] by (simp add: add_row_def intFromAny_def Let_def add_pieces_gather split_after_lines)
qed

lemma line_count_join:
  assumes "s \<noteq> []"
  shows "line_count (s @ t) = (if line_count t = 0 then line_count s else length (split_on nl s) - 1 + line_count t)"
proof -
  obtain p ps where t: "split_on nl t = p # ps" by (cases "split_on nl t") auto
  have len: "length (split_on nl (s @ t)) = length (split_on nl s) - 1 + Suc (length ps)" by (simp add: split_on_join t)
  have "last (split_on nl (s @ t)) = (if ps = [] then last (split_on nl s) @ p else last ps)" by (simp add: split_on_join t)
  moreover have "0 < length (split_on nl s)" by simp
  ultimately show ?thesis unfolding line_count_def len t by (cases ps) auto
qed

lemma gather_join:
  assumes "s \<noteq> []"
  shows "gather a b (k + int (length (split_on nl s)) - 1) (split_on nl t) (line_count t) (gather a b k (split_on nl s) (line_count s) m)
    = gather a b k (split_on nl (s @ t)) (line_count (s @ t)) m"
proof
  fix x
  define j where "j = length (split_on nl s) - 1"
  have len: "length (split_on nl s) = Suc j" using split_on_nonempty[of nl s] by (cases "split_on nl s") (auto simp: j_def)
  have js: "j \<le> line_count s" "line_count s \<le> Suc j" using line_count_bounds[of s] len by auto
  obtain p ps where t: "split_on nl t = p # ps" by (cases "split_on nl t") auto
  have join: "split_on nl (s @ t) = butlast (split_on nl s) @ (last (split_on nl s) @ p) # ps" by (simp add: split_on_join t)
  have lc: "line_count (s @ t) = (if line_count t = 0 then line_count s else j + line_count t)" using line_count_join[OF assms] len by simp
  have lt: "line_count t \<le> Suc (length ps)" "line_count t = 0 \<Longrightarrow> p = [] \<and> ps = []" using t by (auto simp: line_count_def split: if_splits)
  have last_s: "last (split_on nl s) = split_on nl s ! j" using len by (simp add: last_conv_nth flip: length_greater_0_conv)
  have nth: "split_on nl (s @ t) ! i = (if i < j then split_on nl s ! i else if i = j then split_on nl s ! j @ p else ps ! (i - j - 1))" for i
    using len last_s by (auto simp: join nth_append nth_butlast nth_Cons')
  have gone: "line_count s = j \<Longrightarrow> split_on nl s ! j = []" using last_s len by (auto simp: line_count_def split: if_splits)
  consider "x < k" | "k \<le> x" "nat (x - k) < j" | "k \<le> x" "nat (x - k) = j" | "k \<le> x" "j < nat (x - k)" by linarith
  then show "gather a b (k + int (length (split_on nl s)) - 1) (split_on nl t) (line_count t) (gather a b k (split_on nl s) (line_count s) m) x
    = gather a b k (split_on nl (s @ t)) (line_count (s @ t)) m x"
  proof cases
    case 1
    then show ?thesis by (simp add: gather_def len)
  next
    case 2
    then have "\<not> k + int j \<le> x" by linarith
    with 2 js show ?thesis by (auto simp: gather_def len nth lc)
  next
    case 3
    then have x: "x = k + int j" by linarith
    show ?thesis using js gone lt(2) t by (cases "line_count t = 0"; cases "line_count s = j") (auto simp: gather_def len nth lc x split: option.splits)
  next
    case 4
    then have "nat (x - (k + int j)) = Suc (nat (x - k) - j - 1)" "nat (x - k) \<ge> line_count s" using js by linarith+
    with 4 js lt show ?thesis by (auto simp: gather_def len nth lc t)
  qed
qed

lemma chunked_gather:
  assumes "chunked k rows" "1 \<le> k"
  shows "fold (add_row a b) rows m = gather a b k (split_on nl (full_text rows)) (line_count (full_text rows)) m"
  using assms
proof (induction rows arbitrary: k m)
  case Nil
  then show ?case by (simp add: full_text_def gather_def line_count_def)
next
  case (Cons r rows)
  let ?k = "k + int (length (split_on nl (sr_content r))) - 1"
  have r: "add_row a b r m = gather a b k (split_on nl (sr_content r)) (line_count (sr_content r)) m"
    using Cons.prems by (intro add_row_gather) auto
  have "1 \<le> length (split_on nl (sr_content r))" using split_on_nonempty[of nl "sr_content r"] by (cases "split_on nl (sr_content r)") auto
  then have "1 \<le> ?k" using Cons.prems(2) by linarith
  then have ih: "fold (add_row a b) rows m' = gather a b ?k (split_on nl (full_text rows)) (line_count (full_text rows)) m'" for m'
    using Cons.prems(1) by (intro Cons.IH) simp_all
  have "full_text (r # rows) = sr_content r @ full_text rows" "sr_content r \<noteq> []" using Cons.prems(1) by (simp_all add: full_text_def)
  then show ?case using gather_join[of "sr_content r" a b k "full_text rows" m] by (simp add: r ih)
qed

lemma filter_upto: "filter (\<lambda>n. n \<le> c) [a..b] = [a..min b (c :: int)]"
  by (rule sorted_distinct_set_unique) (auto intro: sorted_wrt_filter)

lemma lines_from_chunked:
  assumes "chunked 1 rows" "1 \<le> a"
  shows "lines_from a b rows = map (\<lambda>n. (n, split_on nl (full_text rows) ! nat (n - 1))) [a..min b (int (line_count (full_text rows)))]"
proof -
  let ?ls = "split_on nl (full_text rows)" and ?c = "int (line_count (full_text rows))"
  have m: "fold (add_row a b) rows Map.empty n = (if a \<le> n \<and> n \<le> b \<and> n \<le> ?c then Some (?ls ! nat (n - 1)) else None)" for n
    using chunked_gather[OF assms(1), of a b Map.empty] assms(2) by (auto simp: gather_def)
  have "lines_from a b rows = map (\<lambda>n. (n, ?ls ! nat (n - 1))) (filter (\<lambda>n. n \<le> ?c) [a..b])"
    by (auto simp: lines_from_def m map_filter_def Let_def intro!: map_cong filter_cong)
  then show ?thesis by (simp only: filter_upto)
qed

lemma chunked_mem:
  assumes "chunked k rows" "1 \<le> k" "r \<in> set rows"
  shows "\<exists>j\<ge>k. sr_line_start r = Some j \<and> sr_line_end r = Some (j + int (line_count (sr_content r)) - 1) \<and> sr_extraction r \<noteq> [] \<and> sr_content r \<noteq> []"
  using assms
proof (induction rows arbitrary: k)
  case (Cons x rows)
  let ?k = "k + int (length (split_on nl (sr_content x))) - 1"
  have "1 \<le> length (split_on nl (sr_content x))" using split_on_nonempty[of nl "sr_content x"] by (cases "split_on nl (sr_content x)") auto
  then have k: "k \<le> ?k" "1 \<le> ?k" using Cons.prems(2) by linarith+
  show ?case
  proof (cases "r = x")
    case True
    with Cons.prems show ?thesis by (intro exI[of _ k]) simp
  next
    case False
    then have "r \<in> set rows" "chunked ?k rows" using Cons.prems by auto
    with k(2) obtain j where "j \<ge> ?k" "sr_line_start r = Some j \<and> sr_line_end r = Some (j + int (line_count (sr_content r)) - 1) \<and> sr_extraction r \<noteq> [] \<and> sr_content r \<noteq> []"
      using Cons.IH[of ?k] by blast
    then show ?thesis using k(1) by (intro exI[of _ j]) linarith
  qed
qed simp

text \<open>The rows that the line filter of \<^verbatim>\<open>readFileLines\<close> selects.\<close>

definition in_lines :: "read_range \<Rightarrow> search_row \<Rightarrow> bool" where
  "in_lines rng r \<longleftrightarrow> (case (sr_line_start r, sr_line_end r) of (Some s, Some e) \<Rightarrow> e > rg_start rng - 1 \<and> s \<le> rg_end rng | _ \<Rightarrow> False)"

lemma fold_filter_id: "(\<And>x. x \<in> set xs \<Longrightarrow> \<not> P x \<Longrightarrow> f x = id) \<Longrightarrow> fold f (filter P xs) = fold f xs"
  by (induction xs) auto

lemma lines_from_filter:
  assumes "chunked 1 rows"
  shows "lines_from (rg_start rng) (rg_end rng) (filter (in_lines rng) rows) = lines_from (rg_start rng) (rg_end rng) rows"
proof -
  have "fold (add_row (rg_start rng) (rg_end rng)) (filter (in_lines rng) rows) = fold (add_row (rg_start rng) (rg_end rng)) rows"
  proof (rule fold_filter_id)
    fix r assume r: "r \<in> set rows" "\<not> in_lines rng r"
    obtain j where j: "j \<ge> 1" "sr_line_start r = Some j" "sr_line_end r = Some (j + int (line_count (sr_content r)) - 1)" "sr_extraction r \<noteq> []" "sr_content r \<noteq> []"
      using chunked_mem[OF assms _ r(1)] by auto
    have "gather (rg_start rng) (rg_end rng) j ps (line_count (sr_content r)) m = m" for ps m
      using r(2) j by (intro ext) (auto simp: in_lines_def gather_def)
    then show "add_row (rg_start rng) (rg_end rng) r = id" using add_row_gather[OF j(2,3,4,5,1)] by auto
  qed
  then show ?thesis by (simp add: lines_from_def)
qed

lemma chunked_sorted:
  assumes "chunked k rows" "1 \<le> k"
  shows "sorted (map (\<lambda>r. intFromAny (sr_line_start r) 0) rows)"
  using assms
proof (induction rows arbitrary: k)
  case (Cons r rows)
  let ?k = "k + int (length (split_on nl (sr_content r))) - 1"
  have "1 \<le> length (split_on nl (sr_content r))" using split_on_nonempty[of nl "sr_content r"] by (cases "split_on nl (sr_content r)") auto
  then have k: "k \<le> ?k" "1 \<le> ?k" using Cons.prems(2) by linarith+
  have ch: "chunked ?k rows" "sr_line_start r = Some k" using Cons.prems(1) by simp_all
  have "k \<le> intFromAny (sr_line_start x) 0" if x: "x \<in> set rows" for x
  proof -
    obtain j where "j \<ge> ?k" "sr_line_start x = Some j" using chunked_mem[OF ch(1) k(2) x] by blast
    then show ?thesis using k(1) unfolding intFromAny_def by (simp only: option.case)
  qed
  then show ?case using Cons.IH[OF ch(1) k(2)] ch(2) by (simp add: intFromAny_def)
qed simp

lemma row_order_id:
  assumes "sorted (map (\<lambda>r. intFromAny (place r) 0) rows)" "sorted_wrt (<) (map chunk_at rows)" "\<forall>r\<in>set rows. 0 \<le> chunk_at r"
  shows "row_order place rows = rows"
proof -
  have "intFromAny (sr_chunk r) 0 = chunk_at r" if "r \<in> set rows" for r
    using assms(3) that by (force simp: chunk_at_def intFromAny_def split: option.splits)
  then have "map (\<lambda>r. intFromAny (sr_chunk r) 0) rows = map chunk_at rows" by simp
  then have "sorted (map (\<lambda>r. intFromAny (sr_chunk r) 0) rows)" using assms(2) by (simp only: strict_sorted_imp_sorted)
  then show ?thesis using assms(1) by (simp add: row_order_def sort_key_id_if_sorted)
qed

abbreviation line_query :: "read_env \<Rightarrow> read_snapshot \<Rightarrow> read_range \<Rightarrow> int \<Rightarrow> provider_error + search_row list" where
  "line_query env sn rng after \<equiv> rd_query env (sn_namespace sn) (chunk_query 512 (tpAndFilter
     (snapshot_filters sn (Some (AllOf [GreaterThan ''line_end'' (rg_start rng - 1), AtMost ''line_start'' (rg_end rng)]))
       # (if after \<ge> 0 then [GreaterThan ''chunk_index'' after] else []))))"

text \<open>
  C17: a line read returns the lines of the file.  Let the indexed rows of a file cut its text into pieces, at
  line ends or in the middle of a line, numbered with the lines of their first and last character, and
  let the provider answer with the rows that overlap the range.  When the caller may see the rows and
  they fit into 32 MiB, \<^verbatim>\<open>readFileLines\<close> answers with exactly the requested lines that the text has, in
  order and each in full, however many rows a line spans.
\<close>

theorem readFileLines_exact:
  assumes fmt: "sn_format sn \<noteq> 2" and valid: "validateReadRange rng" and ch: "chunked 1 stored_rows"
    and srv: "serves (line_query env sn rng) (filter (in_lines rng) stored_rows)" and live: "\<forall>i. \<not> rd_expired env i"
    and size: "row_bytes (filter (in_lines rng) stored_rows) \<le> maxReadBytes"
    and seen: "accessible_rows env idn rm (filter (in_lines rng) stored_rows) = Inr (filter (in_lines rng) stored_rows)"
    and some: "rg_start rng \<le> int (line_count (full_text stored_rows))"
  shows "readFileLines env idn rm rng sn = Some (Inr (LineContent (map (\<lambda>n. (n, split_on nl (full_text stored_rows) ! nat (n - 1)))
    [rg_start rng..min (rg_end rng) (int (line_count (full_text stored_rows)))])))"
proof -
  let ?rows = "filter (in_lines rng) stored_rows"
  let ?lines = "map (\<lambda>n. (n, split_on nl (full_text stored_rows) ! nat (n - 1))) [rg_start rng..min (rg_end rng) (int (line_count (full_text stored_rows)))]"
  have range: "1 \<le> rg_start rng" "rg_start rng \<le> rg_end rng" using valid by (auto simp: validateReadRange_def)
  have "collectFileRows (rd_expired env) (line_query env sn rng) = Some (Inr ?rows)"
    using collect_all[OF srv live] size by (simp only: if_True)
  then have rows: "readFileRows env sn (AllOf [GreaterThan ''line_end'' (rg_start rng - 1), AtMost ''line_start'' (rg_end rng)])
      (SegmentLines (rg_start rng) (rg_end rng)) = Some (Inr ?rows)" using fmt by (simp add: readFileRows_def)
  have "sorted (map (\<lambda>r. intFromAny (sr_line_start r) 0) ?rows)" using chunked_sorted[OF ch] by (simp add: sorted_filter)
  then have order: "row_order sr_line_start ?rows = ?rows" using srv by (intro row_order_id) (auto simp: serves_def)
  have lines: "lines_from (rg_start rng) (rg_end rng) ?rows = ?lines" using lines_from_filter[OF ch] lines_from_chunked[OF ch range(1)] by simp
  have ne: "?lines \<noteq> []" using range(2) some by simp
  then have "?rows \<noteq> []" using lines by (auto simp: lines_from_def map_filter_def)
  then show ?thesis using rows seen order lines ne by (simp add: readFileLines_def Let_def)
qed

section \<open>Reads are authorized\<close>

text \<open>Every row that a read collects is one that the provider sent, with the published hash where the file has segments.\<close>

definition sent :: "read_env \<Rightarrow> read_snapshot \<Rightarrow> search_row \<Rightarrow> bool" where
  "sent env sn r \<longleftrightarrow> (\<exists>ns q rows x. rd_query env ns q = Inr rows \<and> x \<in> set rows \<and> sr_path r = sr_path x
     \<and> (if sn_format sn = 2 then sr_hash r = sn_hash sn else r = x))"

lemma take_rows_sub: "take_rows rows after bytes result = Inr (a, n, out) \<Longrightarrow> set out \<subseteq> set result \<union> set rows"
  by (induction rows after bytes result rule: take_rows.induct) (auto simp: Let_def split: if_splits)

lemma collect_loop_sub:
  assumes "collect_loop expired query after bytes result = Some (Inr out)" "\<forall>r\<in>set result. P r"
    and "\<And>i rows r. query i = Inr rows \<Longrightarrow> r \<in> set rows \<Longrightarrow> P r"
  shows "\<forall>r\<in>set out. P r"
  using assms
proof (induction expired query after bytes result "Inr out :: read_error + search_row list"
    rule: collect_loop.raw_induct [split_format (complete), rotated, consumes 1, case_names round])
  case (round f expired query after bytes result)
  show ?case
  proof (cases "expired after \<or> (\<exists>e. query after = Inl e)")
    case True
    with round.hyps show ?thesis by (auto split: if_splits)
  next
    case False
    then obtain rows where rows: "query after = Inr rows" by (cases "query after") auto
    from round.hyps False rows obtain a n out' where t: "take_rows rows after bytes result = Inr (a, n, out')"
      and rest: "if length rows < 512 then out' = out else f expired query a n out' = Some (Inr out)"
      by (auto split: sum.splits if_splits prod.splits)
    have "\<forall>r\<in>set out'. P r" using take_rows_sub[OF t] round.prems rows by blast
    then show ?thesis using rest round.hyps(1)[of expired query a n out'] round.prems(2) by (auto split: if_splits)
  qed
qed

lemma take_segment_rows_sub:
  "take_segment_rows segs hash rows c n result = Inr (c', n', out) \<Longrightarrow> r \<in> set out
    \<Longrightarrow> r \<in> set result \<or> (\<exists>x\<in>set rows. r = x\<lparr>sr_hash := hash\<rparr>)"
  by (induction segs hash rows c n result rule: take_segment_rows.induct) (fastforce simp: Let_def split: if_splits option.splits)+

lemma segment_loop_sub:
  assumes "segment_loop env sn filters bounds ls lc bytes result = Some (Inr out)" "sn_format sn = 2" "\<forall>r\<in>set result. sent env sn r"
  shows "\<forall>r\<in>set out. sent env sn r"
  using assms
proof (induction env sn filters bounds ls lc bytes result "Inr out :: read_error + search_row list"
    rule: segment_loop.raw_induct [split_format (complete), rotated, consumes 1, case_names round])
  case (round f env sn filters bounds ls lc bytes result)
  let ?segs = "readSegments (rd_segment_db env ls) sn ls bounds 8"
  let ?q = "chunk_query 512 (snapshot_filters (sn\<lparr>sn_segments := map rs_id ?segs\<rparr>) (Some filters))"
  show ?case
  proof (cases "?segs = []")
    case True
    with round show ?thesis by (simp add: Let_def)
  next
    case False
    with round.hyps obtain rows where rows: "rd_query env (sn_namespace sn) ?q = Inr rows" by (auto simp: Let_def split: sum.splits)
    with round.hyps False obtain c n out' where t: "take_segment_rows ?segs (sn_hash sn) rows lc bytes result = Inr (c, n, out')"
      and rest: "if length ?segs < 8 then out' = out else f env sn filters bounds (rs_start (last ?segs)) c n out' = Some (Inr out)"
      by (auto simp: Let_def split: sum.splits if_splits prod.splits)
    have "sent env sn r" if r: "r \<in> set out'" for r
    proof (cases "r \<in> set result")
      case False
      then obtain x where "x \<in> set rows" "r = x\<lparr>sr_hash := sn_hash sn\<rparr>" using take_segment_rows_sub[OF t r] by blast
      then show ?thesis unfolding sent_def using rows round.prems(1) by (intro exI[of _ "sn_namespace sn"] exI[of _ ?q] exI[of _ rows] exI[of _ x]) simp
    qed (use round.prems in simp)
    then show ?thesis using rest round.hyps(1)[of env sn filters bounds "rs_start (last ?segs)" c n out'] round.prems(1) by (auto split: if_splits)
  qed
qed

lemma readFileRows_sent:
  assumes "readFileRows env sn filters bounds = Some (Inr rows)" "r \<in> set rows"
  shows "sent env sn r"
proof (cases "sn_format sn = 2")
  case True
  then show ?thesis using assms segment_loop_sub[of env sn filters bounds "- 1" "- 1" 0 "[]" rows] by (simp add: readFileRows_def readSegmentRows_def)
next
  case False
  let ?q = "\<lambda>after. rd_query env (sn_namespace sn) (chunk_query 512 (tpAndFilter (snapshot_filters sn (Some filters) # (if after \<ge> 0 then [GreaterThan ''chunk_index'' after] else []))))"
  have "sent env sn x" if "?q i = Inr xs" "x \<in> set xs" for i xs x unfolding sent_def using that False by metis
  then have "\<forall>r\<in>set rows. sent env sn r"
    by (rule collect_loop_sub[of "rd_expired env" ?q "- 1" 0 "[]" rows "sent env sn", rotated 2])
       (use assms False in \<open>simp_all add: readFileRows_def collectFileRows_def\<close>)
  then show ?thesis using assms(2) by simp
qed

text \<open>The content of an answer comes from rows that passed the access filter.\<close>

definition shown_row :: "read_env \<Rightarrow> identity \<Rightarrow> root_row \<Rightarrow> read_snapshot \<Rightarrow> search_row \<Rightarrow> bool" where
  "shown_row env idn rm sn r \<longleftrightarrow> sent env sn r \<and> (\<exists>adb. rd_access_db env = Some adb
     \<and> checkPermission (getACLsForUser adb (id_org idn) (root_id rm) (id_user idn) (id_role idn)) (sr_path r) PermRead
     \<and> (needs_proof idn rm \<longrightarrow> sr_hash r \<noteq> [] \<and> proof_hash adb idn (root_id rm) (sr_path r) = sr_hash r))"

lemma accessible_rows_shown:
  assumes "accessible_rows env idn rm rows = Inr visible" "r \<in> set visible" "\<forall>r\<in>set rows. sent env sn r"
  shows "shown_row env idn rm sn r"
proof -
  obtain adb where adb: "rd_access_db env = Some adb" and v: "visible = filter_root_rows adb idn rm rows"
    using assms(1,2) by (auto simp: accessible_rows_def filterRowsAccess_def filterSearchRowsAccess_def split: option.splits if_splits)
  then show ?thesis using assms(2,3) by (auto simp: shown_row_def filter_root_rows_set)
qed

definition content_empty :: "read_content \<Rightarrow> bool" where
  "content_empty content = (case content of PageContent pages \<Rightarrow> pages = [] | LineContent lines \<Rightarrow> lines = [])"

lemma read_content_shown:
  assumes "(if pages then readFilePages env idn rm rng sn else readFileLines env idn rm rng sn) = Some (Inr content)" "\<not> content_empty content"
  shows "\<exists>r. shown_row env idn rm sn r"
proof -
  obtain filters bounds rows visible where rows: "readFileRows env sn filters bounds = Some (Inr rows)" and v: "accessible_rows env idn rm rows = Inr visible" and ne: "visible \<noteq> []"
  proof (cases pages)
    case True
    with assms show ?thesis
      by (auto simp: readFilePages_def Let_def try_then_Inr_iff content_empty_def row_order_def split: option.splits intro: that)
  next
    case False
    with assms show ?thesis
      by (auto simp: readFileLines_def Let_def try_then_Inr_iff try_then_def split: option.splits if_splits sum.splits intro: that)
  qed
  then obtain r where "r \<in> set visible" by (cases visible) auto
  with accessible_rows_shown[OF v this] readFileRows_sent[OF rows] show ?thesis by blast
qed

lemma permitted_root_id: "permitted_root db (Some idn) rootID p = Some a \<Longrightarrow> root_id (ra_root a) = rootID"
proof -
  assume "permitted_root db (Some idn) rootID p = Some a"
  then have "a \<in> set (accessibleRoots db (id_org idn) (id_user idn) (id_role idn) (Some [rootID]))"
    by (auto simp: permitted_root_def rootForPermission_def split: list.splits bool.splits)
  then show ?thesis by (auto simp: accessibleRoots_def)
qed

lemma loadFileReadSnapshot_published:
  assumes "loadFileReadSnapshot db rm path = Inr sn"
  shows "published_in db (root_org rm) (root_id rm) path (sn_hash sn) \<and> sn_path sn = path"
  using assms find_member_mem
  by (fastforce simp: loadFileReadSnapshot_def published_in_def split: if_splits option.splits prod.splits)


section \<open>A concrete read\<close>

definition piece :: "int \<Rightarrow> int \<Rightarrow> int \<Rightarrow> string \<Rightarrow> search_row" where
  "piece i a b text = (sample_row ''e1'')\<lparr>sr_content := text, sr_chunk := Some i, sr_line_start := Some a, sr_line_end := Some b\<rparr>"

definition sample_pieces :: "search_row list" where
  "sample_pieces = [piece 0 1 2 [CHR ''x'', nl, CHR ''y''], piece 1 2 2 [CHR ''z'', nl]]"

definition sample_read_db :: database where
  "sample_read_db = indexed_db\<lparr>file_extractions := map (\<lambda>e. e\<lparr>fe_id := ''e1''\<rparr>) (file_extractions indexed_db)\<rparr>"

definition sample_reader :: read_env where
  "sample_reader = \<lparr>rd_query = (\<lambda>ns q. Inr (case tq_filter q of AllOf [_, GreaterThan _ n] \<Rightarrow> filter (\<lambda>r. n < chunk_at r) sample_pieces | _ \<Rightarrow> sample_pieces)),
     rd_expired = (\<lambda>_. False), rd_snapshot_db = sample_read_db, rd_segment_db = (\<lambda>_. sample_read_db), rd_access_db = Some sample_read_db\<rparr>"

definition sample_snapshot :: read_snapshot where
  "sample_snapshot = \<lparr>sn_namespace = ''ns'', sn_path = ''a/b.txt'', sn_extraction = ''e1'', sn_file = ''f'', sn_hash = ''h'', sn_format = 1, sn_segments = []\<rparr>"

definition sample_range :: read_range where "sample_range = \<lparr>rg_start = 1, rg_end = 9\<rparr>"

lemma sample_pieces_chunk [simp]: "map chunk_at sample_pieces = [0, 1]"
  by (simp add: sample_pieces_def piece_def chunk_at_def intFromAny_def)

lemma sample_pieces_all: "filter (in_lines sample_range) sample_pieces = sample_pieces"
  by (simp add: sample_pieces_def piece_def in_lines_def sample_range_def)

lemma sample_pieces_chunked: "chunked 1 sample_pieces" "line_count (full_text sample_pieces) = 2"
  "split_on nl (full_text sample_pieces) = [''x'', ''yz'', []]"
  by (simp_all add: sample_pieces_def piece_def line_count_def full_text_def sample_row_def)

lemma sample_serves: "serves (line_query sample_reader sample_snapshot sample_range) sample_pieces"
proof -
  have nonneg: "\<forall>r\<in>set sample_pieces. 0 \<le> chunk_at r" by (simp add: sample_pieces_def piece_def chunk_at_def intFromAny_def)
  have "length (filter P sample_pieces) \<le> 512" for P using length_filter_le[of P sample_pieces] by (simp add: sample_pieces_def)
  then have all: "take 512 (filter P sample_pieces) = filter P sample_pieces" for P by simp
  have "filter (\<lambda>r. after < chunk_at r) sample_pieces = sample_pieces" if "after < 0" for after
    using nonneg that by (auto simp: filter_id_conv)
  then show ?thesis using nonneg
    by (auto simp: serves_def all sample_reader_def snapshot_filters_def sample_snapshot_def tpAndFilter_def)
qed

theorem collectFileRows_complete_witness:
  "collectFileRows (\<lambda>_. False) (line_query sample_reader sample_snapshot sample_range) = Some (Inr sample_pieces)"
proof -
  have "row_bytes sample_pieces \<le> maxReadBytes" by (simp add: sample_pieces_def piece_def maxReadBytes_def)
  then show ?thesis using collectFileRows_complete[OF sample_serves] by simp
qed

definition sample_org_root :: root_row where
  "sample_org_root = \<lparr>root_id = ''r1'', root_org = ''o1'', root_name = [], root_source_path = [], root_scope = RootScopeOrg, root_owner = [],
     root_vector_disabled = False, root_created = 0, root_deleting = None\<rparr>"

theorem readFileLines_exact_witness:
  "readFileLines sample_reader sample_owner sample_org_root sample_range sample_snapshot = Some (Inr (LineContent [(1, ''x''), (2, ''yz'')]))"
proof -
  have seen: "accessible_rows sample_reader sample_owner sample_org_root sample_pieces = Inr sample_pieces" by code_simp
  have "validateReadRange sample_range" by (simp add: validateReadRange_def sample_range_def)
  moreover have "sn_format sample_snapshot \<noteq> 2" "\<forall>i. \<not> rd_expired sample_reader i" by (simp_all add: sample_snapshot_def sample_reader_def)
  moreover have "row_bytes sample_pieces \<le> maxReadBytes" by (simp add: sample_pieces_def piece_def maxReadBytes_def)
  moreover have "rg_start sample_range \<le> int (line_count (full_text sample_pieces))" by (simp add: sample_range_def sample_pieces_chunked)
  moreover have "[1..min (rg_end sample_range) 2] = [1, 2]" "rg_start sample_range = 1" by (simp_all add: sample_range_def upto.simps)
  ultimately show ?thesis
    using readFileLines_exact[of sample_snapshot sample_range sample_pieces sample_reader sample_owner sample_org_root] sample_serves seen
    by (simp add: sample_pieces_all sample_pieces_chunked)
qed

declare collect_loop.simps [code] segment_loop.simps [code]


end
