(* ===== verification/Accounts.thy ===== *)
theory Accounts
  imports Organizations
begin

text \<open>
  Accounts: logging in (\<^verbatim>\<open>CompleteLogin\<close> and its helpers), invitations, provisioning, groups and ignore
  policies of \<^verbatim>\<open>internal/server/db.go\<close>, with their handlers in \<^verbatim>\<open>internal/server/handlers.go\<close> and
  the functions of \<^verbatim>\<open>043_group_operations.sql\<close>.  \<^verbatim>\<open>strings.ToLower\<close> on text outside ASCII depends on
  the Unicode tables, so the case mapping is an argument \<open>lower\<close>.  Random identifiers and the clock are
  arguments.  Rows are kept in the order of their insertion, which is the order of \<^verbatim>\<open>joined_at\<close>.  The
  unique constraints and the foreign keys that a statement can violate are written out; a function
  of several statements returns the database with the statements that had already committed.
\<close>

section \<open>Text\<close>

text \<open>The width of the first rune of a byte string, as \<^verbatim>\<open>utf8.DecodeRune\<close> reports it; an invalid byte has width one.\<close>

definition byte_in :: "nat \<Rightarrow> nat \<Rightarrow> string \<Rightarrow> nat \<Rightarrow> bool" where
  "byte_in lo hi s i \<longleftrightarrow> i < length s \<and> lo \<le> (of_char (s ! i) :: nat) \<and> (of_char (s ! i) :: nat) \<le> hi"

definition rune_width :: "string \<Rightarrow> nat" where
  "rune_width s =
    (if byte_in 0xC2 0xDF s 0 \<and> byte_in 0x80 0xBF s 1 then 2
     else if (byte_in 0xE0 0xE0 s 0 \<and> byte_in 0xA0 0xBF s 1 \<or> byte_in 0xED 0xED s 0 \<and> byte_in 0x80 0x9F s 1
         \<or> (byte_in 0xE1 0xEC s 0 \<or> byte_in 0xEE 0xEF s 0) \<and> byte_in 0x80 0xBF s 1) \<and> byte_in 0x80 0xBF s 2 then 3
     else if (byte_in 0xF0 0xF0 s 0 \<and> byte_in 0x90 0xBF s 1 \<or> byte_in 0xF4 0xF4 s 0 \<and> byte_in 0x80 0x8F s 1
         \<or> byte_in 0xF1 0xF3 s 0 \<and> byte_in 0x80 0xBF s 1) \<and> byte_in 0x80 0xBF s 2 \<and> byte_in 0x80 0xBF s 3 then 4
     else 1)"

text \<open>\<^verbatim>\<open>strings.Map\<close> with the mapping of \<^verbatim>\<open>personalOrgSlug\<close>: one dash for every rune that is no lower-case letter, digit or dash.\<close>

function slug_runes :: "string \<Rightarrow> string" where
  "slug_runes [] = []"
| "slug_runes (c # s) = (if c \<in> set ''abcdefghijklmnopqrstuvwxyz0123456789-'' then c else CHR ''-'') # slug_runes (drop (rune_width (c # s)) (c # s))"
  by pat_completeness auto
termination
  by (relation "measure length") (auto simp: rune_width_def)

definition normalizeEmail :: "(string \<Rightarrow> string) \<Rightarrow> string \<Rightarrow> string" where
  "normalizeEmail lower email = lower (trim_space email)"

record verified_identity =
  vi_provider :: string
  vi_provider_id :: string
  vi_email :: string
  vi_name :: string
  vi_avatar :: string
  vi_verified :: bool

definition workspaceName :: "verified_identity \<Rightarrow> string" where
  "workspaceName idn = (if vi_name idn \<noteq> [] then vi_name idn @ [CHR 0x27] @ ''s Workspace''
     else let local = hd (split_on CHR ''@'' (vi_email idn)) in (if local = [] then ''PufferFS'' else local) @ [CHR 0x27] @ ''s Workspace'')"

definition personalOrgSlug :: "(string \<Rightarrow> string) \<Rightarrow> string \<Rightarrow> string \<Rightarrow> string" where
  "personalOrgSlug lower uuid email =
    (let local = trim_dashes (slug_runes (hd (split_on CHR ''@'' (normalizeEmail lower email)))) in
     (if local = [] then ''workspace'' else local) @ ''-'' @ take 8 uuid)"

section \<open>Organisations and users\<close>

abbreviation unique_violation :: db_error where "unique_violation \<equiv> PgError ''23505'' ''duplicate key value violates unique constraint''"
abbreviation foreign_key_violation :: db_error where "foreign_key_violation \<equiv> PgError ''23503'' ''violates foreign key constraint''"

definition insert_org :: "database \<Rightarrow> org_row \<Rightarrow> db_error + database" where
  "insert_org db org = (if list_ex (\<lambda>r. org_id r = org_id org \<or> org_slug r = org_slug org
       \<or> org_external org \<noteq> [] \<and> org_external r = org_external org) (organizations db) then Inl unique_violation
     else Inr (db\<lparr>organizations := organizations db @ [org]\<rparr>))"

definition CreateOrganization :: "database \<Rightarrow> string \<Rightarrow> string \<Rightarrow> string \<Rightarrow> db_error + org_row \<times> database" where
  "CreateOrganization db newID name slug =
    (let org = \<lparr>org_id = newID, org_name = name, org_slug = slug, org_external = []\<rparr> in
     try_then (insert_org db org) (\<lambda>db'. Inr (org, db')))"

definition GetOrganization :: "database \<Rightarrow> string \<Rightarrow> db_error + org_row" where
  "GetOrganization db i = (case find (\<lambda>r. org_id r = i) (organizations db) of None \<Rightarrow> Inl NoRows | Some r \<Rightarrow> Inr r)"

definition ProvisionOrganization :: "database \<Rightarrow> string \<Rightarrow> string \<Rightarrow> string \<Rightarrow> string \<Rightarrow> string \<Rightarrow> db_error + org_row \<times> database" where
  "ProvisionOrganization db newID givenID name slug externalID =
    (let i = (if givenID = [] then newID else givenID);
         existing = (if externalID \<noteq> [] then find (\<lambda>r. org_external r = externalID) (organizations db)
                     else if slug \<noteq> [] then find (\<lambda>r. org_slug r = slug) (organizations db) else None) in
     case existing of
       Some e \<Rightarrow>
         if list_ex (\<lambda>r. org_id r \<noteq> org_id e \<and> org_slug r = slug) (organizations db) then Inl unique_violation
         else (let db' = db\<lparr>organizations := map (\<lambda>r. if org_id r = org_id e
                   then r\<lparr>org_name := name, org_slug := slug, org_external := (if externalID = [] then org_external r else externalID)\<rparr> else r) (organizations db)\<rparr>
               in try_then (GetOrganization db' (org_id e)) (\<lambda>org. Inr (org, db')))
     | None \<Rightarrow> try_then (insert_org db \<lparr>org_id = i, org_name = name, org_slug = slug, org_external = externalID\<rparr>)
         (\<lambda>db'. try_then (GetOrganization db' i) (\<lambda>org. Inr (org, db'))))"

definition insert_user :: "database \<Rightarrow> user_row \<Rightarrow> db_error + database" where
  "insert_user db u = (if list_ex (\<lambda>r. user_id r = user_id u \<or> user_email r = user_email u
       \<or> user_external u \<noteq> [] \<and> user_external r = user_external u) (users db) then Inl unique_violation
     else Inr (db\<lparr>users := users db @ [u]\<rparr>))"

definition GetUser :: "database \<Rightarrow> string \<Rightarrow> db_error + user_row" where
  "GetUser db i = (case find (\<lambda>r. user_id r = i) (users db) of None \<Rightarrow> Inl NoRows | Some r \<Rightarrow> Inr r)"

definition ProvisionUser :: "database \<Rightarrow> string \<Rightarrow> user_row \<Rightarrow> db_error + user_row \<times> database" where
  "ProvisionUser db newID given =
    (let u = given\<lparr>user_id := (if user_id given = [] then newID else user_id given),
                   user_provider := (if user_provider given = [] then ''admin'' else user_provider given)\<rparr>;
         existing = (if user_external u \<noteq> [] then find (\<lambda>r. user_external r = user_external u) (users db)
                     else if user_email u \<noteq> [] then find (\<lambda>r. user_email r = user_email u) (users db) else None) in
     case existing of
       Some e \<Rightarrow>
         if list_ex (\<lambda>r. user_id r \<noteq> user_id e \<and> user_email r = user_email u) (users db) then Inl unique_violation
         else (let db' = db\<lparr>users := map (\<lambda>r. if user_id r = user_id e
                   then u\<lparr>user_id := user_id r, user_external := (if user_external u = [] then user_external r else user_external u)\<rparr> else r) (users db)\<rparr>
               in try_then (GetUser db' (user_id e)) (\<lambda>u. Inr (u, db')))
     | None \<Rightarrow> try_then (insert_user db u) (\<lambda>db'. try_then (GetUser db' (user_id u)) (\<lambda>u. Inr (u, db'))))"

section \<open>Logging in\<close>

definition touch_user :: "verified_identity \<Rightarrow> bool \<Rightarrow> user_row \<Rightarrow> user_row" where
  "touch_user idn same_provider u = u\<lparr>user_name := (if vi_name idn \<noteq> [] then vi_name idn else user_name u),
     user_avatar := (if vi_avatar idn \<noteq> [] then vi_avatar idn else user_avatar u),
     user_provider_id := (if same_provider \<and> vi_provider_id idn \<noteq> [] then vi_provider_id idn else user_provider_id u)\<rparr>"

definition findOrCreateLoginUser :: "database \<Rightarrow> string \<Rightarrow> verified_identity \<Rightarrow> db_error + string \<times> database" where
  "findOrCreateLoginUser db newID idn =
    (case find (\<lambda>u. user_email u = vi_email idn) (users db) of
       Some e \<Rightarrow> Inr (user_id e, db\<lparr>users := map (\<lambda>u. if user_id u = user_id e
           then touch_user idn (user_provider e = vi_provider idn) u else u) (users db)\<rparr>)
     | None \<Rightarrow> try_then (insert_user db \<lparr>user_id = newID, user_email = vi_email idn, user_name = vi_name idn, user_avatar = vi_avatar idn,
           user_provider = vi_provider idn, user_provider_id = vi_provider_id idn, user_external = []\<rparr>) (\<lambda>db'. Inr (newID, db')))"

text \<open>The lookup of an identity goes by the provider's identifier, or by the address where there is none.\<close>

definition upsertUserIdentity :: "database \<Rightarrow> string \<Rightarrow> string \<Rightarrow> verified_identity \<Rightarrow> database" where
  "upsertUserIdentity db newUUID userID idn =
    (let hit = (\<lambda>x. ui_provider x = vi_provider idn \<and> (if vi_provider_id idn \<noteq> [] then ui_provider_id x = vi_provider_id idn
                  else ui_provider_id x = [] \<and> ui_email x = vi_email idn)) in
     case find hit (user_identities db) of
       Some e \<Rightarrow> db\<lparr>user_identities := map (\<lambda>x. if ui_id x = ui_id e
           then x\<lparr>ui_user := userID, ui_email := vi_email idn, ui_verified := vi_verified idn\<rparr> else x) (user_identities db)\<rparr>
     | None \<Rightarrow> db\<lparr>user_identities := user_identities db @ [\<lparr>ui_id = ''uid_'' @ newUUID, ui_user = userID, ui_provider = vi_provider idn,
           ui_provider_id = vi_provider_id idn, ui_email = vi_email idn, ui_verified = vi_verified idn\<rparr>]\<rparr>)"

definition first_invite :: "database \<Rightarrow> string \<Rightarrow> invite_row option" where
  "first_invite db email = (case sort_key inv_created (filter (\<lambda>i. inv_email i = email) (org_invites db)) of [] \<Rightarrow> None | i # _ \<Rightarrow> Some i)"

definition acceptPendingOrgInvite ::
  "(string \<Rightarrow> string) \<Rightarrow> database \<Rightarrow> nat \<Rightarrow> string \<Rightarrow> string \<Rightarrow> db_error + (string \<times> string) option \<times> database" where
  "acceptPendingOrgInvite lower db now userID email =
    (case first_invite db (normalizeEmail lower email) of
       None \<Rightarrow> Inr (None, db)
     | Some i \<Rightarrow> try_then (changeOrgMember db now (inv_org i) None userID (inv_role i) ''join'') (\<lambda>(m, db').
         Inr (Some (inv_org i, mem_role m), db'\<lparr>org_invites := filter (\<lambda>x. inv_id x \<noteq> inv_id i) (org_invites db')\<rparr>)))"

record login_result = lr_user :: string lr_org :: string lr_role :: string lr_email :: string

record login_ids = li_user :: string li_identity :: string li_org :: string li_slug :: string

datatype login_error = EmailRequired | ProviderRequired | LoginDB db_error

definition trimmed_identity :: "(string \<Rightarrow> string) \<Rightarrow> verified_identity \<Rightarrow> verified_identity" where
  "trimmed_identity lower raw = raw\<lparr>vi_email := normalizeEmail lower (vi_email raw), vi_provider := trim_space (vi_provider raw),
     vi_provider_id := trim_space (vi_provider_id raw), vi_name := trim_space (vi_name raw), vi_avatar := trim_space (vi_avatar raw)\<rparr>"

text \<open>The last part of \<^verbatim>\<open>CompleteLogin\<close>: the membership a user already has, or a personal organisation.\<close>

definition login_org :: "(string \<Rightarrow> string) \<Rightarrow> database \<Rightarrow> login_ids \<Rightarrow> string \<Rightarrow> verified_identity \<Rightarrow> (login_error + login_result) \<times> database" where
  "login_org lower db ids userID idn =
    (case find (\<lambda>m. mem_user m = userID) (org_members db) of
       Some m \<Rightarrow> (Inr \<lparr>lr_user = userID, lr_org = mem_org m, lr_role = mem_role m, lr_email = vi_email idn\<rparr>, db)
     | None \<Rightarrow>
        (case CreateOrganization db (li_org ids) (workspaceName idn) (personalOrgSlug lower (li_slug ids) (vi_email idn)) of
           Inl e \<Rightarrow> (Inl (LoginDB e), db)
         | Inr (org, db') \<Rightarrow>
            if member_of db' (org_id org) userID \<noteq> None then (Inl (LoginDB unique_violation), db')
            else (Inr \<lparr>lr_user = userID, lr_org = org_id org, lr_role = RoleOwner, lr_email = vi_email idn\<rparr>,
                  db'\<lparr>org_members := org_members db' @ [\<lparr>mem_org = org_id org, mem_user = userID, mem_role = RoleOwner\<rparr>]\<rparr>)))"

definition CompleteLogin ::
  "(string \<Rightarrow> string) \<Rightarrow> database \<Rightarrow> nat \<Rightarrow> login_ids \<Rightarrow> verified_identity \<Rightarrow> (login_error + login_result) \<times> database" where
  "CompleteLogin lower db now ids raw =
    (let idn = trimmed_identity lower raw in
     if vi_email idn = [] then (Inl EmailRequired, db)
     else if vi_provider idn = [] then (Inl ProviderRequired, db)
     else (case findOrCreateLoginUser db (li_user ids) idn of
         Inl e \<Rightarrow> (Inl (LoginDB e), db)
       | Inr (userID, db1) \<Rightarrow>
          (let db2 = upsertUserIdentity db1 (li_identity ids) userID idn in
           case acceptPendingOrgInvite lower db2 now userID (vi_email idn) of
             Inl e \<Rightarrow> (Inl (LoginDB e), db2)
           | Inr (Some (orgID, role), db3) \<Rightarrow> (Inr \<lparr>lr_user = userID, lr_org = orgID, lr_role = role, lr_email = vi_email idn\<rparr>, db3)
           | Inr (None, db3) \<Rightarrow> login_org lower db3 ids userID idn)))"

section \<open>Invitations\<close>

definition InviteOrgMember :: "(string \<Rightarrow> string) \<Rightarrow> database \<Rightarrow> nat \<Rightarrow> string \<Rightarrow> string \<Rightarrow> string \<Rightarrow> string \<Rightarrow> string \<Rightarrow> db_error + invite_row \<times> database" where
  "InviteOrgMember lower db now newID orgID email role invitedBy =
    (let address = normalizeEmail lower email in
     if \<not> list_ex (\<lambda>r. org_id r = orgID) (organizations db) \<or> \<not> list_ex (\<lambda>u. user_id u = invitedBy) (users db) then Inl foreign_key_violation
     else case find (\<lambda>i. inv_org i = orgID \<and> inv_email i = address) (org_invites db) of
        Some old \<Rightarrow> (let new = old\<lparr>inv_role := role, inv_by := invitedBy, inv_created := now\<rparr>
          in Inr (new, db\<lparr>org_invites := map (\<lambda>i. if inv_org i = orgID \<and> inv_email i = address then new else i) (org_invites db)\<rparr>))
      | None \<Rightarrow> if list_ex (\<lambda>i. inv_id i = newID) (org_invites db) then Inl unique_violation
          else (let new = \<lparr>inv_id = newID, inv_org = orgID, inv_email = address, inv_role = role, inv_by = invitedBy, inv_created = now\<rparr>
                in Inr (new, db\<lparr>org_invites := org_invites db @ [new]\<rparr>)))"

definition ListOrgInvites :: "database \<Rightarrow> string \<Rightarrow> invite_row list" where
  "ListOrgInvites db orgID = sort_key (\<lambda>i. - int (inv_created i)) (filter (\<lambda>i. inv_org i = orgID) (org_invites db))"

definition GetOrgInvite :: "database \<Rightarrow> string \<Rightarrow> string \<Rightarrow> db_error + invite_row" where
  "GetOrgInvite db orgID inviteID = (case find (\<lambda>i. inv_org i = orgID \<and> inv_id i = inviteID) (org_invites db) of None \<Rightarrow> Inl NoRows | Some i \<Rightarrow> Inr i)"

definition DeleteOrgInvite :: "database \<Rightarrow> string \<Rightarrow> string \<Rightarrow> database" where
  "DeleteOrgInvite db orgID inviteID = db\<lparr>org_invites := filter (\<lambda>i. \<not> (inv_org i = orgID \<and> inv_id i = inviteID)) (org_invites db)\<rparr>"

definition handleListInvites :: "database \<Rightarrow> identity option \<Rightarrow> invite_row list response" where
  "handleListInvites db who = (case who of None \<Rightarrow> Fail 401 ''unauthorized'' | Some idn \<Rightarrow> Reply 200 (ListOrgInvites db (id_org idn)))"

text \<open>The answer of \<^verbatim>\<open>handleCreateInvite\<close> is the invitation and whether its email was sent; \<open>emails\<close> is the mail service, None where there is none.\<close>

definition handleCreateInvite ::
  "(string \<Rightarrow> string) \<Rightarrow> (string \<Rightarrow> bool) option \<Rightarrow> database \<Rightarrow> nat \<Rightarrow> string \<Rightarrow> identity option \<Rightarrow> (string \<times> string) option
    \<Rightarrow> (invite_row \<times> bool) response \<times> database" where
  "handleCreateInvite lower emails db now newID who body =
    (case requireOrgAdmin who of
       Inl msg \<Rightarrow> (Fail 403 msg, db)
     | Inr idn \<Rightarrow>
        (case body of
           None \<Rightarrow> (Fail 400 ''invalid JSON'', db)
         | Some (rawEmail, rawRole) \<Rightarrow>
            (let email = normalizeEmail lower rawEmail in
             if email = [] \<or> CHR ''@'' \<notin> set email then (Fail 400 ''valid email required'', db)
             else case parseRole rawRole RoleViewer of
                Inl e \<Rightarrow> (Fail 400 e, db)
              | Inr role \<Rightarrow>
                 if \<not> canAssignRole (id_role idn) role then (Fail 403 ''cannot invite that role'', db)
                 else case InviteOrgMember lower db now newID (id_org idn) email role (id_user idn) of
                    Inl e \<Rightarrow> (Fail 500 ''database error'', db)
                  | Inr (invite, db') \<Rightarrow> (Reply 201 (invite, (case emails of None \<Rightarrow> False
                       | Some send \<Rightarrow> is_ok (GetOrganization db' (id_org idn)) \<and> send (inv_email invite))), db'))))"

definition handleDeleteInvite :: "database \<Rightarrow> identity option \<Rightarrow> string \<Rightarrow> unit response \<times> database" where
  "handleDeleteInvite db who inviteID =
    (case requireOrgAdmin who of
       Inl msg \<Rightarrow> (Fail 403 msg, db)
     | Inr idn \<Rightarrow>
        (case GetOrgInvite db (id_org idn) inviteID of
           Inl e \<Rightarrow> (Fail 404 ''invite not found'', db)
         | Inr invite \<Rightarrow> if \<not> canManageMemberRole (id_role idn) (inv_role invite) then (Fail 403 ''cannot revoke that invite'', db)
             else (Reply 200 (), DeleteOrgInvite db (id_org idn) inviteID)))"

section \<open>Members and the caller\<close>

definition member_rows :: "database \<Rightarrow> member_row list \<Rightarrow> (user_row \<times> string) list" where
  "member_rows db ms = List.map_filter (\<lambda>m. map_option (\<lambda>u. (u, mem_role m)) (find (\<lambda>u. user_id u = mem_user m) (users db))) ms"

definition GetOrgMember :: "database \<Rightarrow> string \<Rightarrow> string \<Rightarrow> db_error + user_row \<times> string" where
  "GetOrgMember db orgID userID = (case member_rows db (filter (\<lambda>m. mem_org m = orgID \<and> mem_user m = userID) (org_members db)) of
     [] \<Rightarrow> Inl NoRows | m # _ \<Rightarrow> Inr m)"

definition ListOrgMembers :: "database \<Rightarrow> string \<Rightarrow> (user_row \<times> string) list" where
  "ListOrgMembers db orgID = member_rows db (filter (\<lambda>m. mem_org m = orgID) (org_members db))"

definition handleGetOrg :: "database \<Rightarrow> identity option \<Rightarrow> org_row response" where
  "handleGetOrg db who = (case who of None \<Rightarrow> Fail 401 ''unauthorized''
     | Some idn \<Rightarrow> (case GetOrganization db (id_org idn) of Inl e \<Rightarrow> Fail 500 ''database error'' | Inr org \<Rightarrow> Reply 200 org))"

definition handleListMembers :: "database \<Rightarrow> identity option \<Rightarrow> (user_row \<times> string) list response" where
  "handleListMembers db who = (case who of None \<Rightarrow> Fail 401 ''unauthorized'' | Some idn \<Rightarrow> Reply 200 (ListOrgMembers db (id_org idn)))"

definition handleMe :: "database \<Rightarrow> identity option \<Rightarrow> (user_row \<times> string \<times> string \<times> string list) response" where
  "handleMe db who = (case who of None \<Rightarrow> Fail 401 ''unauthorized''
     | Some idn \<Rightarrow> (case GetUser db (id_user idn) of Inl e \<Rightarrow> Fail 500 ''database error''
        | Inr u \<Rightarrow> Reply 200 (u, id_org idn, id_role idn, id_scopes idn)))"

section \<open>Provisioning\<close>

record provision_org_request = po_id :: string po_name :: string po_slug :: string po_external :: string

definition handleAdminProvisionOrg :: "database \<Rightarrow> string \<Rightarrow> bool \<Rightarrow> provision_org_request option \<Rightarrow> org_row response \<times> database" where
  "handleAdminProvisionOrg db newID isAdmin body =
    (if \<not> isAdmin then (Fail 403 ''admin API key required'', db)
     else case body of
        None \<Rightarrow> (Fail 400 ''invalid JSON'', db)
      | Some req \<Rightarrow>
         (let name = trim_space (po_name req); given = cleanSlug (po_slug req); slug = (if given = [] then cleanSlug name else given) in
          if name = [] then (Fail 400 ''name is required'', db)
          else if slug = [] then (Fail 400 ''slug is required'', db)
          else case ProvisionOrganization db newID (trim_space (po_id req)) name slug (trim_space (po_external req)) of
             Inl e \<Rightarrow> (Fail 500 ''database error'', db)
           | Inr (org, db') \<Rightarrow> (Reply 200 org, db')))"

definition handleAdminProvisionUser :: "database \<Rightarrow> string \<Rightarrow> bool \<Rightarrow> user_row option \<Rightarrow> user_row response \<times> database" where
  "handleAdminProvisionUser db newID isAdmin body =
    (if \<not> isAdmin then (Fail 403 ''admin API key required'', db)
     else case body of
        None \<Rightarrow> (Fail 400 ''invalid JSON'', db)
      | Some req \<Rightarrow>
         (let u = \<lparr>user_id = trim_space (user_id req), user_email = trim_space (user_email req), user_name = trim_space (user_name req),
                   user_avatar = trim_space (user_avatar req), user_provider = trim_space (user_provider req),
                   user_provider_id = trim_space (user_provider_id req), user_external = trim_space (user_external req)\<rparr> in
          if user_email u = [] then (Fail 400 ''email is required'', db)
          else case ProvisionUser db newID u of
             Inl e \<Rightarrow> (Fail 500 ''database error'', db)
           | Inr (user, db') \<Rightarrow> (Reply 200 user, db')))"

section \<open>Groups\<close>

text \<open>The database function \<^verbatim>\<open>upsert_org_group\<close>: the row it selects first, with the precedence of its ORDER BY.\<close>

definition group_rank :: "string \<Rightarrow> string \<Rightarrow> string \<Rightarrow> group_row \<Rightarrow> nat" where
  "group_rank org i external g = (if group_org g = org \<and> external \<noteq> [] \<and> group_external g = external then 0 else if group_id g = i then 1 else 2)"

definition CreateGroup :: "database \<Rightarrow> string \<Rightarrow> string \<Rightarrow> string \<Rightarrow> string \<Rightarrow> string \<Rightarrow> db_error + group_row \<times> database" where
  "CreateGroup db newID orgID givenID name external =
    (let i = (if givenID = [] then newID else givenID);
         hits = sort_key (group_rank orgID i external) (filter (\<lambda>g. group_id g = i
           \<or> group_org g = orgID \<and> (external \<noteq> [] \<and> group_external g = external \<or> group_name g = name)) (groups db)) in
     if \<not> list_ex (\<lambda>r. org_id r = orgID) (organizations db) then Inl (PgError ''PF404'' ''org not found'')
     else case hits of
        [] \<Rightarrow> (let g = \<lparr>group_id = i, group_org = orgID, group_name = name, group_external = external\<rparr> in Inr (g, db\<lparr>groups := groups db @ [g]\<rparr>))
      | g # _ \<Rightarrow>
         if group_org g \<noteq> orgID then Inl (PgError ''PF409'' ''group ID belongs to another org'')
         else if group_id g \<noteq> i \<and> (external = [] \<or> group_external g \<noteq> external) then Inl (PgError ''PF409'' ''group name already exists'')
         else if group_name g = name \<and> group_external g = external then Inr (g, db)
         else if list_ex (\<lambda>x. group_id x \<noteq> group_id g \<and> group_org x = orgID
                   \<and> (group_name x = name \<or> external \<noteq> [] \<and> group_external x = external)) (groups db)
         then Inl (PgError ''PF409'' ''group name or external ID already exists'')
         else (let g' = g\<lparr>group_name := name, group_external := external\<rparr>
               in Inr (g', db\<lparr>groups := map (\<lambda>x. if group_id x = group_id g then g' else x) (groups db)\<rparr>)))"

definition GetGroup :: "database \<Rightarrow> string \<Rightarrow> string \<Rightarrow> db_error + group_row" where
  "GetGroup db orgID groupID = (case find (\<lambda>g. group_org g = orgID \<and> group_id g = groupID) (groups db) of None \<Rightarrow> Inl NoRows | Some g \<Rightarrow> Inr g)"

definition ListGroups :: "database \<Rightarrow> string \<Rightarrow> db_error + group_row list" where
  "ListGroups db orgID = (if list_ex (\<lambda>r. org_id r = orgID) (organizations db)
     then Inr (sort_key group_name (filter (\<lambda>g. group_org g = orgID) (groups db))) else Inl NoRows)"

definition AddGroupMember :: "database \<Rightarrow> string \<Rightarrow> string \<Rightarrow> string \<Rightarrow> db_error + group_member_row \<times> database" where
  "AddGroupMember db orgID groupID userID =
    (let row = \<lparr>gm_org = orgID, gm_group = groupID, gm_user = userID\<rparr> in
     if \<not> (list_ex (\<lambda>r. org_id r = orgID) (organizations db) \<and> list_ex (\<lambda>g. group_org g = orgID \<and> group_id g = groupID) (groups db))
     then Inl (PgError ''PF404'' ''group not found'')
     else if member_of db orgID userID = None then Inl (PgError ''PF404'' ''member not found'')
     else if row \<in> set (group_members db) then Inr (row, db)
     else Inr (row, db\<lparr>group_members := group_members db @ [row]\<rparr>))"

definition DeleteGroupMember :: "database \<Rightarrow> string \<Rightarrow> string \<Rightarrow> string \<Rightarrow> db_error + database" where
  "DeleteGroupMember db orgID groupID userID =
    (let row = \<lparr>gm_org = orgID, gm_group = groupID, gm_user = userID\<rparr> in
     if row \<in> set (group_members db) then Inr (db\<lparr>group_members := filter (\<lambda>x. x \<noteq> row) (group_members db)\<rparr>) else Inl NoRows)"

definition ListGroupMembers :: "database \<Rightarrow> string \<Rightarrow> string \<Rightarrow> db_error + user_row list" where
  "ListGroupMembers db orgID groupID = try_then (GetGroup db orgID groupID) (\<lambda>g.
     Inr (sort_key user_email (List.map_filter (\<lambda>gm. find (\<lambda>u. user_id u = gm_user gm) (users db))
       (filter (\<lambda>gm. gm_org gm = orgID \<and> gm_group gm = groupID) (group_members db)))))"

definition handleAdminCreateGroup ::
  "database \<Rightarrow> string \<Rightarrow> bool \<Rightarrow> string \<Rightarrow> (string \<times> string \<times> string) option \<Rightarrow> group_row response \<times> database" where
  "handleAdminCreateGroup db newID isAdmin orgID body =
    (if \<not> isAdmin then (Fail 403 ''admin API key required'', db)
     else case body of
        None \<Rightarrow> (Fail 400 ''invalid JSON'', db)
      | Some (givenID, rawName, external) \<Rightarrow>
         if trim_space rawName = [] then (Fail 400 ''name is required'', db)
         else case CreateGroup db newID orgID (trim_space givenID) (trim_space rawName) (trim_space external) of
            Inl e \<Rightarrow> (writeMutationError e, db)
          | Inr (g, db') \<Rightarrow> (Reply 201 g, db'))"

definition handleAdminListGroups :: "database \<Rightarrow> bool \<Rightarrow> string \<Rightarrow> group_row list response" where
  "handleAdminListGroups db isAdmin orgID = (if \<not> isAdmin then Fail 403 ''admin API key required''
     else case ListGroups db orgID of Inl e \<Rightarrow> if e = NoRows then Fail 404 ''org not found'' else writeMutationError e | Inr gs \<Rightarrow> Reply 200 gs)"

definition handleAdminListGroupMembers :: "database \<Rightarrow> bool \<Rightarrow> string \<Rightarrow> string \<Rightarrow> user_row list response" where
  "handleAdminListGroupMembers db isAdmin orgID groupID = (if \<not> isAdmin then Fail 403 ''admin API key required''
     else case ListGroupMembers db orgID groupID of Inl e \<Rightarrow> if e = NoRows then Fail 404 ''group not found'' else writeMutationError e | Inr us \<Rightarrow> Reply 200 us)"

definition handleAdminAddGroupMember :: "database \<Rightarrow> bool \<Rightarrow> string \<Rightarrow> string \<Rightarrow> string \<Rightarrow> group_member_row response \<times> database" where
  "handleAdminAddGroupMember db isAdmin orgID groupID userID = (if \<not> isAdmin then (Fail 403 ''admin API key required'', db)
     else case AddGroupMember db orgID groupID userID of Inl e \<Rightarrow> (writeMutationError e, db) | Inr (m, db') \<Rightarrow> (Reply 200 m, db'))"

definition handleAdminDeleteGroupMember :: "database \<Rightarrow> bool \<Rightarrow> string \<Rightarrow> string \<Rightarrow> string \<Rightarrow> unit response \<times> database" where
  "handleAdminDeleteGroupMember db isAdmin orgID groupID userID = (if \<not> isAdmin then (Fail 403 ''admin API key required'', db)
     else case DeleteGroupMember db orgID groupID userID of
        Inl e \<Rightarrow> (if e = NoRows then Fail 404 ''group member not found'' else Fail 500 ''database error'', db)
      | Inr db' \<Rightarrow> (Reply 200 (), db'))"

section \<open>Ignore policies\<close>

fun replace_crlf :: "string \<Rightarrow> string" where
  "replace_crlf (a # b # s) = (if a = CHR 0x0D \<and> b = CHR 0x0A then CHR 0x0A # replace_crlf s else a # replace_crlf (b # s))"
| "replace_crlf s = s"

definition maxIgnorePolicyBytes :: nat where "maxIgnorePolicyBytes = 256 * 1024"

definition normalizeIgnorePolicyPatterns :: "string \<Rightarrow> string + string" where
  "normalizeIgnorePolicyPatterns raw =
    (let patterns = replace_char (CHR 0x0D) (CHR 0x0A) (replace_crlf raw) in
     if length patterns > maxIgnorePolicyBytes then Inl ''ignore policy is too large''
     else if CHR 0x00 \<in> set patterns then Inl ''ignore policy contains NUL byte''
     else Inr patterns)"

definition GetOrgIgnorePolicy :: "database \<Rightarrow> string \<Rightarrow> org_policy_row" where
  "GetOrgIgnorePolicy db orgID = (case find (\<lambda>p. op_org p = orgID) (org_ignore_policies db) of
     None \<Rightarrow> \<lparr>op_org = orgID, op_patterns = [], op_by = []\<rparr> | Some p \<Rightarrow> p)"

definition GetUserIgnorePolicy :: "database \<Rightarrow> string \<Rightarrow> string \<Rightarrow> user_policy_row" where
  "GetUserIgnorePolicy db orgID userID = (case find (\<lambda>p. up_org p = orgID \<and> up_user p = userID) (user_ignore_policies db) of
     None \<Rightarrow> \<lparr>up_org = orgID, up_user = userID, up_patterns = []\<rparr> | Some p \<Rightarrow> p)"

definition GetEffectiveIgnorePolicy :: "database \<Rightarrow> string \<Rightarrow> string \<Rightarrow> string \<times> string" where
  "GetEffectiveIgnorePolicy db orgID userID =
    ((case find (\<lambda>p. op_org p = orgID) (org_ignore_policies db) of None \<Rightarrow> [] | Some p \<Rightarrow> op_patterns p),
     (case find (\<lambda>p. up_org p = orgID \<and> up_user p = userID) (user_ignore_policies db) of None \<Rightarrow> [] | Some p \<Rightarrow> up_patterns p))"

definition upsert_row :: "('a \<Rightarrow> bool) \<Rightarrow> 'a \<Rightarrow> 'a list \<Rightarrow> 'a list" where
  "upsert_row hit row rows = (if list_ex hit rows then map (\<lambda>x. if hit x then row else x) rows else rows @ [row])"

definition SetOrgIgnorePolicy :: "database \<Rightarrow> string \<Rightarrow> string \<Rightarrow> string \<Rightarrow> db_error + org_policy_row \<times> database" where
  "SetOrgIgnorePolicy db orgID updatedBy patterns =
    (let row = \<lparr>op_org = orgID, op_patterns = patterns, op_by = updatedBy\<rparr> in
     if \<not> list_ex (\<lambda>r. org_id r = orgID) (organizations db) \<or> \<not> list_ex (\<lambda>u. user_id u = updatedBy) (users db) then Inl foreign_key_violation
     else Inr (row, db\<lparr>org_ignore_policies := upsert_row (\<lambda>p. op_org p = orgID) row (org_ignore_policies db)\<rparr>))"

definition SetUserIgnorePolicy :: "database \<Rightarrow> string \<Rightarrow> string \<Rightarrow> string \<Rightarrow> db_error + user_policy_row \<times> database" where
  "SetUserIgnorePolicy db orgID userID patterns =
    (let row = \<lparr>up_org = orgID, up_user = userID, up_patterns = patterns\<rparr> in
     if \<not> list_ex (\<lambda>r. org_id r = orgID) (organizations db) \<or> \<not> list_ex (\<lambda>u. user_id u = userID) (users db) then Inl foreign_key_violation
     else Inr (row, db\<lparr>user_ignore_policies := upsert_row (\<lambda>p. up_org p = orgID \<and> up_user p = userID) row (user_ignore_policies db)\<rparr>))"

definition handleGetEffectiveIgnorePolicy :: "database \<Rightarrow> identity option \<Rightarrow> (string \<times> string) response" where
  "handleGetEffectiveIgnorePolicy db who = (case who of None \<Rightarrow> Fail 401 ''unauthorized''
     | Some idn \<Rightarrow> if \<not> HasScope who ''query'' [''sync'', ''read'', ''write''] then Fail 403 ''read or sync scope required''
        else Reply 200 (GetEffectiveIgnorePolicy db (id_org idn) (id_user idn)))"

definition handleGetOrgIgnorePolicy :: "database \<Rightarrow> identity option \<Rightarrow> org_policy_row response" where
  "handleGetOrgIgnorePolicy db who = (case who of None \<Rightarrow> Fail 401 ''unauthorized''
     | Some idn \<Rightarrow> if \<not> HasScope who ''query'' [''sync'', ''read'', ''write'', ''org:admin'', ''admin''] then Fail 403 ''read or sync scope required''
        else Reply 200 (GetOrgIgnorePolicy db (id_org idn)))"

definition handleGetUserIgnorePolicy :: "database \<Rightarrow> identity option \<Rightarrow> user_policy_row response" where
  "handleGetUserIgnorePolicy db who = (case who of None \<Rightarrow> Fail 401 ''unauthorized''
     | Some idn \<Rightarrow> if \<not> HasScope who ''query'' [''sync'', ''read'', ''write''] then Fail 403 ''read or sync scope required''
        else Reply 200 (GetUserIgnorePolicy db (id_org idn) (id_user idn)))"

definition decodeIgnorePolicyUpdate :: "string option \<Rightarrow> string + string" where
  "decodeIgnorePolicyUpdate body = (case body of None \<Rightarrow> Inl ''invalid JSON'' | Some raw \<Rightarrow> normalizeIgnorePolicyPatterns raw)"

definition handleSetOrgIgnorePolicy :: "database \<Rightarrow> identity option \<Rightarrow> string option \<Rightarrow> org_policy_row response \<times> database" where
  "handleSetOrgIgnorePolicy db who body = (case requireOrgAdmin who of
      Inl msg \<Rightarrow> (Fail 403 msg, db)
    | Inr idn \<Rightarrow> (case decodeIgnorePolicyUpdate body of
        Inl e \<Rightarrow> (Fail 400 e, db)
      | Inr patterns \<Rightarrow> (case SetOrgIgnorePolicy db (id_org idn) (id_user idn) patterns of
          Inl e \<Rightarrow> (Fail 500 ''database error'', db) | Inr (p, db') \<Rightarrow> (Reply 200 p, db'))))"

definition handleSetUserIgnorePolicy :: "database \<Rightarrow> identity option \<Rightarrow> string option \<Rightarrow> user_policy_row response \<times> database" where
  "handleSetUserIgnorePolicy db who body = (case who of
      None \<Rightarrow> (Fail 401 ''unauthorized'', db)
    | Some idn \<Rightarrow> if \<not> HasScope who ''sync'' [''write''] then (Fail 403 ''sync scope required'', db)
      else (case decodeIgnorePolicyUpdate body of
        Inl e \<Rightarrow> (Fail 400 e, db)
      | Inr patterns \<Rightarrow> (case SetUserIgnorePolicy db (id_org idn) (id_user idn) patterns of
          Inl e \<Rightarrow> (Fail 500 ''database error'', db) | Inr (p, db') \<Rightarrow> (Reply 200 p, db'))))"

section \<open>What a login changes\<close>

text \<open>
  A login leaves every membership as it is and adds at most one row, for the user who logs in: the one
  that an invitation to the address promises, or the ownership of an organisation that did not exist.
\<close>

definition login_grant :: "(string \<Rightarrow> string) \<Rightarrow> database \<Rightarrow> string \<Rightarrow> string \<Rightarrow> member_row \<Rightarrow> bool" where
  "login_grant lower db email userID m \<longleftrightarrow> mem_user m = userID \<and>
     ((\<exists>i\<in>set (org_invites db). inv_email i = normalizeEmail lower email \<and> inv_org i = mem_org m \<and> inv_role i = mem_role m)
      \<or> mem_role m = RoleOwner \<and> \<not> list_ex (\<lambda>r. org_id r = mem_org m) (organizations db))"

definition login_ok :: "(string \<Rightarrow> string) \<Rightarrow> database \<Rightarrow> string \<Rightarrow> login_result \<Rightarrow> database \<Rightarrow> bool" where
  "login_ok lower db email r db' \<longleftrightarrow>
     (\<exists>m. member_of db' (lr_org r) (lr_user r) = Some m \<and> mem_role m = lr_role r)
     \<and> (org_members db' = org_members db \<or> (\<exists>m. org_members db' = org_members db @ [m] \<and> login_grant lower db email (lr_user r) m))"

lemma upsertUserIdentity_tables [simp]:
  "org_members (upsertUserIdentity db n u i) = org_members db" "org_invites (upsertUserIdentity db n u i) = org_invites db"
  "organizations (upsertUserIdentity db n u i) = organizations db" "users (upsertUserIdentity db n u i) = users db"
  by (simp_all add: upsertUserIdentity_def Let_def split: option.splits)

lemma touch_user_simps [simp]: "user_id (touch_user i b u) = user_id u" "user_email (touch_user i b u) = user_email u"
  by (simp_all add: touch_user_def)

lemma find_snoc: "find P (xs @ [x]) = (case find P xs of None \<Rightarrow> if P x then Some x else None | Some y \<Rightarrow> Some y)"
  by (induction xs) auto

lemma findOrCreateLoginUser_tables:
  assumes "findOrCreateLoginUser db n i = Inr (u, db')"
  shows "org_members db' = org_members db" "org_invites db' = org_invites db" "organizations db' = organizations db"
    "\<exists>x\<in>set (users db'). user_id x = u \<and> user_email x = vi_email i"
    "\<forall>x\<in>set (users db). user_email x = vi_email i \<longrightarrow> (\<exists>y\<in>set (users db). user_id y = u)"
proof -
  have "org_members db' = org_members db \<and> org_invites db' = org_invites db \<and> organizations db' = organizations db
    \<and> (\<exists>x\<in>set (users db'). user_id x = u \<and> user_email x = vi_email i)
    \<and> (\<forall>x\<in>set (users db). user_email x = vi_email i \<longrightarrow> (\<exists>y\<in>set (users db). user_id y = u))"
  proof (cases "find (\<lambda>u. user_email u = vi_email i) (users db)")
    case None
    then have "\<forall>x\<in>set (users db). user_email x \<noteq> vi_email i" by (simp add: find_None_iff)
    with None assms show ?thesis by (auto simp: findOrCreateLoginUser_def insert_user_def try_then_Inr_iff split: if_splits)
  next
    case (Some e)
    let ?t = "touch_user i (user_provider e = vi_provider i)"
    have "u = user_id e" "db' = db\<lparr>users := map (\<lambda>u. if user_id u = user_id e then ?t u else u) (users db)\<rparr>"
      using Some assms by (auto simp: findOrCreateLoginUser_def)
    moreover have "e \<in> set (users db)" "user_email e = vi_email i" using find_member_mem[OF Some] by simp_all
    moreover from this have "?t e \<in> (\<lambda>u. if user_id u = user_id e then ?t u else u) ` set (users db)" by (auto intro!: image_eqI[of _ _ e])
    ultimately show ?thesis by (auto intro: bexI[of _ "?t e"])
  qed
  then show "org_members db' = org_members db" "org_invites db' = org_invites db" "organizations db' = organizations db"
    "\<exists>x\<in>set (users db'). user_id x = u \<and> user_email x = vi_email i"
    "\<forall>x\<in>set (users db). user_email x = vi_email i \<longrightarrow> (\<exists>y\<in>set (users db). user_id y = u)" by simp_all
qed

lemma join_member:
  assumes "changeOrgMember db now org None user role ''join'' = Inr (m, db')"
  shows "member_of db' org user = Some m" "org_invites db' = org_invites db"
    "db' = db \<or> member_of db org user = None \<and> m = \<lparr>mem_org = org, mem_user = user, mem_role = role\<rparr> \<and> org_members db' = org_members db @ [m]"
proof -
  have "(member_of db org user = Some m \<and> db' = db) \<or> (member_of db org user = None \<and> m = \<lparr>mem_org = org, mem_user = user, mem_role = role\<rparr>
      \<and> db' = db\<lparr>org_members := org_members db @ [m]\<rparr>)"
    using assms by (auto simp: changeOrgMember_def Let_def split: option.splits if_splits)
  moreover have "member_of (db\<lparr>org_members := org_members db @ [m]\<rparr>) org user = Some m"
    if "member_of db org user = None" "m = \<lparr>mem_org = org, mem_user = user, mem_role = role\<rparr>"
    using that by (simp add: member_of_def find_snoc)
  ultimately show "member_of db' org user = Some m" "org_invites db' = org_invites db"
    "db' = db \<or> member_of db org user = None \<and> m = \<lparr>mem_org = org, mem_user = user, mem_role = role\<rparr> \<and> org_members db' = org_members db @ [m]" by auto
qed

lemma first_invite_mem: "first_invite db email = Some i \<Longrightarrow> i \<in> set (org_invites db) \<and> inv_email i = email"
proof -
  assume a: "first_invite db email = Some i"
  then have "i \<in> set (sort_key inv_created (filter (\<lambda>i. inv_email i = email) (org_invites db)))"
    unfolding first_invite_def by (cases "sort_key inv_created (filter (\<lambda>i. inv_email i = email) (org_invites db))") auto
  then show ?thesis by simp
qed

lemma login_org_ok:
  assumes "login_org lower db ids u i = (Inr r, db')"
  shows "login_ok lower db email r db'" "lr_user r = u" "lr_email r = vi_email i"
proof -
  have r: "lr_user r = u \<and> lr_email r = vi_email i \<and> login_ok lower db email r db'"
  proof (cases "find (\<lambda>m. mem_user m = u) (org_members db)")
    case (Some m)
    have "find (\<lambda>x. mem_org x = mem_org m \<and> mem_user x = u) ms = Some m" if "find (\<lambda>m. mem_user m = u) ms = Some m" for ms
      using that by (induction ms) (auto split: if_splits)
    then have "member_of db (mem_org m) u = Some m" using Some by (simp add: member_of_def)
    with Some assms show ?thesis by (auto simp: login_org_def login_ok_def)
  next
    case None
    let ?slug = "personalOrgSlug lower (li_slug ids) (vi_email i)"
    let ?new = "\<lparr>mem_org = li_org ids, mem_user = u, mem_role = RoleOwner\<rparr>"
    obtain db1 where c: "CreateOrganization db (li_org ids) (workspaceName i) ?slug = Inr (\<lparr>org_id = li_org ids, org_name = workspaceName i, org_slug = ?slug, org_external = []\<rparr>, db1)"
      and fresh: "\<not> list_ex (\<lambda>x. org_id x = li_org ids) (organizations db)" and mem: "org_members db1 = org_members db"
    proof (cases "CreateOrganization db (li_org ids) (workspaceName i) ?slug")
      case (Inl e)
      with None assms show ?thesis by (simp add: login_org_def)
    next
      case (Inr x)
      then show ?thesis using that
        by (fastforce simp: CreateOrganization_def insert_org_def try_then_Inr_iff Let_def list_ex_iff split: if_splits)
    qed
    have no: "member_of db1 (li_org ids) u = None" using c None assms by (auto simp: login_org_def split: if_splits)
    have r: "r = \<lparr>lr_user = u, lr_org = li_org ids, lr_role = RoleOwner, lr_email = vi_email i\<rparr>"
      and db': "db' = db1\<lparr>org_members := org_members db1 @ [?new]\<rparr>"
      using c None assms no by (auto simp: login_org_def split: if_splits)
    have "member_of db' (li_org ids) u = Some ?new" using no by (simp add: db' member_of_def find_snoc)
    moreover have "login_grant lower db email u ?new" using fresh by (simp add: login_grant_def)
    ultimately show ?thesis by (simp add: login_ok_def r) (simp add: db' mem)
  qed
  then show "login_ok lower db email r db'" "lr_user r = u" "lr_email r = vi_email i" by simp_all
qed

lemma acceptPendingOrgInvite_ok:
  assumes "acceptPendingOrgInvite lower db now u email = Inr (Some (org, role), db')"
  shows "login_ok lower db email \<lparr>lr_user = u, lr_org = org, lr_role = role, lr_email = e\<rparr> db'"
proof -
  obtain i m db1 where i: "first_invite db (normalizeEmail lower email) = Some i" and j: "changeOrgMember db now (inv_org i) None u (inv_role i) ''join'' = Inr (m, db1)"
    and r: "org = inv_org i" "role = mem_role m" and db': "db' = db1\<lparr>org_invites := filter (\<lambda>x. inv_id x \<noteq> inv_id i) (org_invites db1)\<rparr>"
    using assms by (auto simp: acceptPendingOrgInvite_def try_then_Inr_iff split: option.splits)
  have "member_of db' org u = Some m" using join_member(1)[OF j] by (simp add: db' r member_of_def)
  moreover have "org_members db' = org_members db \<or> org_members db' = org_members db @ [m] \<and> login_grant lower db email u m"
    using join_member(3)[OF j] first_invite_mem[OF i] by (auto simp: db' login_grant_def)
  ultimately show ?thesis by (auto simp: login_ok_def r)
qed

text \<open>
  C39: a successful login acts for a current member.  The user has the verified address, the returned role
  is the one of a membership row of the returned organisation, and of all memberships at most one
  changes: a row is added for this user, with the role of a pending invitation to the same address
  or as owner of an organisation that did not exist before.  An invitation never overwrites a role
  that is already there, and a login never touches another user's membership.
\<close>

theorem CompleteLogin_membership:
  assumes "CompleteLogin lower db now ids raw = (Inr r, db')"
  shows "login_ok lower db (normalizeEmail lower (vi_email raw)) r db' \<and> lr_email r = normalizeEmail lower (vi_email raw)
    \<and> (\<exists>u\<in>set (users db'). user_id u = lr_user r \<and> user_email u = lr_email r)"
proof -
  let ?idn = "trimmed_identity lower raw"
  let ?email = "normalizeEmail lower (vi_email raw)"
  have email: "vi_email ?idn = ?email" by (simp add: trimmed_identity_def)
  obtain u db1 where f: "findOrCreateLoginUser db (li_user ids) ?idn = Inr (u, db1)"
    using assms by (auto simp: CompleteLogin_def Let_def split: if_splits sum.splits)
  define db2 where "db2 = upsertUserIdentity db1 (li_identity ids) u ?idn"
  obtain accepted db3 where a: "acceptPendingOrgInvite lower db2 now u ?email = Inr (accepted, db3)"
    using assms f by (auto simp: CompleteLogin_def Let_def db2_def email split: if_splits sum.splits)
  note T = findOrCreateLoginUser_tables[OF f]
  have same: "login_ok lower db2 ?email r db' = login_ok lower db ?email r db'"
    by (simp add: login_ok_def login_grant_def db2_def T(1,2,3))
  have user: "\<exists>x\<in>set (users db2). user_id x = u \<and> user_email x = ?email" using T(4) by (simp add: db2_def email)
  have keep: "users db3 = users db2 \<and> (accepted = None \<longrightarrow> db3 = db2)"
    using a join_member(3) by (fastforce simp: acceptPendingOrgInvite_def try_then_Inr_iff changeOrgMember_def Let_def split: option.splits if_splits)
  show ?thesis
  proof (cases accepted)
    case None
    then have l: "login_org lower db2 ids u ?idn = (Inr r, db')"
      using assms f a keep by (auto simp: CompleteLogin_def Let_def db2_def email split: if_splits)
    have "users db' = users db2" using l
      by (auto simp: login_org_def CreateOrganization_def insert_org_def try_then_def Let_def split: option.splits if_splits sum.splits)
    then show ?thesis using login_org_ok(1)[OF l, of ?email] login_org_ok(2,3)[OF l] user same email by simp
  next
    case (Some x)
    obtain org role where x: "x = (org, role)" by (cases x)
    have r: "r = \<lparr>lr_user = u, lr_org = org, lr_role = role, lr_email = ?email\<rparr>" "db' = db3"
      using assms f a Some x by (auto simp: CompleteLogin_def Let_def db2_def email split: if_splits)
    show ?thesis using acceptPendingOrgInvite_ok[OF a[unfolded Some x], of "normalizeEmail lower (vi_email raw)"] user same keep r by simp
  qed
qed

definition invited_db :: database where
  "invited_db = empty_database\<lparr>organizations := [\<lparr>org_id = ''o1'', org_name = ''Org'', org_slug = ''org'', org_external = []\<rparr>],
     users := [\<lparr>user_id = ''u1'', user_email = ''boss@x.io'', user_name = [], user_avatar = [], user_provider = ''google'', user_provider_id = [], user_external = []\<rparr>],
     org_members := [\<lparr>mem_org = ''o1'', mem_user = ''u1'', mem_role = RoleOwner\<rparr>],
     org_invites := [\<lparr>inv_id = ''i1'', inv_org = ''o1'', inv_email = ''new@x.io'', inv_role = RoleEditor, inv_by = ''u1'', inv_created = 3\<rparr>]\<rparr>"

definition sample_ids :: login_ids where
  "sample_ids = \<lparr>li_user = ''u2'', li_identity = ''n2'', li_org = ''o2'', li_slug = ''12345678-0000''\<rparr>"

definition sample_identity :: verified_identity where
  "sample_identity = \<lparr>vi_provider = ''google'', vi_provider_id = ''g7'', vi_email = '' new@x.io'', vi_name = ''New'', vi_avatar = [], vi_verified = True\<rparr>"

abbreviation sample_login :: "(login_error + login_result) \<times> database" where
  "sample_login \<equiv> CompleteLogin to_lower invited_db 9 sample_ids sample_identity"

lemma sample_login_run: "fst sample_login = Inr \<lparr>lr_user = ''u2'', lr_org = ''o1'', lr_role = RoleEditor, lr_email = ''new@x.io''\<rparr>"
  by code_simp

theorem CompleteLogin_membership_witness:
  "login_ok to_lower invited_db ''new@x.io'' \<lparr>lr_user = ''u2'', lr_org = ''o1'', lr_role = RoleEditor, lr_email = ''new@x.io''\<rparr> (snd sample_login)"
proof -
  have run: "sample_login = (Inr \<lparr>lr_user = ''u2'', lr_org = ''o1'', lr_role = RoleEditor, lr_email = ''new@x.io''\<rparr>, snd sample_login)"
    using sample_login_run by (metis prod.collapse)
  have "normalizeEmail to_lower (vi_email sample_identity) = ''new@x.io''" by code_simp
  with CompleteLogin_membership[OF run] show ?thesis by simp
qed

section \<open>Ignore policies are read back\<close>

lemma replace_crlf_chars: "set (replace_crlf s) \<subseteq> set s"
  by (induction s rule: replace_crlf.induct) auto

lemma replace_crlf_free: "CHR 0x0D \<notin> set s \<Longrightarrow> replace_crlf s = s"
  by (induction s rule: replace_crlf.induct) auto

lemma find_upsert_row: "hit row \<Longrightarrow> find hit (upsert_row hit row rows) = Some row"
proof (cases "list_ex hit rows")
  case True
  assume "hit row"
  with True show ?thesis by (simp add: upsert_row_def) (induction rows; auto)
next
  case False
  assume "hit row"
  then have "find hit (rows @ [row]) = Some row" using False find_cong_filter[of hit rows] by (simp add: find_snoc list_ex_iff)
  with False show ?thesis by (simp add: upsert_row_def)
qed

text \<open>
  An accepted ignore policy has no carriage return and no NUL byte and at most 256 KiB, normalising it
  again changes nothing, and the effective policy of every member of the organisation (for a personal
  policy: of the caller) contains exactly the normalised text afterwards, next to the other, unchanged part.
\<close>

lemma ignore_policy_roundtrip:
  assumes norm: "normalizeIgnorePolicyPatterns raw = Inr patterns"
    and set: "handleSetOrgIgnorePolicy db (Some idn) (Some raw) = (Reply 200 row, db1)"
    and own: "handleSetUserIgnorePolicy db1 (Some idn') (Some raw) = (Reply 200 row', db2)" and same: "id_org idn' = id_org idn"
  shows "CHR 0x0D \<notin> set patterns \<and> CHR 0x00 \<notin> set patterns \<and> length patterns \<le> maxIgnorePolicyBytes
    \<and> normalizeIgnorePolicyPatterns patterns = Inr patterns
    \<and> GetEffectiveIgnorePolicy db1 (id_org idn) u = (patterns, snd (GetEffectiveIgnorePolicy db (id_org idn) u))
    \<and> GetEffectiveIgnorePolicy db2 (id_org idn) (id_user idn') = (patterns, patterns)"
proof -
  have p: "patterns = replace_char (CHR 0x0D) (CHR 0x0A) (replace_crlf raw)" "length patterns \<le> maxIgnorePolicyBytes" "CHR 0x00 \<notin> set patterns"
    using norm by (auto simp: normalizeIgnorePolicyPatterns_def Let_def split: if_splits)
  have cr: "CHR 0x0D \<notin> set patterns" using replace_char_set[of "CHR 0x0D" "CHR 0x0D" "CHR 0x0A" "replace_crlf raw"] by (auto simp: p(1))
  have again: "normalizeIgnorePolicyPatterns patterns = Inr patterns"
    using p(2,3) replace_crlf_free[OF cr] cr by (simp add: normalizeIgnorePolicyPatterns_def Let_def)
  obtain r1 where db1: "db1 = db\<lparr>org_ignore_policies := upsert_row (\<lambda>p. op_org p = id_org idn) r1 (org_ignore_policies db)\<rparr>"
      "op_org r1 = id_org idn" "op_patterns r1 = patterns"
    using set norm by (auto simp: handleSetOrgIgnorePolicy_def requireOrgAdmin_def decodeIgnorePolicyUpdate_def SetOrgIgnorePolicy_def Let_def split: if_splits sum.splits)
  obtain r2 where db2: "db2 = db1\<lparr>user_ignore_policies := upsert_row (\<lambda>p. up_org p = id_org idn \<and> up_user p = id_user idn') r2 (user_ignore_policies db1)\<rparr>"
      "up_org r2 = id_org idn" "up_user r2 = id_user idn'" "up_patterns r2 = patterns"
    using own norm same by (auto simp: handleSetUserIgnorePolicy_def decodeIgnorePolicyUpdate_def SetUserIgnorePolicy_def Let_def split: if_splits sum.splits)
  have f1: "find (\<lambda>p. op_org p = id_org idn) (org_ignore_policies db1) = Some r1" using db1 by (simp add: find_upsert_row)
  have f2: "find (\<lambda>p. up_org p = id_org idn \<and> up_user p = id_user idn') (user_ignore_policies db2) = Some r2"
    using db2 by (simp add: find_upsert_row)
  have "GetEffectiveIgnorePolicy db1 (id_org idn) u = (patterns, snd (GetEffectiveIgnorePolicy db (id_org idn) u))"
    using f1 db1(1,3) by (simp add: GetEffectiveIgnorePolicy_def)
  moreover have "GetEffectiveIgnorePolicy db2 (id_org idn) (id_user idn') = (patterns, patterns)"
    using f1 f2 db1(3) db2 by (simp add: GetEffectiveIgnorePolicy_def)
  ultimately show ?thesis using cr p again by simp
qed

end
