(* ===== verification/Email_Login.thy ===== *)
theory Email_Login
  imports Accounts
begin

text \<open>
  Login by emailed code: \<^verbatim>\<open>internal/server/email_login.go\<close> and the statements on
  \<^verbatim>\<open>email_login_challenges\<close> of \<^verbatim>\<open>db.go\<close>.  The keyed hash, the address and URL parsers of the standard
  library, the mail service, the token signer and the random values are parameters of the record
  \<open>login_env\<close>; one clock, in seconds, stands for the clocks of the service and of the database.
  The handlers are first modelled as they run alone; the second half splits the verification at its
  database statements and interleaves any number of requests.
\<close>

section \<open>Challenges\<close>

definition emailLoginCodeDigits :: nat where "emailLoginCodeDigits = 8"
definition emailLoginTTL :: nat where "emailLoginTTL = 600"
definition emailLoginResendAfter :: nat where "emailLoginResendAfter = 30"
definition emailLoginMaxAttempts :: int where "emailLoginMaxAttempts = 5"
definition emailLoginRateLimitMax :: nat where "emailLoginRateLimitMax = 12"

definition CreateEmailLoginChallenge :: "(string \<Rightarrow> string) \<Rightarrow> database \<Rightarrow> nat \<Rightarrow> string \<Rightarrow> challenge_row \<Rightarrow> db_error + database" where
  "CreateEmailLoginChallenge lower db now newUUID given =
    (let c = given\<lparr>ec_id := (if ec_id given = [] then ''elc_'' @ newUUID else ec_id given), ec_email := normalizeEmail lower (ec_email given),
        ec_flow := (if ec_flow given = [] then ''web'' else ec_flow given), ec_attempts := 0,
        ec_max_attempts := (if ec_max_attempts given \<le> 0 then 5 else ec_max_attempts given), ec_created := now, ec_consumed := None\<rparr> in
     if list_ex (\<lambda>x. ec_id x = ec_id c) (email_login_challenges db) then Inl unique_violation
     else Inr (db\<lparr>email_login_challenges := email_login_challenges db @ [c]\<rparr>))"

definition GetEmailLoginChallenge :: "database \<Rightarrow> string \<Rightarrow> db_error + challenge_row" where
  "GetEmailLoginChallenge db i = (case find (\<lambda>c. ec_id c = i) (email_login_challenges db) of None \<Rightarrow> Inl NoRows | Some c \<Rightarrow> Inr c)"

definition IncrementEmailLoginChallengeAttempts :: "database \<Rightarrow> string \<Rightarrow> database" where
  "IncrementEmailLoginChallengeAttempts db i = db\<lparr>email_login_challenges :=
     map (\<lambda>c. if ec_id c = i then c\<lparr>ec_attempts := ec_attempts c + 1\<rparr> else c) (email_login_challenges db)\<rparr>"

definition ConsumeEmailLoginChallenge :: "database \<Rightarrow> nat \<Rightarrow> string \<Rightarrow> db_error + database" where
  "ConsumeEmailLoginChallenge db now i =
    (let hit = (\<lambda>c. ec_id c = i \<and> ec_consumed c = None) in
     if list_ex hit (email_login_challenges db)
     then Inr (db\<lparr>email_login_challenges := map (\<lambda>c. if hit c then c\<lparr>ec_consumed := Some now\<rparr> else c) (email_login_challenges db)\<rparr>)
     else Inl NoRows)"

definition CountRecentEmailLoginChallenges :: "(string \<Rightarrow> string) \<Rightarrow> database \<Rightarrow> string \<Rightarrow> string \<Rightarrow> int \<Rightarrow> nat" where
  "CountRecentEmailLoginChallenges lower db email ipHash since =
     length (filter (\<lambda>c. since \<le> int (ec_created c) \<and> (ec_email c = normalizeEmail lower email \<or> ipHash \<noteq> [] \<and> ec_ip_hash c = ipHash)) (email_login_challenges db))"

definition DeleteExpiredEmailLoginChallenges :: "database \<Rightarrow> nat \<Rightarrow> database" where
  "DeleteExpiredEmailLoginChallenges db now = db\<lparr>email_login_challenges :=
     filter (\<lambda>c. \<not> (ec_expires c + 86400 < now \<or> (case ec_consumed c of None \<Rightarrow> False | Some t \<Rightarrow> t + 86400 < now))) (email_login_challenges db)\<rparr>"

section \<open>Helpers of the handlers\<close>

record url_parts =
  u_scheme :: string
  u_host :: string
  u_hostname :: string
  u_port :: string
  u_query :: string
  u_fragment :: string

record login_env =
  le_enabled :: bool
  le_send :: "(string \<Rightarrow> string \<Rightarrow> bool) option"
  le_lower :: "string \<Rightarrow> string"
  le_parse_address :: "string \<Rightarrow> string option"
  le_parse_url :: "string \<Rightarrow> url_parts option"
  le_loopback_ip :: "string \<Rightarrow> bool"
  le_split_host :: "string \<Rightarrow> string option"
  le_mac :: "string \<Rightarrow> string"
  le_hash_key :: "string \<Rightarrow> string"
  le_jwt :: "login_result \<Rightarrow> string option"
  le_callback :: "string \<Rightarrow> string \<Rightarrow> string \<Rightarrow> string option"

definition normalizeLoginEmail :: "login_env \<Rightarrow> string \<Rightarrow> string option" where
  "normalizeLoginEmail env raw =
    (let email = normalizeEmail (le_lower env) raw in
     case le_parse_address env email of
       None \<Rightarrow> None
     | Some addr \<Rightarrow> if normalizeEmail (le_lower env) addr \<noteq> email \<or> CHR ''@'' \<notin> set email then None else Some email)"

definition normalizeEmailLoginFlow :: "string \<Rightarrow> string" where
  "normalizeEmailLoginFlow raw = (if to_lower (trim_space raw) = ''cli'' then ''cli'' else ''web'')"

definition normalizeLoginCode :: "string \<Rightarrow> string" where
  "normalizeLoginCode raw = filter (\<lambda>c. c \<in> set ''0123456789'') (trim_space raw)"

definition emailLoginCodeHash :: "login_env \<Rightarrow> string \<Rightarrow> string \<Rightarrow> string" where
  "emailLoginCodeHash env challengeID code = le_mac env (''email-login-code:'' @ challengeID @ '':'' @ code)"

definition requestFingerprint :: "login_env \<Rightarrow> string \<Rightarrow> string" where
  "requestFingerprint env raw = (let v = trim_space raw in if v = [] then [] else le_mac env (''email-login-fingerprint:'' @ v))"

definition requestIP :: "login_env \<Rightarrow> string \<Rightarrow> string \<Rightarrow> string" where
  "requestIP env forwardedFor remoteAddr =
    (let forwarded = trim_space forwardedFor in
     if forwarded \<noteq> [] then trim_space (hd (split_on CHR '','' forwarded))
     else case le_split_host env remoteAddr of Some host \<Rightarrow> host | None \<Rightarrow> remoteAddr)"

definition isLoopbackLoginRedirectURI :: "login_env \<Rightarrow> string \<Rightarrow> bool" where
  "isLoopbackLoginRedirectURI env raw = (case le_parse_url env (trim_space raw) of
      None \<Rightarrow> False
    | Some u \<Rightarrow> u_scheme u = ''http'' \<and> u_host u \<noteq> [] \<and> u_query u = [] \<and> u_fragment u = [] \<and> u_port u \<noteq> []
        \<and> (u_hostname u = ''localhost'' \<or> le_loopback_ip env (u_hostname u)))"

section \<open>The two handlers\<close>

record start_request =
  st_email :: string
  st_flow :: string
  st_redirect :: string
  st_forwarded :: string
  st_remote :: string
  st_agent :: string

text \<open>\<^verbatim>\<open>handleEmailLoginStart\<close>: \<open>code\<close> is the random code, None where drawing it failed; the answer is the challenge's identifier.\<close>

definition handleEmailLoginStart ::
  "login_env \<Rightarrow> database \<Rightarrow> nat \<Rightarrow> string \<Rightarrow> string option \<Rightarrow> start_request option \<Rightarrow> string response \<times> database" where
  "handleEmailLoginStart env db now rnd code body =
    (if \<not> le_enabled env then (Fail 404 ''email login is not enabled'', db)
     else case le_send env of
        None \<Rightarrow> (Fail 503 ''email login is not configured'', db)
      | Some send \<Rightarrow>
         (case body of
            None \<Rightarrow> (Fail 400 ''invalid JSON'', db)
          | Some req \<Rightarrow>
             (case normalizeLoginEmail env (st_email req) of
                None \<Rightarrow> (Fail 400 ''valid email required'', db)
              | Some email \<Rightarrow>
                 (let flow = normalizeEmailLoginFlow (st_flow req);
                      ip = requestFingerprint env (requestIP env (st_forwarded req) (st_remote req));
                      recent = (\<lambda>since. CountRecentEmailLoginChallenges (le_lower env) db email ip since) in
                  if flow = ''cli'' \<and> \<not> isLoopbackLoginRedirectURI env (st_redirect req) then (Fail 400 ''invalid CLI redirect URI'', db)
                  else if recent (int now - int emailLoginResendAfter) > 0 then (Fail 429 ''wait before requesting another login code'', db)
                  else if recent (int now - 3600) \<ge> emailLoginRateLimitMax then (Fail 429 ''too many login codes requested; try again later'', db)
                  else (case code of
                      None \<Rightarrow> (Fail 500 ''creating login code'', db)
                    | Some c \<Rightarrow>
                       (let challengeID = ''elc_'' @ rnd in
                        case CreateEmailLoginChallenge (le_lower env) db now rnd
                           \<lparr>ec_id = challengeID, ec_email = email, ec_code_hash = emailLoginCodeHash env challengeID c, ec_flow = flow,
                            ec_redirect = trim_space (st_redirect req), ec_attempts = 0, ec_max_attempts = emailLoginMaxAttempts, ec_ip_hash = ip,
                            ec_agent_hash = requestFingerprint env (st_agent req), ec_created = now, ec_expires = now + emailLoginTTL, ec_consumed = None\<rparr> of
                          Inl e \<Rightarrow> (Fail 500 ''creating login challenge'', db)
                        | Inr db' \<Rightarrow> if \<not> send email c then (Fail 500 ''sending login code'', db')
                            else (Reply 200 challengeID, DeleteExpiredEmailLoginChallenges db' now)))))))"

definition challenge_usable :: "nat \<Rightarrow> challenge_row \<Rightarrow> bool" where
  "challenge_usable now c \<longleftrightarrow> ec_consumed c = None \<and> \<not> ec_expires c < now \<and> ec_attempts c < ec_max_attempts c"

datatype verify_reply = VerifyFail nat | VerifyKey string login_result "string option" | VerifySession string

record verify_ids = vi_login :: login_ids vi_key :: string vi_raw_key :: string

text \<open>The part of \<^verbatim>\<open>handleEmailLoginVerify\<close> after the challenge has been consumed.\<close>

definition finish_login :: "login_env \<Rightarrow> database \<Rightarrow> nat \<Rightarrow> verify_ids \<Rightarrow> challenge_row \<Rightarrow> verify_reply \<times> database" where
  "finish_login env db now ids c =
    (case CompleteLogin (le_lower env) db now (vi_login ids) \<lparr>vi_provider = ''email_code'', vi_provider_id = [], vi_email = ec_email c,
        vi_name = [], vi_avatar = [], vi_verified = True\<rparr> of
       (Inl e, db1) \<Rightarrow> (VerifyFail 500, db1)
     | (Inr login, db1) \<Rightarrow>
        if ec_flow c = ''cli'' then
          (case CreateAPIKey (le_hash_key env) db1 now (vi_key ids) (vi_raw_key ids) (lr_org login) (lr_user login) ''CLI key from pufferfs init''
              [''sync'', ''query'', ''root:delete''] [] of
             Inl e \<Rightarrow> (VerifyFail 500, db1)
           | Inr (rawKey, db2) \<Rightarrow> (VerifyKey rawKey login (if ec_redirect c \<noteq> [] then le_callback env (ec_redirect c) rawKey (lr_email login) else None), db2))
        else (case le_jwt env login of None \<Rightarrow> (VerifyFail 500, db1) | Some token \<Rightarrow> (VerifySession token, db1)))"

definition handleEmailLoginVerify ::
  "login_env \<Rightarrow> database \<Rightarrow> nat \<Rightarrow> verify_ids \<Rightarrow> (string \<times> string) option \<Rightarrow> verify_reply \<times> database" where
  "handleEmailLoginVerify env db now ids body =
    (if \<not> le_enabled env then (VerifyFail 404, db)
     else case body of
        None \<Rightarrow> (VerifyFail 400, db)
      | Some (rawID, rawCode) \<Rightarrow>
         (let challengeID = trim_space rawID; code = normalizeLoginCode rawCode in
          if challengeID = [] \<or> code = [] then (VerifyFail 400, db)
          else (case GetEmailLoginChallenge db challengeID of
              Inl e \<Rightarrow> (VerifyFail 400, db)
            | Inr c \<Rightarrow>
               if \<not> challenge_usable now c then (VerifyFail 400, db)
               else if ec_code_hash c \<noteq> emailLoginCodeHash env (ec_id c) code
               then (VerifyFail 400, IncrementEmailLoginChallengeAttempts db (ec_id c))
               else (case ConsumeEmailLoginChallenge db now (ec_id c) of
                   Inl e \<Rightarrow> (VerifyFail 400, db)
                 | Inr db1 \<Rightarrow> finish_login env db1 now ids c))))"

section \<open>Guessing alone\<close>

lemma Increment_lookup:
  "find (\<lambda>x. ec_id x = i) (email_login_challenges (IncrementEmailLoginChallengeAttempts db i))
    = map_option (\<lambda>c. c\<lparr>ec_attempts := ec_attempts c + 1\<rparr>) (find (\<lambda>x. ec_id x = i) (email_login_challenges db))"
proof -
  have "find (\<lambda>x. ec_id x = i) (map (\<lambda>c. if ec_id c = i then c\<lparr>ec_attempts := ec_attempts c + 1\<rparr> else c) cs)
    = map_option (\<lambda>c. c\<lparr>ec_attempts := ec_attempts c + 1\<rparr>) (find (\<lambda>x. ec_id x = i) cs)" for cs
    by (induction cs) auto
  then show ?thesis by (simp add: IncrementEmailLoginChallengeAttempts_def)
qed

text \<open>The tables that hold accounts and credentials.\<close>

definition account_tables :: "database \<Rightarrow> user_row list \<times> member_row list \<times> api_key_row list \<times> org_row list \<times> invite_row list" where
  "account_tables db = (users db, org_members db, api_keys db, organizations db, org_invites db)"

definition wrong_code :: "login_env \<Rightarrow> challenge_row \<Rightarrow> string \<Rightarrow> bool" where
  "wrong_code env c raw \<longleftrightarrow> normalizeLoginCode raw \<noteq> [] \<and> emailLoginCodeHash env (ec_id c) (normalizeLoginCode raw) \<noteq> ec_code_hash c"

definition guess :: "login_env \<Rightarrow> verify_ids \<Rightarrow> string \<Rightarrow> nat \<times> string \<Rightarrow> database \<Rightarrow> database" where
  "guess env ids i attempt db = snd (handleEmailLoginVerify env db (fst attempt) ids (Some (i, snd attempt)))"

lemma guess_wrong:
  assumes c: "find (\<lambda>x. ec_id x = trim_space i) (email_login_challenges db) = Some c" and w: "wrong_code env c (snd attempt)" and e: "le_enabled env"
    and i: "trim_space i \<noteq> []"
  shows "account_tables (guess env ids i attempt db) = account_tables db"
    and "\<exists>n. find (\<lambda>x. ec_id x = trim_space i) (email_login_challenges (guess env ids i attempt db)) = Some (c\<lparr>ec_attempts := n\<rparr>)
      \<and> (if challenge_usable (fst attempt) c then n = ec_attempts c + 1 else n = ec_attempts c)"
proof -
  have id: "ec_id c = trim_space i" using find_member_mem[OF c] by simp
  have g: "guess env ids i attempt db = (if challenge_usable (fst attempt) c then IncrementEmailLoginChallengeAttempts db (trim_space i) else db)"
    using c w e i id by (auto simp: guess_def handleEmailLoginVerify_def GetEmailLoginChallenge_def wrong_code_def Let_def)
  show "account_tables (guess env ids i attempt db) = account_tables db"
    by (simp add: g account_tables_def IncrementEmailLoginChallengeAttempts_def)
  show "\<exists>n. find (\<lambda>x. ec_id x = trim_space i) (email_login_challenges (guess env ids i attempt db)) = Some (c\<lparr>ec_attempts := n\<rparr>)
      \<and> (if challenge_usable (fst attempt) c then n = ec_attempts c + 1 else n = ec_attempts c)"
    using c by (simp add: g Increment_lookup)
qed

lemma guesses_count:
  assumes "find (\<lambda>x. ec_id x = trim_space i) (email_login_challenges db) = Some c" "le_enabled env" "trim_space i \<noteq> []"
    and "\<forall>a\<in>set attempts. wrong_code env c (snd a) \<and> fst a \<le> now"
  shows "account_tables (fold (guess env ids i) attempts db) = account_tables db
    \<and> (\<exists>n. find (\<lambda>x. ec_id x = trim_space i) (email_login_challenges (fold (guess env ids i) attempts db)) = Some (c\<lparr>ec_attempts := n\<rparr>)
        \<and> (n = ec_attempts c + int (length attempts) \<or> \<not> challenge_usable now (c\<lparr>ec_attempts := n\<rparr>)))"
  using assms
proof (induction attempts arbitrary: db c)
  case Nil
  have "c = c\<lparr>ec_attempts := ec_attempts c\<rparr>" by simp
  with Nil show ?case by (auto intro!: exI[of _ "ec_attempts c"])
next
  case (Cons a as)
  have w: "wrong_code env c (snd a)" "fst a \<le> now" using Cons.prems(4) by auto
  note G = guess_wrong[OF Cons.prems(1) w(1) Cons.prems(2,3), of ids]
  obtain n where n: "find (\<lambda>x. ec_id x = trim_space i) (email_login_challenges (guess env ids i a db)) = Some (c\<lparr>ec_attempts := n\<rparr>)"
    "if challenge_usable (fst a) c then n = ec_attempts c + 1 else n = ec_attempts c" using G(2) by blast
  have "\<forall>a\<in>set as. wrong_code env (c\<lparr>ec_attempts := n\<rparr>) (snd a) \<and> fst a \<le> now" using Cons.prems(4) by (simp add: wrong_code_def)
  from Cons.IH[OF n(1) Cons.prems(2,3) this] obtain n' where acc: "account_tables (fold (guess env ids i) as (guess env ids i a db)) = account_tables (guess env ids i a db)"
    and n': "find (\<lambda>x. ec_id x = trim_space i) (email_login_challenges (fold (guess env ids i) as (guess env ids i a db))) = Some (c\<lparr>ec_attempts := n'\<rparr>)"
      "n' = n + int (length as) \<or> \<not> challenge_usable now (c\<lparr>ec_attempts := n'\<rparr>)" by auto
  have "n' = ec_attempts c + int (length (a # as)) \<or> \<not> challenge_usable now (c\<lparr>ec_attempts := n'\<rparr>)"
    using n(2) n'(2) w(2) by (auto simp: challenge_usable_def split: if_splits)
  with acc n'(1) G(1) show ?case by auto
qed

text \<open>
  C38: a challenge withstands guessing.  Once as many wrong codes have been tried one after the other as the
  challenge allows (five), every later verification of it is refused with status 400, also with the
  right code and for ever; neither the guesses nor the refused attempt change any
  account, membership, invitation or key.
\<close>

theorem wrong_codes_lock_challenge:
  assumes "find (\<lambda>x. ec_id x = trim_space i) (email_login_challenges db) = Some c" "le_enabled env" "trim_space i \<noteq> []"
    and "\<forall>a\<in>set attempts. wrong_code env c (snd a) \<and> fst a \<le> now" and "ec_max_attempts c \<le> ec_attempts c + int (length attempts)"
  shows "handleEmailLoginVerify env (fold (guess env ids i) attempts db) now ids' (Some (i, code)) = (VerifyFail 400, fold (guess env ids i) attempts db)
    \<and> account_tables (fold (guess env ids i) attempts db) = account_tables db"
proof -
  let ?db = "fold (guess env ids i) attempts db"
  obtain n where n: "find (\<lambda>x. ec_id x = trim_space i) (email_login_challenges ?db) = Some (c\<lparr>ec_attempts := n\<rparr>)"
    "n = ec_attempts c + int (length attempts) \<or> \<not> challenge_usable now (c\<lparr>ec_attempts := n\<rparr>)" and acc: "account_tables ?db = account_tables db"
    using guesses_count[OF assms(1-4), of ids] by blast
  have "\<not> challenge_usable now (c\<lparr>ec_attempts := n\<rparr>)" using n(2) assms(5) by (auto simp: challenge_usable_def)
  then show ?thesis using n(1) acc assms(2) by (auto simp: handleEmailLoginVerify_def GetEmailLoginChallenge_def Let_def)
qed

section \<open>Requests interleaved\<close>

text \<open>
  A request that has read a usable challenge is in flight with the row it read and the code it carries;
  its comparison and the statement that follows happen later.  The log records the
  consumed challenges with the row and the code that redeemed them, in order.
\<close>

record login_state =
  ls_db :: database
  ls_issued :: "string set"
  ls_flights :: "(challenge_row \<times> string) list"
  ls_redeemed :: "(challenge_row \<times> string) list"

inductive login_step :: "login_env \<Rightarrow> login_state \<Rightarrow> login_state \<Rightarrow> bool" for env where
  start: "''elc_'' @ rnd \<notin> ls_issued s \<Longrightarrow>
    login_step env s (s\<lparr>ls_db := snd (handleEmailLoginStart env (ls_db s) now rnd code body), ls_issued := insert (''elc_'' @ rnd) (ls_issued s)\<rparr>)"
| arrive: "GetEmailLoginChallenge (ls_db s) i = Inr c \<Longrightarrow> challenge_usable now c \<Longrightarrow> login_step env s (s\<lparr>ls_flights := (c, code) # ls_flights s\<rparr>)"
| reject: "ls_flights s = before @ (c, code) # after \<Longrightarrow> ec_code_hash c \<noteq> emailLoginCodeHash env (ec_id c) code \<Longrightarrow>
    login_step env s (s\<lparr>ls_db := IncrementEmailLoginChallengeAttempts (ls_db s) (ec_id c), ls_flights := before @ after\<rparr>)"
| redeem: "ls_flights s = before @ (c, code) # after \<Longrightarrow> ec_code_hash c = emailLoginCodeHash env (ec_id c) code \<Longrightarrow>
    ConsumeEmailLoginChallenge (ls_db s) now (ec_id c) = Inr db' \<Longrightarrow>
    login_step env s (s\<lparr>ls_db := db', ls_flights := before @ after, ls_redeemed := ls_redeemed s @ [(c, code)]\<rparr>)"
| too_late: "ls_flights s = before @ (c, code) # after \<Longrightarrow> ConsumeEmailLoginChallenge (ls_db s) now (ec_id c) = Inl e \<Longrightarrow>
    login_step env s (s\<lparr>ls_flights := before @ after\<rparr>)"
| finish: "(c, code) \<in> set (ls_redeemed s) \<Longrightarrow> login_step env s (s\<lparr>ls_db := snd (finish_login env (ls_db s) now ids c)\<rparr>)"
| elsewhere: "email_login_challenges db' = email_login_challenges (ls_db s) \<Longrightarrow> login_step env s (s\<lparr>ls_db := db'\<rparr>)"

definition initial_login :: "database \<Rightarrow> login_state" where
  "initial_login db = \<lparr>ls_db = db, ls_issued = {}, ls_flights = [], ls_redeemed = []\<rparr>"

inductive_cases login_stepE: "login_step env s s'"

text \<open>Identifiers are unique and were issued; a redeemed challenge that is still stored is marked.\<close>

definition login_inv :: "login_env \<Rightarrow> login_state \<Rightarrow> bool" where
  "login_inv env s \<longleftrightarrow> distinct (map ec_id (email_login_challenges (ls_db s)))
     \<and> ec_id ` set (email_login_challenges (ls_db s)) \<subseteq> ls_issued s
     \<and> (\<forall>(c, code)\<in>set (ls_flights s) \<union> set (ls_redeemed s). ec_id c \<in> ls_issued s)
     \<and> (\<forall>(c, code)\<in>set (ls_redeemed s). ec_code_hash c = emailLoginCodeHash env (ec_id c) code
          \<and> (\<forall>x\<in>set (email_login_challenges (ls_db s)). ec_id x = ec_id c \<longrightarrow> ec_consumed x \<noteq> None))
     \<and> distinct (map (ec_id \<circ> fst) (ls_redeemed s))"

lemma start_challenges:
  "\<exists>c P. ec_id c = ''elc_'' @ rnd \<and>
    (email_login_challenges (snd (handleEmailLoginStart env db now rnd code body)) = email_login_challenges db
     \<or> email_login_challenges (snd (handleEmailLoginStart env db now rnd code body)) = filter P (email_login_challenges db @ [c]))"
proof -
  let ?db' = "snd (handleEmailLoginStart env db now rnd code body)"
  define made where "made db1 \<longleftrightarrow> (\<exists>c. ec_id c = ''elc_'' @ rnd \<and> email_login_challenges db1 = email_login_challenges db @ [c])" for db1 :: database
  have madeI: "made db1" if "CreateEmailLoginChallenge lower db now rnd given = Inr db1" "ec_id given = ''elc_'' @ rnd" for lower given db1
    unfolding made_def using that by (auto simp: CreateEmailLoginChallenge_def Let_def split: if_splits)
  have "?db' = db \<or> made ?db' \<or> (\<exists>db1. made db1 \<and> ?db' = DeleteExpiredEmailLoginChallenges db1 now)"
    unfolding handleEmailLoginStart_def Let_def by (auto split: option.splits sum.splits dest!: madeI)
  then have "?db' = db \<or> (\<exists>c db1. ec_id c = ''elc_'' @ rnd \<and> email_login_challenges db1 = email_login_challenges db @ [c]
      \<and> (?db' = db1 \<or> ?db' = DeleteExpiredEmailLoginChallenges db1 now))" unfolding made_def by blast
  then show ?thesis
  proof (elim disjE exE conjE)
    fix c db1 assume "ec_id c = ''elc_'' @ rnd" "email_login_challenges db1 = email_login_challenges db @ [c]" "?db' = db1"
    then show ?thesis by (intro exI[of _ c] exI[of _ "\<lambda>_. True"]) simp
  next
    fix c db1 assume c: "ec_id c = ''elc_'' @ rnd" "email_login_challenges db1 = email_login_challenges db @ [c]"
      "?db' = DeleteExpiredEmailLoginChallenges db1 now"
    let ?P = "\<lambda>c. \<not> (ec_expires c + 86400 < now \<or> (case ec_consumed c of None \<Rightarrow> False | Some t \<Rightarrow> t + 86400 < now))"
    from c show ?thesis by (intro exI[of _ c] exI[of _ ?P]) (simp add: DeleteExpiredEmailLoginChallenges_def)
  qed (rule exI[of _ "undefined\<lparr>ec_id := ''elc_'' @ rnd\<rparr>"], simp)
qed

lemma CompleteLogin_challenges: "email_login_challenges (snd (CompleteLogin lower db now ids raw)) = email_login_challenges db"
proof -
  have user: "email_login_challenges db' = email_login_challenges db" if "findOrCreateLoginUser db n i = Inr (u, db')" for db' n i u
    using that by (auto simp: findOrCreateLoginUser_def insert_user_def try_then_Inr_iff split: option.splits if_splits)
  have identity: "email_login_challenges (upsertUserIdentity db n u i) = email_login_challenges db" for db n u i
    by (simp add: upsertUserIdentity_def Let_def split: option.splits)
  have member: "email_login_challenges db' = email_login_challenges db" if "changeOrgMember db t g None u r md = Inr (m, db')" for db db' t g u r md m
    using that by (auto simp: changeOrgMember_def set_member_role_def Let_def split: option.splits if_splits)
  have invite: "email_login_challenges db' = email_login_challenges db" if "acceptPendingOrgInvite lower db t u e = Inr (x, db')" for db db' t u e x
    using that by (auto simp: acceptPendingOrgInvite_def try_then_Inr_iff split: option.splits dest: member)
  have org: "email_login_challenges (snd (login_org lower db ids u i)) = email_login_challenges db" for db u i
    by (auto simp: login_org_def CreateOrganization_def insert_org_def try_then_def Let_def split: option.splits sum.splits)
  show ?thesis
    by (auto simp: CompleteLogin_def Let_def identity org split: sum.splits option.splits dest!: user invite)
qed

lemma finish_login_challenges: "email_login_challenges (snd (finish_login env db now ids c)) = email_login_challenges db"
proof -
  have key: "email_login_challenges db' = email_login_challenges db" if "CreateAPIKey h db t n r g u nm ss a = Inr (k, db')" for db db' t n r g u nm ss a k h
    using that by (auto simp: CreateAPIKey_def Let_def split: if_splits)
  let ?run = "CompleteLogin (le_lower env) db now (vi_login ids) \<lparr>vi_provider = ''email_code'', vi_provider_id = [], vi_email = ec_email c,
        vi_name = [], vi_avatar = [], vi_verified = True\<rparr>"
  have "email_login_challenges (snd ?run) = email_login_challenges db" by (rule CompleteLogin_challenges)
  then show ?thesis
    unfolding finish_login_def by (cases ?run) (auto split: sum.splits option.splits dest!: key)
qed

text \<open>A step that replaces the rows of the table by rows with the same identifiers, none of them unmarked.\<close>

lemma login_inv_rows:
  assumes inv: "login_inv env s" and ids: "distinct (map ec_id (email_login_challenges db'))" "ec_id ` set (email_login_challenges db') \<subseteq> issued"
    and more: "ls_issued s \<subseteq> issued" and flights: "set flights \<subseteq> set (ls_flights s)"
    and marks: "\<And>x. x \<in> set (email_login_challenges db') \<Longrightarrow> ec_id x \<in> ls_issued s
       \<Longrightarrow> \<exists>y\<in>set (email_login_challenges (ls_db s)). ec_id y = ec_id x \<and> (ec_consumed y \<noteq> None \<longrightarrow> ec_consumed x \<noteq> None)"
  shows "login_inv env (s\<lparr>ls_db := db', ls_issued := issued, ls_flights := flights\<rparr>)"
proof -
  note I = inv[unfolded login_inv_def]
  have mark: "ec_consumed x \<noteq> None" if r: "(c, code) \<in> set (ls_redeemed s)" and x: "x \<in> set (email_login_challenges db')" "ec_id x = ec_id c" for c code x
  proof -
    have "ec_id c \<in> ls_issued s" using I r by blast
    then obtain y where "y \<in> set (email_login_challenges (ls_db s))" "ec_id y = ec_id c" "ec_consumed y \<noteq> None \<longrightarrow> ec_consumed x \<noteq> None"
      using marks[OF x(1)] x(2) by auto
    then show ?thesis using I r by blast
  qed
  have "ec_id c \<in> issued" if "(c, code) \<in> set flights \<union> set (ls_redeemed s)" for c code using that I flights more by blast
  then show ?thesis unfolding login_inv_def using I ids mark by auto
qed

lemma login_step_inv:
  assumes step: "login_step env s s'" and inv: "login_inv env s"
  shows "login_inv env s'"
  using step
proof cases
  case (start rnd now code body)
  let ?db = "snd (handleEmailLoginStart env (ls_db s) now rnd code body)"
  note I = inv[unfolded login_inv_def]
  obtain c P where c: "ec_id c = ''elc_'' @ rnd" and rows: "email_login_challenges ?db = email_login_challenges (ls_db s)
      \<or> email_login_challenges ?db = filter P (email_login_challenges (ls_db s) @ [c])" using start_challenges by blast
  have fresh: "''elc_'' @ rnd \<notin> ec_id ` set (email_login_challenges (ls_db s))" using I start(2) by blast
  have "distinct (map ec_id (filter P (email_login_challenges (ls_db s) @ [c])))"
    using I c fresh by (intro distinct_map_filter) auto
  then have d: "distinct (map ec_id (email_login_challenges ?db))" using rows I by metis
  have sub: "set (email_login_challenges ?db) \<subseteq> insert c (set (email_login_challenges (ls_db s)))" using rows by (auto split: if_splits)
  have "login_inv env (s\<lparr>ls_db := ?db, ls_issued := insert (''elc_'' @ rnd) (ls_issued s), ls_flights := ls_flights s\<rparr>)"
  proof (rule login_inv_rows[OF inv d])
    show "ec_id ` set (email_login_challenges ?db) \<subseteq> insert (''elc_'' @ rnd) (ls_issued s)" using sub I c by auto
    show "\<exists>y\<in>set (email_login_challenges (ls_db s)). ec_id y = ec_id x \<and> (ec_consumed y \<noteq> None \<longrightarrow> ec_consumed x \<noteq> None)"
      if "x \<in> set (email_login_challenges ?db)" "ec_id x \<in> ls_issued s" for x using that sub c start(2) by (intro bexI[of _ x]) auto
  qed auto
  then show ?thesis using start(1) by simp
next
  case (arrive i c now code)
  have "c \<in> set (email_login_challenges (ls_db s))" using arrive(2) find_member_mem
    by (fastforce simp: GetEmailLoginChallenge_def split: option.splits)
  then have "ec_id c \<in> ls_issued s" using inv by (auto simp: login_inv_def)
  then show ?thesis using inv unfolding arrive(1) by (auto simp: login_inv_def)
next
  case (reject before c code after)
  have "login_inv env (s\<lparr>ls_db := IncrementEmailLoginChallengeAttempts (ls_db s) (ec_id c), ls_issued := ls_issued s, ls_flights := before @ after\<rparr>)"
  proof (rule login_inv_rows[OF inv])
    have ids: "map ec_id (email_login_challenges (IncrementEmailLoginChallengeAttempts (ls_db s) (ec_id c))) = map ec_id (email_login_challenges (ls_db s))"
      by (simp add: IncrementEmailLoginChallengeAttempts_def)
    show "distinct (map ec_id (email_login_challenges (IncrementEmailLoginChallengeAttempts (ls_db s) (ec_id c))))"
      "ec_id ` set (email_login_challenges (IncrementEmailLoginChallengeAttempts (ls_db s) (ec_id c))) \<subseteq> ls_issued s"
      using inv unfolding ids list.set_map[symmetric] by (auto simp: login_inv_def)
  qed (use reject(2) in \<open>auto simp: IncrementEmailLoginChallengeAttempts_def split: if_splits\<close>)
  then show ?thesis using reject(1) by simp
next
  case (redeem before c code after now db')
  note I = inv[unfolded login_inv_def]
  let ?hit = "\<lambda>x. ec_id x = ec_id c \<and> ec_consumed x = None"
  have hit: "list_ex ?hit (email_login_challenges (ls_db s))"
    and db': "email_login_challenges db' = map (\<lambda>x. if ?hit x then x\<lparr>ec_consumed := Some now\<rparr> else x) (email_login_challenges (ls_db s))"
    using redeem(4) by (auto simp: ConsumeEmailLoginChallenge_def Let_def split: if_splits)
  have ids: "map ec_id (email_login_challenges db') = map ec_id (email_login_challenges (ls_db s))" by (simp add: db')
  have new: "ec_id c \<notin> (ec_id \<circ> fst) ` set (ls_redeemed s)" using I hit by (fastforce simp: list_ex_iff)
  have marked: "ec_consumed x \<noteq> None" if "x \<in> set (email_login_challenges db')" "ec_id x = ec_id c" for x using that by (auto simp: db')
  have flight: "(c, code) \<in> set (ls_flights s)" using redeem(2) by simp
  have base: "login_inv env (s\<lparr>ls_db := db', ls_issued := ls_issued s, ls_flights := before @ after\<rparr>)"
  proof (rule login_inv_rows[OF inv])
    show "distinct (map ec_id (email_login_challenges db'))" "ec_id ` set (email_login_challenges db') \<subseteq> ls_issued s"
      using I unfolding ids list.set_map[symmetric] by auto
  qed (use redeem(2) in \<open>auto simp: db' split: if_splits\<close>)
  have "ec_id c \<in> ls_issued s" using I flight by blast
  then show ?thesis unfolding redeem(1) using base new marked redeem(3) by (auto simp: login_inv_def)
next
  case (too_late before c code after now e)
  then show ?thesis using inv by (auto simp: login_inv_def)
next
  case (finish c code now ids)
  then show ?thesis using inv by (simp add: login_inv_def finish_login_challenges)
next
  case (elsewhere db')
  then show ?thesis using inv by (simp add: login_inv_def)
qed

text \<open>
  C18: a login code is good for one login.  Over any interleaving of code requests, verification requests
  (which read the challenge, compare and then consume or count in separate statements), the
  deletion of old challenges and everything else the service does, every challenge is redeemed at
  most once, and only by a request that carried a code with the stored hash.
\<close>

theorem email_login_single_use:
  assumes "(login_step env)\<^sup>*\<^sup>* (initial_login db) s" "email_login_challenges db = []"
  shows "distinct (map (ec_id \<circ> fst) (ls_redeemed s))
    \<and> (\<forall>(c, code)\<in>set (ls_redeemed s). ec_code_hash c = emailLoginCodeHash env (ec_id c) code)"
proof -
  have "login_inv env (initial_login db)" using assms(2) by (simp add: login_inv_def initial_login_def)
  with assms(1) have "login_inv env s" by (induction rule: rtranclp_induct) (auto intro: login_step_inv)
  then show ?thesis by (auto simp: login_inv_def)
qed

section \<open>Guessing in parallel\<close>

lemma arrive_all:
  assumes "GetEmailLoginChallenge (ls_db s) i = Inr c" "challenge_usable now c"
  shows "(login_step env)\<^sup>*\<^sup>* s (s\<lparr>ls_flights := map (Pair c) codes @ ls_flights s\<rparr>)"
proof (induction codes)
  case (Cons code codes)
  let ?s = "s\<lparr>ls_flights := map (Pair c) codes @ ls_flights s\<rparr>"
  have "login_step env ?s (?s\<lparr>ls_flights := (c, code) # ls_flights ?s\<rparr>)" using assms by (intro login_step.arrive[of ?s i c now]) simp_all
  with Cons show ?case by (simp add: rtranclp.rtrancl_into_rtrancl)
qed simp

lemma reject_all:
  assumes "ls_flights s = map (Pair c) wrongs @ rest" "\<forall>w\<in>set wrongs. ec_code_hash c \<noteq> emailLoginCodeHash env (ec_id c) w"
  shows "(login_step env)\<^sup>*\<^sup>* s (s\<lparr>ls_db := ((\<lambda>db. IncrementEmailLoginChallengeAttempts db (ec_id c)) ^^ length wrongs) (ls_db s), ls_flights := rest\<rparr>)"
  using assms
proof (induction wrongs arbitrary: s)
  case (Cons w wrongs)
  let ?s = "s\<lparr>ls_db := IncrementEmailLoginChallengeAttempts (ls_db s) (ec_id c), ls_flights := map (Pair c) wrongs @ rest\<rparr>"
  have one: "login_step env s ?s" using Cons.prems login_step.reject[of s "[]" c w "map (Pair c) wrongs @ rest" env] by simp
  have "(login_step env)\<^sup>*\<^sup>* ?s (?s\<lparr>ls_db := ((\<lambda>db. IncrementEmailLoginChallengeAttempts db (ec_id c)) ^^ length wrongs) (ls_db ?s), ls_flights := rest\<rparr>)"
    by (rule Cons.IH) (use Cons.prems in auto)
  with one show ?case by (simp add: funpow_Suc_right del: funpow.simps)
next
  case Nil
  then have "s\<lparr>ls_db := ls_db s, ls_flights := rest\<rparr> = s" by simp
  then show ?case by simp
qed

lemma increments_lookup:
  "find (\<lambda>x. ec_id x = i) (email_login_challenges (((\<lambda>db. IncrementEmailLoginChallengeAttempts db i) ^^ n) db))
    = map_option (\<lambda>c. c\<lparr>ec_attempts := ec_attempts c + int n\<rparr>) (find (\<lambda>x. ec_id x = i) (email_login_challenges db))"
  by (induction n) (auto simp: Increment_lookup option.map_comp option.map_ident comp_def algebra_simps intro: option.map_cong)

text \<open>
  The bound on wrong codes holds only for requests that do not overlap: any number of requests can read
  the challenge before the first of them is counted, and the right code among them is still
  accepted when the count has passed the limit.
\<close>

lemma concurrent_guesses_uncounted:
  assumes get: "GetEmailLoginChallenge (ls_db s) i = Inr c" and now: "challenge_usable now c"
    and right: "ec_code_hash c = emailLoginCodeHash env (ec_id c) code"
    and wrong: "\<forall>w\<in>set wrongs. ec_code_hash c \<noteq> emailLoginCodeHash env (ec_id c) w" and none: "ls_flights s = []"
  shows "\<exists>s'. (login_step env)\<^sup>*\<^sup>* s s' \<and> ls_redeemed s' = ls_redeemed s @ [(c, code)]
    \<and> (\<exists>x\<in>set (email_login_challenges (ls_db s')). ec_id x = ec_id c \<and> ec_attempts x = ec_attempts c + int (length wrongs))"
proof -
  let ?inc = "\<lambda>db. IncrementEmailLoginChallengeAttempts db (ec_id c)"
  let ?db = "(?inc ^^ length wrongs) (ls_db s)"
  let ?c = "c\<lparr>ec_attempts := ec_attempts c + int (length wrongs)\<rparr>"
  let ?s1 = "s\<lparr>ls_flights := map (Pair c) (wrongs @ [code])\<rparr>"
  let ?s2 = "?s1\<lparr>ls_db := ?db, ls_flights := [(c, code)]\<rparr>"
  have find: "find (\<lambda>x. ec_id x = ec_id c) (email_login_challenges (ls_db s)) = Some c"
    using get find_member_mem by (fastforce simp: GetEmailLoginChallenge_def split: option.splits)
  then have row: "?c \<in> set (email_login_challenges ?db)" using increments_lookup[of "ec_id c" "length wrongs" "ls_db s"]
    by (auto dest: find_member_mem)
  let ?hit = "\<lambda>x. ec_id x = ec_id c \<and> ec_consumed x = None"
  define db' where "db' = ?db\<lparr>email_login_challenges := map (\<lambda>x. if ?hit x then x\<lparr>ec_consumed := Some now\<rparr> else x) (email_login_challenges ?db)\<rparr>"
  have "?hit ?c" using now by (simp add: challenge_usable_def)
  then have consume: "ConsumeEmailLoginChallenge ?db now (ec_id c) = Inr db'" using row bexI[of ?hit ?c]
    by (simp add: ConsumeEmailLoginChallenge_def list_ex_iff db'_def Let_def)
  define t3 where "t3 = ?s2\<lparr>ls_db := db', ls_flights := [], ls_redeemed := ls_redeemed ?s2 @ [(c, code)]\<rparr>"
  have s1: "(login_step env)\<^sup>*\<^sup>* s ?s1" using arrive_all[OF get now, of env "wrongs @ [code]"] none by simp
  have s2: "(login_step env)\<^sup>*\<^sup>* ?s1 ?s2" using reject_all[of ?s1 c wrongs "[(c, code)]" env] wrong by simp
  have s3: "login_step env ?s2 t3" using login_step.redeem[of ?s2 "[]" c code "[]" env now db'] consume right by (simp add: t3_def)
  have all: "(login_step env)\<^sup>*\<^sup>* s t3" using s1 s2 s3 by (meson rtranclp.rtrancl_into_rtrancl rtranclp_trans)
  have "?c\<lparr>ec_consumed := Some now\<rparr> \<in> set (email_login_challenges db')"
    using row \<open>?hit ?c\<close> by (auto simp: db'_def intro!: image_eqI[of _ _ ?c])
  then have "\<exists>x\<in>set (email_login_challenges db'). ec_id x = ec_id c \<and> ec_attempts x = ec_attempts c + int (length wrongs)"
    by (rule bexI[rotated]) simp
  moreover have "ls_redeemed t3 = ls_redeemed s @ [(c, code)]" "ls_db t3 = db'" by (simp_all add: t3_def)
  ultimately show ?thesis using all by metis
qed

section \<open>A concrete login\<close>

definition sample_login_env :: login_env where
  "sample_login_env = \<lparr>le_enabled = True, le_send = Some (\<lambda>_ _. True), le_lower = to_lower, le_parse_address = Some, le_parse_url = (\<lambda>_. None),
     le_loopback_ip = (\<lambda>_. False), le_split_host = (\<lambda>_. None), le_mac = (\<lambda>s. s), le_hash_key = (\<lambda>s. s), le_jwt = (\<lambda>r. Some (lr_user r)),
     le_callback = (\<lambda>_ _ _. None)\<rparr>"

definition sample_start :: start_request where
  "sample_start = \<lparr>st_email = ''a@x.io'', st_flow = [], st_redirect = [], st_forwarded = [], st_remote = ''h'', st_agent = []\<rparr>"

abbreviation sample_challenge_db :: database where
  "sample_challenge_db \<equiv> snd (handleEmailLoginStart sample_login_env empty_database 100 ''r'' (Some ''12'') (Some sample_start))"

definition sample_challenge :: challenge_row where
  "sample_challenge = \<lparr>ec_id = ''elc_r'', ec_email = ''a@x.io'', ec_code_hash = ''email-login-code:elc_r:12'', ec_flow = ''web'', ec_redirect = [],
     ec_attempts = 0, ec_max_attempts = 5, ec_ip_hash = ''email-login-fingerprint:h'', ec_agent_hash = [], ec_created = 100, ec_expires = 700, ec_consumed = None\<rparr>"

lemma sample_challenge_stored: "email_login_challenges sample_challenge_db = [sample_challenge]"
proof -
  have "normalizeLoginEmail sample_login_env ''a@x.io'' = Some ''a@x.io''" "normalizeEmailLoginFlow [] = ''web''"
    "requestFingerprint sample_login_env (requestIP sample_login_env [] ''h'') = ''email-login-fingerprint:h''"
    "requestFingerprint sample_login_env [] = []" "trim_space [] = []" "normalizeEmail to_lower ''a@x.io'' = ''a@x.io''" by code_simp+
  then show ?thesis
    by (simp add: handleEmailLoginStart_def sample_start_def Let_def CreateEmailLoginChallenge_def CountRecentEmailLoginChallenges_def
        DeleteExpiredEmailLoginChallenges_def emailLoginCodeHash_def sample_challenge_def emailLoginTTL_def emailLoginMaxAttempts_def emailLoginRateLimitMax_def
        sample_login_env_def[THEN arg_cong[where f = le_enabled]] sample_login_env_def[THEN arg_cong[where f = le_send]]
        sample_login_env_def[THEN arg_cong[where f = le_lower]] sample_login_env_def[THEN arg_cong[where f = le_mac]] empty_database_def)
qed

theorem email_login_single_use_witness:
  "\<exists>s. (login_step sample_login_env)\<^sup>*\<^sup>* (initial_login empty_database) s \<and> ls_redeemed s = [(sample_challenge, ''12'')]
    \<and> distinct (map (ec_id \<circ> fst) (ls_redeemed s))"
proof -
  let ?s = "(initial_login empty_database)\<lparr>ls_db := sample_challenge_db, ls_issued := {''elc_r''}\<rparr>"
  have "login_step sample_login_env (initial_login empty_database) ?s"
    using login_step.start[of "''r''" "initial_login empty_database" sample_login_env 100 "Some ''12''" "Some sample_start"]
    by (simp add: initial_login_def)
  moreover have get: "GetEmailLoginChallenge (ls_db ?s) ''elc_r'' = Inr sample_challenge"
    by (simp add: GetEmailLoginChallenge_def sample_challenge_stored) (simp add: sample_challenge_def)
  moreover have "challenge_usable 100 sample_challenge" by (simp add: challenge_usable_def sample_challenge_def)
  moreover have "ec_code_hash sample_challenge = emailLoginCodeHash sample_login_env (ec_id sample_challenge) ''12''"
    by (simp add: sample_challenge_def emailLoginCodeHash_def sample_login_env_def)
  moreover have "ls_flights ?s = []" "ls_redeemed ?s = []" by (simp_all add: initial_login_def)
  ultimately obtain s where s: "(login_step sample_login_env)\<^sup>*\<^sup>* (initial_login empty_database) s" "ls_redeemed s = [(sample_challenge, ''12'')]"
    using concurrent_guesses_uncounted[of ?s "''elc_r''" sample_challenge 100 sample_login_env "''12''" "[]"]
    by (auto intro: converse_rtranclp_into_rtranclp)
  have "email_login_challenges empty_database = []" by (simp add: empty_database_def)
  from email_login_single_use[OF s(1) this] s show ?thesis by blast
qed

definition sample_verify_ids :: verify_ids where
  "sample_verify_ids = \<lparr>vi_login = sample_ids, vi_key = ''k1'', vi_raw_key = ''raw''\<rparr>"

theorem wrong_codes_lock_challenge_witness:
  "fst (handleEmailLoginVerify sample_login_env
     (fold (guess sample_login_env sample_verify_ids ''elc_r'') (replicate 5 (120, ''13'')) sample_challenge_db) 130 sample_verify_ids (Some (''elc_r'', ''12'')))
   = VerifyFail 400"
proof -
  have t: "trim_space ''elc_r'' = ''elc_r''" and n: "normalizeLoginCode ''13'' = ''13''" by code_simp+
  have f: "find (\<lambda>x. ec_id x = trim_space ''elc_r'') (email_login_challenges sample_challenge_db) = Some sample_challenge"
    by (simp add: sample_challenge_stored t) (simp add: sample_challenge_def)
  have w: "\<forall>a\<in>set (replicate 5 (120 :: nat, ''13'')). wrong_code sample_login_env sample_challenge (snd a) \<and> fst a \<le> 130"
    by (simp add: wrong_code_def n sample_challenge_def emailLoginCodeHash_def sample_login_env_def)
  have e: "le_enabled sample_login_env" "trim_space ''elc_r'' \<noteq> []" by (simp_all add: sample_login_env_def t)
  have m: "ec_max_attempts sample_challenge \<le> ec_attempts sample_challenge + int (length (replicate 5 (120 :: nat, ''13'')))"
    by (simp add: sample_challenge_def)
  show ?thesis using wrong_codes_lock_challenge[OF f e w m, of sample_verify_ids sample_verify_ids "''12''"] by (simp only: fst_conv)
qed

end
