(* ===== verification/Capture_Spool.thy ===== *)
theory Capture_Spool
  imports Capture_Registration
begin

text \<open>
  The local side of a capture: \<^verbatim>\<open>cmd/pufferfs/capture_spool.go\<close> and the journal of
  \<^verbatim>\<open>capture_journal.go\<close>.  A capture copies the bytes of the selected files into pack files of a
  spool directory and publishes the journal last.  What the operating system answers is the
  record \<open>spool_env\<close>: a source file is what reading its descriptor gives (bytes, then an error or
  the end of the file), once from the start and once more after a rewind, since the file may be
  written meanwhile.  \<open>sha\<close> is the hexadecimal SHA-256.  The copying loop is a partial function: that
  it returns is a theorem.
\<close>

section \<open>Local paths\<close>

text \<open>\<^verbatim>\<open>filepath.Base\<close> on Unix.\<close>

definition base_name :: "string \<Rightarrow> string" where
  "base_name p =
    (if p = [] then ''.''
     else let q = rev (dropWhile (\<lambda>c. c = CHR ''/'') (rev p)) in
       if q = [] then ''/'' else last (split_on (CHR ''/'') q))"

section \<open>The journal\<close>

record journal_multipart =
  jm_request :: string
  jm_upload :: string
  jm_part_size :: int
  jm_parts :: "(int \<times> string) list"

record journal_pack =
  jp_name :: string
  jp_size :: int
  jp_digest :: string
  jp_key :: string
  jp_complete :: bool
  jp_multipart :: "journal_multipart option"

record file_state = fs_size :: int fs_hash :: string fs_mtime :: int

record capture_request = cq_capture :: string cq_files :: "capture_file list"

record capture_accepted = ca_capture :: string ca_versions :: "registered_version list"

record capture_journal =
  cj_format :: int
  cj_server :: string
  cj_root :: string
  cj_request :: capture_request
  cj_packs :: "journal_pack list"
  cj_state :: "string \<rightharpoonup> file_state"
  cj_dirty :: "string list"
  cj_accepted :: "capture_accepted option"

record local_head =
  lh_server :: string
  lh_root :: string
  lh_path :: string
  lh_version :: registered_version
  lh_source :: "source_manifest option"
  lh_deleted :: bool
  lh_state :: file_state
  lh_dirty :: bool

definition maxPackBytes :: int where "maxPackBytes = 134217728"

section \<open>Creating a spool\<close>

datatype spool_error = SpoolInputs | SpoolPaths | SpoolFull | NotRegular | SpoolManifest manifest_error | SpoolIO io_error

datatype save_outcome = Saved | NotSaved io_error | SavedUnsynced io_error

record source_file =
  sf_open :: "io_error option"
  sf_regular :: bool
  sf_size :: int
  sf_mtime :: int
  sf_first :: "bytes \<times> io_error option"
  sf_seek :: "io_error option"
  sf_again :: "bytes \<times> io_error option"
  sf_moved :: bool

record spool_env =
  se_dir :: "io_error option"
  se_capture :: string
  se_source :: "string \<Rightarrow> source_file"
  se_cancelled :: "nat \<Rightarrow> io_error option"
  se_create :: "string \<Rightarrow> io_error option"
  se_write :: "string \<Rightarrow> int \<Rightarrow> io_error option"
  se_finish :: "string \<Rightarrow> io_error option"
  se_save :: save_outcome
  se_parent :: "io_error option"

text \<open>The variables of the function: finished packs with the files that hold them, the open pack, the
  metadata for the journal, and the bytes that may still be copied.\<close>

record spool =
  sp_packs :: "journal_pack list"
  sp_written :: "(string \<times> bytes) list"
  sp_open :: "(string \<times> bytes) option"
  sp_state :: "string \<rightharpoonup> file_state"
  sp_dirty :: "string list"
  sp_left :: int

definition pack_name :: "nat \<Rightarrow> string" where
  "pack_name n = ''pack-'' @ replicate (6 - length (show_nat n)) (CHR ''0'') @ show_nat n"

fun spool_paths_ok :: "string list \<Rightarrow> capture_file list \<Rightarrow> bool" where
  "spool_paths_ok seen [] \<longleftrightarrow> True"
| "spool_paths_ok seen (f # fs) \<longleftrightarrow> is_local (cf_path f) \<and> path_clean (cf_path f) = cf_path f \<and> cf_path f \<noteq> ''.''
     \<and> cf_path f \<notin> set seen \<and> cf_source f = None \<and> spool_paths_ok (cf_path f # seen) fs"

definition finish_pack :: "spool_env \<Rightarrow> (bytes \<Rightarrow> string) \<Rightarrow> spool \<Rightarrow> spool_error + spool" where
  "finish_pack env sha sp = (case sp_open sp of
      None \<Rightarrow> Inr sp
    | Some (name, bs) \<Rightarrow>
       (case se_finish env name of
          Some e \<Rightarrow> Inl (SpoolIO e)
        | None \<Rightarrow> Inr (sp\<lparr>sp_packs := sp_packs sp @ [\<lparr>jp_name = name, jp_size = int (length bs), jp_digest = ''sha256:'' @ sha bs,
             jp_key = [], jp_complete = False, jp_multipart = None\<rparr>], sp_written := sp_written sp @ [(name, bs)], sp_open := None\<rparr>)))"

text \<open>The pack that the next bytes go to.\<close>

definition open_pack :: "spool_env \<Rightarrow> spool \<Rightarrow> spool_error + string \<times> bytes" where
  "open_pack env sp = (case sp_open sp of
      Some p \<Rightarrow> Inr p
    | None \<Rightarrow> let name = pack_name (length (sp_packs sp)) in
        (case se_create env name of Some e \<Rightarrow> Inl (SpoolIO e) | None \<Rightarrow> Inr (name, [])))"

text \<open>One round of the copying loop.\<close>

definition copy_chunk ::
  "spool_env \<Rightarrow> (bytes \<Rightarrow> string) \<Rightarrow> int \<Rightarrow> io_error option \<Rightarrow> bytes \<times> int \<times> spool \<times> source_extent list \<times> bytes
    \<Rightarrow> spool_error + bytes \<times> int \<times> spool \<times> source_extent list \<times> bytes" where
  "copy_chunk env sha packBytes err st = (case st of (source, remaining, sp, exts, digest) \<Rightarrow>
     try_then (open_pack env sp) (\<lambda>(name, bs).
       (let n = min remaining (packBytes - int (length bs)); chunk = take (nat n) source;
            bs' = bs @ chunk in
        case (if chunk = [] then None else se_write env name (int (length bs))) of
          Some e \<Rightarrow> Inl (SpoolIO e)
        | None \<Rightarrow>
           if length chunk < nat n then Inl (SpoolIO (case err of None \<Rightarrow> UnexpectedEOF | Some e \<Rightarrow> if e = EOF then UnexpectedEOF else e))
           else (let sp' = sp\<lparr>sp_open := Some (name, bs'), sp_left := sp_left sp - n\<rparr>;
                     ext = \<lparr>object_key = ''local:'' @ name, offset = int (length bs), extent_length = n\<rparr> in
             try_then (if int (length bs') = packBytes then finish_pack env sha sp' else Inr sp') (\<lambda>sp''.
               Inr (drop (nat n) source, remaining - n, sp'', exts @ [ext], digest @ chunk))))))"

partial_function (option) copy_loop ::
  "spool_env \<Rightarrow> (bytes \<Rightarrow> string) \<Rightarrow> int \<Rightarrow> io_error option \<Rightarrow> bytes \<times> int \<times> spool \<times> source_extent list \<times> bytes
    \<Rightarrow> (spool_error + spool \<times> source_extent list \<times> bytes) option" where
  "copy_loop env sha packBytes err st =
    (case st of (source, remaining, sp, exts, digest) \<Rightarrow>
      if remaining \<le> 0 then Some (Inr (sp, exts, digest))
      else (case copy_chunk env sha packBytes err st of
          Inl e \<Rightarrow> Some (Inl e)
        | Inr st' \<Rightarrow> copy_loop env sha packBytes err st'))"

definition reusable :: "string \<Rightarrow> string \<Rightarrow> capture_file \<Rightarrow> local_head option \<Rightarrow> source_manifest option" where
  "reusable server rootID f prior = (case prior of
      None \<Rightarrow> None
    | Some h \<Rightarrow> if \<not> lh_deleted h \<and> lh_server h = server \<and> lh_root h = rootID \<and> lh_path h = cf_path f \<and> rv_version (lh_version h) = cf_previous f
        then lh_source h else None)"

text \<open>Where copying starts: the bytes that follow with their error, and what the manifest and the
  digest already hold.\<close>

definition copy_start ::
  "(bytes \<Rightarrow> string) \<Rightarrow> source_file \<Rightarrow> source_manifest option \<Rightarrow> spool_error + io_error option \<times> bytes \<times> int \<times> source_extent list \<times> bytes" where
  "copy_start sha f prior = (case prior of
      None \<Rightarrow> Inr (snd (sf_first f), fst (sf_first f), sf_size f, [], [])
    | Some m \<Rightarrow>
       (case HashVerifiedPrefix sha (fst (sf_first f)) (snd (sf_first f)) (sf_size f) m of
          Inr (digest, rest) \<Rightarrow> Inr (snd (sf_first f), rest, sf_size f - manifest_size m, extents m, digest)
        | Inl PrefixChanged \<Rightarrow> (case sf_seek f of Some e \<Rightarrow> Inl (SpoolIO e) | None \<Rightarrow> Inr (snd (sf_again f), fst (sf_again f), sf_size f, [], []))
        | Inl (BadPrefixManifest e) \<Rightarrow> Inl (SpoolManifest e)
        | Inl (PrefixReadFailed e) \<Rightarrow> Inl (SpoolIO e)))"

definition capture_source ::
  "spool_env \<Rightarrow> (bytes \<Rightarrow> string) \<Rightarrow> string \<Rightarrow> string \<Rightarrow> local_head option \<Rightarrow> int \<Rightarrow> capture_file \<Rightarrow> spool
    \<Rightarrow> (spool_error + spool \<times> source_manifest) option" where
  "capture_source env sha server rootID prior packBytes file sp =
    (let f = se_source env (cf_path file) in
     case sf_open f of
       Some e \<Rightarrow> Some (Inl (SpoolIO e))
     | None \<Rightarrow>
        if \<not> sf_regular f then Some (Inl NotRegular)
        else (case copy_start sha f (reusable server rootID file prior) of
            Inl e \<Rightarrow> Some (Inl e)
          | Inr (err, source, remaining, exts, digest) \<Rightarrow>
             if remaining > sp_left sp then Some (Inl SpoolFull)
             else (case copy_loop env sha packBytes err (source, remaining, sp, exts, digest) of
                 None \<Rightarrow> None
               | Some (Inl e) \<Rightarrow> Some (Inl e)
               | Some (Inr (sp', exts', digest')) \<Rightarrow>
                  (let m = \<lparr>manifest_format = 1, content_hash = ''sha256:'' @ sha digest', manifest_size = sf_size f, extents = exts'\<rparr> in
                   Some (Inr (sp'\<lparr>sp_state := (sp_state sp')(cf_path file \<mapsto> \<lparr>fs_size = sf_size f, fs_hash = content_hash m, fs_mtime = sf_mtime f\<rparr>),
                     sp_dirty := (if sf_moved f then sp_dirty sp' @ [cf_path file] else sp_dirty sp')\<rparr>, m))))))"

fun spool_files ::
  "spool_env \<Rightarrow> (bytes \<Rightarrow> string) \<Rightarrow> string \<Rightarrow> string \<Rightarrow> (string \<rightharpoonup> local_head) \<Rightarrow> int \<Rightarrow> nat \<Rightarrow> capture_file list \<Rightarrow> spool
    \<Rightarrow> capture_file list \<Rightarrow> (spool_error + spool \<times> capture_file list) option" where
  "spool_files env sha server rootID previous packBytes i [] sp captured = Some (Inr (sp, captured))"
| "spool_files env sha server rootID previous packBytes i (f # fs) sp captured =
    (case se_cancelled env i of
       Some e \<Rightarrow> Some (Inl (SpoolIO e))
     | None \<Rightarrow>
        if cf_deleted f then spool_files env sha server rootID previous packBytes (i + 1) fs sp (captured @ [f])
        else (case capture_source env sha server rootID (previous (cf_path f)) packBytes f sp of
            None \<Rightarrow> None
          | Some (Inl e) \<Rightarrow> if e = SpoolFull \<and> i > 0 then Some (Inr (sp, captured)) else Some (Inl e)
          | Some (Inr (sp', m)) \<Rightarrow> spool_files env sha server rootID previous packBytes (i + 1) fs sp' (captured @ [f\<lparr>cf_source := Some m\<rparr>])))"

text \<open>The result, and the published capture: its journal and the pack files beside it.\<close>

definition createCaptureSpool ::
  "spool_env \<Rightarrow> (bytes \<Rightarrow> string) \<Rightarrow> string \<Rightarrow> string \<Rightarrow> capture_file list \<Rightarrow> (string \<rightharpoonup> local_head) \<Rightarrow> int \<Rightarrow> int
    \<Rightarrow> ((spool_error + nat) \<times> (capture_journal \<times> (string \<times> bytes) list) option) option" where
  "createCaptureSpool env sha server rootID files previous packBytes remainingBytes =
    (if server = [] \<or> rootID = [] \<or> length files < 1 \<or> length files > 128 \<or> packBytes < 1 \<or> packBytes > maxPackBytes
     then Some (Inl SpoolInputs, None)
     else if \<not> spool_paths_ok [] files then Some (Inl SpoolPaths, None)
     else case se_dir env of
        Some e \<Rightarrow> Some (Inl (SpoolIO e), None)
      | None \<Rightarrow>
         (case spool_files env sha server rootID previous packBytes 0 files
             \<lparr>sp_packs = [], sp_written = [], sp_open = None, sp_state = Map.empty, sp_dirty = [], sp_left = remainingBytes\<rparr> [] of
            None \<Rightarrow> None
          | Some (Inl e) \<Rightarrow> Some (Inl e, None)
          | Some (Inr (sp, captured)) \<Rightarrow>
             (case finish_pack env sha sp of
                Inl e \<Rightarrow> Some (Inl e, None)
              | Inr sp' \<Rightarrow>
                 (case se_cancelled env (length files) of
                    Some e \<Rightarrow> Some (Inl (SpoolIO e), None)
                  | None \<Rightarrow>
                     (let j = \<lparr>cj_format = 1, cj_server = server, cj_root = rootID,
                          cj_request = \<lparr>cq_capture = se_capture env, cq_files = captured\<rparr>, cj_packs = sp_packs sp',
                          cj_state = sp_state sp', cj_dirty = sp_dirty sp', cj_accepted = None\<rparr>;
                          published = Some (j, sp_written sp') in
                      case se_save env of
                        NotSaved e \<Rightarrow> Some (Inl (SpoolIO e), None)
                      | SavedUnsynced e \<Rightarrow> Some (Inl (SpoolIO e), published)
                      | Saved \<Rightarrow> (case se_parent env of
                           Some e \<Rightarrow> Some (Inl (SpoolIO e), published)
                         | None \<Rightarrow> Some (Inr (length captured), published)))))))"

section \<open>Resolving a journal\<close>

datatype journal_error =
    JournalInvalid
  | JournalPackInvalid
  | JournalPackDuplicate
  | DeletedWithSource
  | SourceMissing
  | ManifestRejected manifest_error
  | LocalExtentInvalid
  | PackIncomplete

definition journal_pack_ok :: "journal_pack \<Rightarrow> bool" where
  "journal_pack_ok p \<longleftrightarrow> is_local (jp_name p) \<and> base_name (jp_name p) = jp_name p \<and> jp_name p \<noteq> ''journal.json''
     \<and> \<not> has_prefix (jp_name p) ''.'' \<and> 1 \<le> jp_size p \<and> jp_size p \<le> maxPackBytes"

fun journal_packs :: "journal_pack list \<Rightarrow> (string \<rightharpoonup> journal_pack) \<Rightarrow> journal_error + (string \<rightharpoonup> journal_pack)" where
  "journal_packs [] packs = Inr packs"
| "journal_packs (p # ps) packs =
    (if \<not> journal_pack_ok p then Inl JournalPackInvalid
     else if packs (''local:'' @ jp_name p) \<noteq> None then Inl JournalPackDuplicate
     else journal_packs ps (packs(''local:'' @ jp_name p \<mapsto> p)))"

definition resolve_extent :: "(string \<rightharpoonup> journal_pack) \<Rightarrow> source_extent \<Rightarrow> journal_error + source_extent" where
  "resolve_extent packs e =
    (if \<not> has_prefix (object_key e) ''local:'' then Inr e
     else case packs (object_key e) of
        None \<Rightarrow> Inl LocalExtentInvalid
      | Some p \<Rightarrow>
         if offset e > jp_size p \<or> extent_length e > jp_size p - offset e then Inl LocalExtentInvalid
         else if jp_key p = [] \<or> \<not> jp_complete p then Inl PackIncomplete
         else Inr (e\<lparr>object_key := jp_key p\<rparr>))"

definition resolve_file :: "(string \<rightharpoonup> journal_pack) \<Rightarrow> capture_file \<Rightarrow> journal_error + capture_file" where
  "resolve_file packs f =
    (if cf_deleted f then (if cf_source f \<noteq> None then Inl DeletedWithSource else Inr f)
     else case cf_source f of
        None \<Rightarrow> Inl SourceMissing
      | Some m \<Rightarrow>
         (case ValidateManifest m of
            Inl e \<Rightarrow> Inl (ManifestRejected e)
          | Inr _ \<Rightarrow> try_then (try_map (resolve_extent packs) (extents m)) (\<lambda>exts. Inr (f\<lparr>cf_source := Some (m\<lparr>extents := exts\<rparr>)\<rparr>))))"

definition resolvedCaptureRequest :: "capture_journal \<Rightarrow> journal_error + capture_request" where
  "resolvedCaptureRequest j =
    (if cj_format j \<noteq> 1 \<or> cj_root j = [] \<or> cj_server j = [] \<or> cq_capture (cj_request j) = [] \<or> length (cq_files (cj_request j)) < 1
        \<or> length (cq_files (cj_request j)) > 128
     then Inl JournalInvalid
     else try_then (journal_packs (cj_packs j) Map.empty) (\<lambda>packs.
       try_then (try_map (resolve_file packs) (cq_files (cj_request j))) (\<lambda>files. Inr ((cj_request j)\<lparr>cq_files := files\<rparr>))))"

section \<open>Copied bytes stay where the extents say\<close>

definition files_of :: "spool \<Rightarrow> (string \<times> bytes) list" where
  "files_of sp = sp_written sp @ (case sp_open sp of None \<Rightarrow> [] | Some p \<Rightarrow> [p])"

definition pack_of :: "(bytes \<Rightarrow> string) \<Rightarrow> string \<times> bytes \<Rightarrow> journal_pack" where
  "pack_of sha p = \<lparr>jp_name = fst p, jp_size = int (length (snd p)), jp_digest = ''sha256:'' @ sha (snd p), jp_key = [], jp_complete = False, jp_multipart = None\<rparr>"

lemma pack_of_name [simp]: "jp_name (pack_of sha p) = fst p"
  by (simp add: pack_of_def)

definition file_bytes :: "(string \<times> bytes) list \<Rightarrow> int" where
  "file_bytes ps = (\<Sum>p\<leftarrow>ps. int (length (snd p)))"

lemma file_bytes_simps [simp]: "file_bytes [] = 0" "file_bytes (p # ps) = int (length (snd p)) + file_bytes ps" "file_bytes (ps @ qs) = file_bytes ps + file_bytes qs"
  by (simp_all add: file_bytes_def)

definition spool_ok :: "(bytes \<Rightarrow> string) \<Rightarrow> int \<Rightarrow> int \<Rightarrow> spool \<Rightarrow> bool" where
  "spool_ok sha packBytes budget sp \<longleftrightarrow>
    map fst (sp_written sp) = map pack_name [0..<length (sp_written sp)] \<and> sp_packs sp = map (pack_of sha) (sp_written sp)
    \<and> (\<forall>p\<in>set (sp_written sp). snd p \<noteq> [] \<and> int (length (snd p)) \<le> packBytes)
    \<and> (\<forall>p. sp_open sp = Some p \<longrightarrow> fst p = pack_name (length (sp_written sp)) \<and> snd p \<noteq> [] \<and> int (length (snd p)) < packBytes)
    \<and> file_bytes (files_of sp) + sp_left sp = budget \<and> (0 \<le> sp_left sp \<or> files_of sp = [])"

text \<open>An extent names bytes of a pack file of the spool.\<close>

definition holds :: "(string \<times> bytes) list \<Rightarrow> source_extent \<Rightarrow> bytes \<Rightarrow> bool" where
  "holds ps e bs \<longleftrightarrow> (\<exists>name content. object_key e = ''local:'' @ name \<and> (name, content) \<in> set ps \<and> 0 \<le> offset e \<and> 0 < extent_length e
     \<and> offset e + extent_length e \<le> int (length content) \<and> bs = take (nat (extent_length e)) (drop (nat (offset e)) content))"

definition grown :: "(string \<times> bytes) list \<Rightarrow> (string \<times> bytes) list \<Rightarrow> bool" where
  "grown ps qs \<longleftrightarrow> (\<forall>(name, content)\<in>set ps. \<exists>more. (name, content @ more) \<in> set qs)"

lemma grown_refl [simp]: "grown ps ps"
  unfolding grown_def by (auto intro: exI[of _ "[]"])

lemma grown_trans:
  assumes "grown ps qs" "grown qs rs"
  shows "grown ps rs"
  unfolding grown_def
proof clarify
  fix name content assume "(name, content) \<in> set ps"
  then obtain more where "(name, content @ more) \<in> set qs" using assms(1) by (auto simp: grown_def)
  then obtain more' where "(name, (content @ more) @ more') \<in> set rs" using assms(2) by (fastforce simp: grown_def)
  then show "\<exists>more. (name, content @ more) \<in> set rs" by auto
qed

lemma holds_grown:
  assumes "holds ps e bs" "grown ps qs"
  shows "holds qs e bs"
proof -
  obtain name content where e: "object_key e = ''local:'' @ name" "(name, content) \<in> set ps" "0 \<le> offset e" "0 < extent_length e"
    "offset e + extent_length e \<le> int (length content)" "bs = take (nat (extent_length e)) (drop (nat (offset e)) content)"
    using assms(1) by (auto simp: holds_def)
  obtain more where "(name, content @ more) \<in> set qs" using assms(2) e(2) by (auto simp: grown_def)
  moreover have "take (nat (extent_length e)) (drop (nat (offset e)) (content @ more)) = bs" using e(3-6) by simp
  ultimately show ?thesis using e unfolding holds_def by (intro exI[of _ name] exI[of _ "content @ more"]) auto
qed

lemma holds_length: "holds ps e bs \<Longrightarrow> int (length bs) = extent_length e"
  by (auto simp: holds_def)

lemma finish_pack_ok:
  assumes "finish_pack env sha sp = Inr sp'"
  shows "files_of sp' = files_of sp \<and> sp_open sp' = None \<and> sp_left sp' = sp_left sp \<and> sp_state sp' = sp_state sp \<and> sp_dirty sp' = sp_dirty sp
    \<and> sp_packs sp' = sp_packs sp @ (case sp_open sp of None \<Rightarrow> [] | Some p \<Rightarrow> [pack_of sha p])"
  using assms by (auto simp: finish_pack_def files_of_def pack_of_def split: option.splits prod.splits)

lemma finish_pack_spool_ok:
  assumes "finish_pack env sha sp = Inr sp'" "spool_ok sha packBytes budget sp"
  shows "spool_ok sha packBytes budget sp'"
proof (cases "sp_open sp")
  case None
  then show ?thesis using assms by (simp add: finish_pack_def)
next
  case (Some p)
  then have "sp_written sp' = sp_written sp @ [p]" using assms(1) by (auto simp: finish_pack_def split: option.splits prod.splits)
  then show ?thesis using finish_pack_ok[OF assms(1)] assms(2) Some by (auto simp: spool_ok_def files_of_def)
qed

lemma open_pack_ok:
  assumes "open_pack env sp = Inr (name, bs)" "spool_ok sha packBytes budget sp" "1 \<le> packBytes"
  shows "name = pack_name (length (sp_written sp)) \<and> int (length bs) < packBytes \<and> (sp_open sp = Some (name, bs) \<or> sp_open sp = None \<and> bs = [])"
  using assms by (auto simp: open_pack_def spool_ok_def Let_def split: option.splits)

text \<open>A round copies at least one byte and adds the extent that holds what it copied.\<close>

lemma copy_chunk_ok:
  assumes run: "copy_chunk env sha packBytes err (source, remaining, sp, exts, digest) = Inr (source', remaining', sp', exts', digest')"
    and ok: "spool_ok sha packBytes budget sp" and pos: "0 < remaining" "1 \<le> packBytes" "remaining \<le> sp_left sp"
  obtains chunk ext where "chunk \<noteq> []" "source = chunk @ source'" "remaining' = remaining - int (length chunk)" "0 \<le> remaining'"
    "exts' = exts @ [ext]" "digest' = digest @ chunk" "holds (files_of sp') ext chunk" "grown (files_of sp) (files_of sp')"
    "spool_ok sha packBytes budget sp'" "sp_state sp' = sp_state sp" "sp_dirty sp' = sp_dirty sp" "remaining' \<le> sp_left sp'"
proof -
  obtain name bs where p: "open_pack env sp = Inr (name, bs)" using run by (auto simp: copy_chunk_def try_then_Inr_iff)
  note pk = open_pack_ok[OF p ok pos(2)]
  define n where "n = min remaining (packBytes - int (length bs))"
  define chunk where "chunk = take (nat n) source"
  define ext where "ext = \<lparr>object_key = ''local:'' @ name, offset = int (length bs), extent_length = n\<rparr>"
  define sp1 where "sp1 = sp\<lparr>sp_open := Some (name, bs @ chunk), sp_left := sp_left sp - n\<rparr>"
  have n: "1 \<le> n" "n \<le> remaining" "int (length bs) + n \<le> packBytes" using pk pos by (auto simp: n_def)
  have len: "length chunk = nat n"
    and fin: "(if int (length (bs @ chunk)) = packBytes then finish_pack env sha sp1 else Inr sp1) = Inr sp'"
    and out: "source' = drop (nat n) source" "remaining' = remaining - n" "exts' = exts @ [ext]" "digest' = digest @ chunk"
    using run p by (auto simp: copy_chunk_def n_def chunk_def ext_def sp1_def Let_def try_then_Inr_iff min_def not_less split: option.splits if_splits)
  have lc: "int (length chunk) = n" using len n by simp
  have files: "files_of sp' = sp_written sp @ [(name, bs @ chunk)]"
    using fin finish_pack_ok[of env sha sp1 sp'] by (auto simp: files_of_def sp1_def split: if_splits)
  have grow: "grown (files_of sp) (files_of sp')"
  proof -
    have "set (files_of sp) \<subseteq> insert (name, bs) (set (sp_written sp))" using pk by (auto simp: files_of_def)
    moreover have "grown (sp_written sp) (files_of sp')" unfolding grown_def files by (auto intro: exI[of _ "[]"])
    moreover have "(name, bs @ chunk) \<in> set (files_of sp')" by (simp add: files)
    ultimately show ?thesis unfolding grown_def by blast
  qed
  have bytes: "file_bytes (files_of sp') + (sp_left sp - n) = budget"
  proof -
    have "file_bytes (files_of sp) = file_bytes (sp_written sp) + int (length bs)" using pk by (auto simp: files_of_def)
    then show ?thesis using ok lc by (simp add: spool_ok_def files)
  qed
  have "chunk \<noteq> []" using lc n by auto
  have ok': "spool_ok sha packBytes budget sp'"
  proof (cases "int (length (bs @ chunk)) = packBytes")
    case True
    then have f: "finish_pack env sha sp1 = Inr sp'" using fin by simp
    have "sp_written sp' = sp_written sp @ [(name, bs @ chunk)]" using f by (auto simp: finish_pack_def sp1_def split: option.splits)
    then show ?thesis using finish_pack_ok[OF f] ok pk True \<open>chunk \<noteq> []\<close> bytes files n pos by (auto simp: spool_ok_def sp1_def files_of_def)
  next
    case False
    then have "sp' = sp1" using fin by simp
    then show ?thesis using ok pk n lc False \<open>chunk \<noteq> []\<close> bytes files pos by (auto simp: spool_ok_def sp1_def)
  qed
  have rest: "sp_state sp' = sp_state sp \<and> sp_dirty sp' = sp_dirty sp \<and> sp_left sp' = sp_left sp - n"
    using fin finish_pack_ok[of env sha sp1 sp'] by (auto simp: sp1_def split: if_splits)
  have held: "holds (files_of sp') ext chunk"
    unfolding holds_def files using n lc len by (intro exI[of _ name] exI[of _ "bs @ chunk"]) (simp add: ext_def)
  show ?thesis
    by (rule that[OF \<open>chunk \<noteq> []\<close> _ _ _ out(3,4) held grow ok']) (use out n lc rest pos in \<open>auto simp: chunk_def\<close>)
qed

text \<open>The loop ends, since every round leaves fewer bytes.\<close>

lemma copy_loop_returns:
  assumes "spool_ok sha packBytes budget sp" "1 \<le> packBytes" "remaining \<le> sp_left sp"
  shows "copy_loop env sha packBytes err (source, remaining, sp, exts, digest) \<noteq> None"
  using assms(1,3)
proof (induction "nat remaining" arbitrary: source remaining sp exts digest rule: less_induct)
  case less
  show ?case
  proof (cases "remaining \<le> 0 \<or> (\<exists>e. copy_chunk env sha packBytes err (source, remaining, sp, exts, digest) = Inl e)")
    case True
    then show ?thesis by (subst copy_loop.simps) auto
  next
    case False
    then obtain source' remaining' sp' exts' digest'
      where c: "copy_chunk env sha packBytes err (source, remaining, sp, exts, digest) = Inr (source', remaining', sp', exts', digest')"
      by (metis prod_cases5 sumE)
    have pos: "0 < remaining" using False by simp
    obtain chunk ext where s: "chunk \<noteq> []" "source = chunk @ source'" "remaining' = remaining - int (length chunk)" "0 \<le> remaining'"
      "exts' = exts @ [ext]" "digest' = digest @ chunk" "holds (files_of sp') ext chunk" "grown (files_of sp) (files_of sp')"
      and ok: "spool_ok sha packBytes budget sp'" and "sp_state sp' = sp_state sp" "sp_dirty sp' = sp_dirty sp" and left: "remaining' \<le> sp_left sp'"
      by (rule copy_chunk_ok[OF c less.prems(1) pos assms(2) less.prems(2)])
    have "nat remaining' < nat remaining" using s(1,3) pos by auto
    from less.hyps[OF this ok left, of source' exts' digest'] c pos show ?thesis by (subst copy_loop.simps) simp
  qed
qed

lemma copy_loop_ok:
  assumes "copy_loop env sha packBytes err st = Some (Inr (sp', exts', digest'))" "st = (source, remaining, sp, exts, digest)"
    and "spool_ok sha packBytes budget sp" "0 \<le> remaining" "1 \<le> packBytes" "remaining \<le> sp_left sp"
  shows "\<exists>new slices. exts' = exts @ new \<and> digest' = digest @ concat slices \<and> list_all2 (holds (files_of sp')) new slices
    \<and> concat slices = take (nat remaining) source \<and> nat remaining \<le> length source \<and> spool_ok sha packBytes budget sp'
    \<and> grown (files_of sp) (files_of sp') \<and> sp_state sp' = sp_state sp \<and> sp_dirty sp' = sp_dirty sp"
  using assms
proof (induction "nat remaining" arbitrary: st source remaining sp exts digest rule: less_induct)
  case less
  show ?case
  proof (cases "remaining \<le> 0")
    case True
    then show ?thesis using less.prems by (auto simp: copy_loop.simps[of env sha packBytes err] intro!: exI[of _ "[]"])
  next
    case False
    then obtain source1 remaining1 sp1 exts1 digest1
      where c: "copy_chunk env sha packBytes err (source, remaining, sp, exts, digest) = Inr (source1, remaining1, sp1, exts1, digest1)"
        and loop: "copy_loop env sha packBytes err (source1, remaining1, sp1, exts1, digest1) = Some (Inr (sp', exts', digest'))"
      using less.prems(1,2) by (auto simp: copy_loop.simps[of env sha packBytes err "(source, remaining, sp, exts, digest)"] split: sum.splits)
    have pos: "0 < remaining" using False by simp
    obtain chunk ext where s: "chunk \<noteq> []" "source = chunk @ source1" "remaining1 = remaining - int (length chunk)" "0 \<le> remaining1"
      "exts1 = exts @ [ext]" "digest1 = digest @ chunk" and h: "holds (files_of sp1) ext chunk" "grown (files_of sp) (files_of sp1)"
      and ok: "spool_ok sha packBytes budget sp1" and k: "sp_state sp1 = sp_state sp" "sp_dirty sp1 = sp_dirty sp" and left: "remaining1 \<le> sp_left sp1"
      by (rule copy_chunk_ok[OF c less.prems(3) pos less.prems(5,6)])
    have "nat remaining1 < nat remaining" using s pos by auto
    from less.hyps[OF this loop refl ok s(4) less.prems(5) left] obtain new slices
      where r: "exts' = exts1 @ new" "digest' = digest1 @ concat slices" "list_all2 (holds (files_of sp')) new slices"
        "concat slices = take (nat remaining1) source1" "nat remaining1 \<le> length source1" "spool_ok sha packBytes budget sp'"
        "grown (files_of sp1) (files_of sp')" "sp_state sp' = sp_state sp1" "sp_dirty sp' = sp_dirty sp1" by blast
    have "nat remaining = length chunk + nat remaining1" using s pos by auto
    then show ?thesis using s k r holds_grown[OF h(1) r(7)] grown_trans[OF h(2) r(7)]
      by (intro exI[of _ "ext # new"] exI[of _ "chunk # slices"]) auto
  qed
qed

section \<open>A captured file\<close>

text \<open>What the manifest of a captured file says: the bytes are those one reading of the file gave, all of
  the size observed, and the extents hold them, after the extents of the previous version where its
  bytes are an unchanged prefix.\<close>

definition captured_from :: "(bytes \<Rightarrow> string) \<Rightarrow> source_file \<Rightarrow> source_manifest option \<Rightarrow> (string \<times> bytes) list \<Rightarrow> source_manifest \<Rightarrow> bytes \<Rightarrow> bool" where
  "captured_from sha f prior ps m content \<longleftrightarrow>
    manifest_format m = 1 \<and> manifest_size m = sf_size f \<and> int (length content) = sf_size f \<and> content_hash m = ''sha256:'' @ sha content
    \<and> (\<exists>delivered\<in>{fst (sf_first f), fst (sf_again f)}. content = take (nat (sf_size f)) delivered)
    \<and> (\<exists>old new prefix slices. extents m = old @ new \<and> content = prefix @ concat slices \<and> list_all2 (holds ps) new slices
        \<and> (old = [] \<and> prefix = [] \<or> (\<exists>pm. prior = Some pm \<and> ValidateManifest pm = Inr () \<and> old = extents pm
             \<and> int (length prefix) = manifest_size pm \<and> ''sha256:'' @ sha prefix = content_hash pm)))"

lemma captured_from_grown: "captured_from sha f prior ps m content \<Longrightarrow> grown ps qs \<Longrightarrow> captured_from sha f prior qs m content"
  unfolding captured_from_def using holds_grown by (blast intro: list_all2_mono)

lemma copy_start_ok:
  assumes "copy_start sha f prior = Inr (err, source, remaining, exts, digest)" "0 \<le> sf_size f"
  shows "\<exists>delivered\<in>{fst (sf_first f), fst (sf_again f)}. delivered = digest @ source \<and> remaining = sf_size f - int (length digest) \<and> 0 \<le> remaining
    \<and> (exts = [] \<and> digest = [] \<or> (\<exists>pm. prior = Some pm \<and> ValidateManifest pm = Inr () \<and> exts = extents pm
             \<and> int (length digest) = manifest_size pm \<and> ''sha256:'' @ sha digest = content_hash pm))"
proof (cases prior)
  case None
  then show ?thesis using assms by (auto simp: copy_start_def)
next
  case (Some pm)
  show ?thesis
  proof (cases "HashVerifiedPrefix sha (fst (sf_first f)) (snd (sf_first f)) (sf_size f) pm")
    case (Inl e)
    then show ?thesis using assms Some by (cases e) (auto simp: copy_start_def split: option.splits)
  next
    case (Inr r)
    obtain d rest where r: "r = (d, rest)" by (cases r)
    have "digest = d" "source = rest" "exts = extents pm" "remaining = sf_size f - manifest_size pm"
      using assms(1) Some Inr r by (simp_all add: copy_start_def)
    then show ?thesis using verified_prefix[of sha "fst (sf_first f)" "snd (sf_first f)" "sf_size f" pm d rest] Inr r Some
      by (intro bexI[of _ "fst (sf_first f)"]) auto
  qed
qed

lemma capture_source_ok:
  assumes run: "capture_source env sha server rootID prior packBytes file sp = Some (Inr (sp', m))"
    and ok: "spool_ok sha packBytes budget sp" "1 \<le> packBytes" "0 \<le> sf_size (se_source env (cf_path file))"
  shows "\<exists>content. captured_from sha (se_source env (cf_path file)) (reusable server rootID file prior) (files_of sp') m content
    \<and> spool_ok sha packBytes budget sp' \<and> grown (files_of sp) (files_of sp')
    \<and> sp_state sp' = (sp_state sp)(cf_path file \<mapsto> \<lparr>fs_size = manifest_size m, fs_hash = content_hash m, fs_mtime = sf_mtime (se_source env (cf_path file))\<rparr>)
    \<and> set (sp_dirty sp') = set (sp_dirty sp) \<union> (if sf_moved (se_source env (cf_path file)) then {cf_path file} else {})"
proof -
  let ?f = "se_source env (cf_path file)" and ?prior = "reusable server rootID file prior"
  obtain err source remaining exts digest where start: "copy_start sha ?f ?prior = Inr (err, source, remaining, exts, digest)"
    using run by (auto simp: capture_source_def Let_def split: option.splits if_splits sum.splits)
  obtain sp1 exts1 digest1 where loop: "copy_loop env sha packBytes err (source, remaining, sp, exts, digest) = Some (Inr (sp1, exts1, digest1))"
    and m: "m = \<lparr>manifest_format = 1, content_hash = ''sha256:'' @ sha digest1, manifest_size = sf_size ?f, extents = exts1\<rparr>"
    and left: "remaining \<le> sp_left sp"
    and sp': "sp' = sp1\<lparr>sp_state := (sp_state sp1)(cf_path file \<mapsto> \<lparr>fs_size = sf_size ?f, fs_hash = content_hash m, fs_mtime = sf_mtime ?f\<rparr>),
                     sp_dirty := (if sf_moved ?f then sp_dirty sp1 @ [cf_path file] else sp_dirty sp1)\<rparr>"
    using run start by (auto simp: capture_source_def Let_def split: option.splits if_splits sum.splits)
  from copy_start_ok[OF start ok(3)] obtain delivered where d: "delivered \<in> {fst (sf_first ?f), fst (sf_again ?f)}" "delivered = digest @ source"
    "remaining = sf_size ?f - int (length digest)" "0 \<le> remaining"
    and old: "exts = [] \<and> digest = [] \<or> (\<exists>pm. ?prior = Some pm \<and> ValidateManifest pm = Inr () \<and> exts = extents pm
             \<and> int (length digest) = manifest_size pm \<and> ''sha256:'' @ sha digest = content_hash pm)" by blast
  from copy_loop_ok[OF loop refl ok(1) d(4) ok(2) left] obtain new slices where c: "exts1 = exts @ new" "digest1 = digest @ concat slices"
      "list_all2 (holds (files_of sp1)) new slices" "concat slices = take (nat remaining) source" "nat remaining \<le> length source"
      "spool_ok sha packBytes budget sp1" "grown (files_of sp) (files_of sp1)" "sp_state sp1 = sp_state sp" "sp_dirty sp1 = sp_dirty sp" by blast
  have files: "files_of sp' = files_of sp1" by (simp add: sp' files_of_def)
  have size: "nat (sf_size ?f) = length digest + nat remaining" using d(3,4) by linarith
  have "captured_from sha ?f ?prior (files_of sp') m digest1"
    unfolding captured_from_def files
  proof (intro conjI)
    show "int (length digest1) = sf_size ?f" using c(2,4,5) d(3,4) by simp
    show "\<exists>delivered\<in>{fst (sf_first ?f), fst (sf_again ?f)}. digest1 = take (nat (sf_size ?f)) delivered"
      by (rule bexI[OF _ d(1)]) (simp add: d(2) size c(2,4))
    show "\<exists>old new prefix slices. extents m = old @ new \<and> digest1 = prefix @ concat slices \<and> list_all2 (holds (files_of sp1)) new slices
        \<and> (old = [] \<and> prefix = [] \<or> (\<exists>pm. ?prior = Some pm \<and> ValidateManifest pm = Inr () \<and> old = extents pm
             \<and> int (length prefix) = manifest_size pm \<and> ''sha256:'' @ sha prefix = content_hash pm))"
      using c(1-3) old m by (intro exI[of _ exts] exI[of _ new] exI[of _ digest] exI[of _ slices]) simp
  qed (simp_all add: m)
  moreover have "spool_ok sha packBytes budget sp'" using c(6) by (simp add: spool_ok_def files_of_def sp')
  ultimately show ?thesis using c(7-9) files by (intro exI[of _ digest1]) (simp add: sp' m)
qed

lemma capture_source_returns:
  assumes "spool_ok sha packBytes budget sp" "1 \<le> packBytes"
  shows "capture_source env sha server rootID prior packBytes file sp \<noteq> None"
  by (auto simp: capture_source_def Let_def not_less copy_loop_returns[OF assms] split: option.splits sum.splits prod.splits)

section \<open>A spool\<close>

text \<open>The file at its place in the request, and how it got there.\<close>

definition captured_as_asked :: "spool_env \<Rightarrow> (bytes \<Rightarrow> string) \<Rightarrow> string \<Rightarrow> string \<Rightarrow> (string \<rightharpoonup> local_head) \<Rightarrow> (string \<times> bytes) list \<Rightarrow> capture_file \<Rightarrow> capture_file \<Rightarrow> bool" where
  "captured_as_asked env sha server rootID previous ps asked got \<longleftrightarrow>
    cf_path got = cf_path asked \<and> cf_previous got = cf_previous asked \<and> cf_deleted got = cf_deleted asked
    \<and> (if cf_deleted asked then cf_source got = None
       else \<exists>m content. cf_source got = Some m
         \<and> captured_from sha (se_source env (cf_path asked)) (reusable server rootID asked (previous (cf_path asked))) ps m content)"

lemma captured_as_asked_grown:
  "captured_as_asked env sha server rootID previous ps asked got \<Longrightarrow> grown ps qs \<Longrightarrow> captured_as_asked env sha server rootID previous qs asked got"
  unfolding captured_as_asked_def using captured_from_grown by (auto split: if_splits) blast+

lemma spool_files_returns:
  assumes "spool_ok sha packBytes budget sp" "1 \<le> packBytes" "\<forall>f\<in>set fs. 0 \<le> sf_size (se_source env (cf_path f))"
  shows "spool_files env sha server rootID previous packBytes i fs sp captured \<noteq> None"
  using assms
proof (induction fs arbitrary: i sp captured)
  case (Cons f fs)
  have "spool_files env sha server rootID previous packBytes (i + 1) fs sp' (captured @ [f\<lparr>cf_source := Some m\<rparr>]) \<noteq> None"
    if "capture_source env sha server rootID (previous (cf_path f)) packBytes f sp = Some (Inr (sp', m))" for sp' m
    using capture_source_ok[OF that Cons.prems(1,2)] Cons.prems(2,3) by (intro Cons.IH) auto
  then show ?case
    using capture_source_returns[OF Cons.prems(1,2), of env server rootID "previous (cf_path f)" f] Cons.IH[OF Cons.prems(1,2)] Cons.prems(3)
    by (auto split: option.splits sum.splits)
qed simp

lemma spool_files_ok:
  assumes "spool_files env sha server rootID previous packBytes i fs sp captured = Some (Inr (sp', out))"
    and "spool_ok sha packBytes budget sp" "1 \<le> packBytes" "\<forall>f\<in>set fs. 0 \<le> sf_size (se_source env (cf_path f))" "\<forall>f\<in>set fs. cf_source f = None"
  shows "\<exists>k new. k \<le> length fs \<and> (i = 0 \<and> fs \<noteq> [] \<longrightarrow> 0 < k) \<and> out = captured @ new
    \<and> list_all2 (captured_as_asked env sha server rootID previous (files_of sp')) (take k fs) new
    \<and> spool_ok sha packBytes budget sp' \<and> grown (files_of sp) (files_of sp')"
  using assms
proof (induction fs arbitrary: i sp captured)
  case Nil
  then show ?case by (auto intro!: exI[of _ "[]"])
next
  case (Cons f fs)
  have step: "\<exists>k new. k \<le> length (f # fs) \<and> (i = 0 \<and> f # fs \<noteq> [] \<longrightarrow> 0 < k) \<and> out = captured @ new
    \<and> list_all2 (captured_as_asked env sha server rootID previous (files_of sp')) (take k (f # fs)) new
    \<and> spool_ok sha packBytes budget sp' \<and> grown (files_of sp) (files_of sp')"
    if run: "spool_files env sha server rootID previous packBytes (i + 1) fs sp1 (captured @ [g]) = Some (Inr (sp', out))"
      and ok: "spool_ok sha packBytes budget sp1" "grown (files_of sp) (files_of sp1)"
      and g: "captured_as_asked env sha server rootID previous (files_of sp1) f g" for sp1 g
  proof -
    from Cons.IH[OF run ok(1) Cons.prems(3)] Cons.prems(4,5) obtain k new where r: "k \<le> length fs" "out = (captured @ [g]) @ new"
      "list_all2 (captured_as_asked env sha server rootID previous (files_of sp')) (take k fs) new"
      "spool_ok sha packBytes budget sp'" "grown (files_of sp1) (files_of sp')" by auto
    then show ?thesis using captured_as_asked_grown[OF g r(5)] grown_trans[OF ok(2) r(5)]
      by (intro exI[of _ "Suc k"] exI[of _ "g # new"]) simp
  qed
  show ?case
  proof (cases "cf_deleted f")
    case True
    then show ?thesis using Cons.prems by (intro step[of sp f]) (auto simp: captured_as_asked_def split: option.splits)
  next
    case False
    consider (full) "out = captured" "sp' = sp" "0 < i"
      | (next_file) sp1 m where "capture_source env sha server rootID (previous (cf_path f)) packBytes f sp = Some (Inr (sp1, m))"
        "spool_files env sha server rootID previous packBytes (i + 1) fs sp1 (captured @ [f\<lparr>cf_source := Some m\<rparr>]) = Some (Inr (sp', out))"
      using Cons.prems(1) False by (auto split: option.splits sum.splits if_splits)
    then show ?thesis
    proof cases
      case full
      then show ?thesis using Cons.prems(2) by (auto intro!: exI[of _ "0::nat"] exI[of _ "[]"])
    next
      case next_file
      from capture_source_ok[OF next_file(1) Cons.prems(2,3)] Cons.prems(4) obtain content where
        c: "captured_from sha (se_source env (cf_path f)) (reusable server rootID f (previous (cf_path f))) (files_of sp1) m content"
          "spool_ok sha packBytes budget sp1" "grown (files_of sp) (files_of sp1)" by auto
      then have "captured_as_asked env sha server rootID previous (files_of sp1) f (f\<lparr>cf_source := Some m\<rparr>)"
        using False by (auto simp: captured_as_asked_def)
      from step[OF next_file(2) c(2,3) this] show ?thesis .
    qed
  qed
qed

text \<open>What a published capture holds.\<close>

definition faithful_spool :: "spool_env \<Rightarrow> (bytes \<Rightarrow> string) \<Rightarrow> string \<Rightarrow> string \<Rightarrow> capture_file list \<Rightarrow> (string \<rightharpoonup> local_head) \<Rightarrow> int \<Rightarrow> int
    \<Rightarrow> capture_journal \<Rightarrow> (string \<times> bytes) list \<Rightarrow> bool" where
  "faithful_spool env sha server rootID files previous packBytes remainingBytes j written \<longleftrightarrow>
    cj_format j = 1 \<and> cj_server j = server \<and> cj_root j = rootID \<and> cj_accepted j = None \<and> cq_capture (cj_request j) = se_capture env
    \<and> cq_files (cj_request j) \<noteq> [] \<and> length (cq_files (cj_request j)) \<le> length files
    \<and> list_all2 (captured_as_asked env sha server rootID previous written) (take (length (cq_files (cj_request j))) files) (cq_files (cj_request j))
    \<and> cj_packs j = map (pack_of sha) written \<and> map fst written = map pack_name [0..<length written]
    \<and> (\<forall>p\<in>set written. snd p \<noteq> [] \<and> int (length (snd p)) \<le> packBytes) \<and> file_bytes written \<le> max 0 remainingBytes"

lemma spool_paths_ok_sources: "spool_paths_ok seen fs \<Longrightarrow> \<forall>f\<in>set fs. cf_source f = None"
  by (induction seen fs rule: spool_paths_ok.induct) auto

lemma finished_spool_faithful:
  assumes run: "spool_files env sha server rootID previous packBytes 0 files
             \<lparr>sp_packs = [], sp_written = [], sp_open = None, sp_state = Map.empty, sp_dirty = [], sp_left = remainingBytes\<rparr> [] = Some (Inr (sp, captured))"
    and fin: "finish_pack env sha sp = Inr sp'"
    and files: "1 \<le> packBytes" "files \<noteq> []" "spool_paths_ok [] files" "\<forall>f\<in>set files. 0 \<le> sf_size (se_source env (cf_path f))"
  shows "faithful_spool env sha server rootID files previous packBytes remainingBytes
    \<lparr>cj_format = 1, cj_server = server, cj_root = rootID, cj_request = \<lparr>cq_capture = se_capture env, cq_files = captured\<rparr>, cj_packs = sp_packs sp',
       cj_state = sp_state sp', cj_dirty = sp_dirty sp', cj_accepted = None\<rparr> (sp_written sp')"
proof -
  let ?sp0 = "\<lparr>sp_packs = [], sp_written = [], sp_open = None, sp_state = Map.empty, sp_dirty = [], sp_left = remainingBytes\<rparr>"
  have start: "spool_ok sha packBytes remainingBytes ?sp0" by (simp add: spool_ok_def files_of_def)
  obtain k where k: "k \<le> length files" "0 < k" "list_all2 (captured_as_asked env sha server rootID previous (files_of sp)) (take k files) captured"
    and ok: "spool_ok sha packBytes remainingBytes sp"
    using spool_files_ok[OF run start files(1,4) spool_paths_ok_sources[OF files(3)]] files(2) by auto
  have ok': "spool_ok sha packBytes remainingBytes sp'" by (rule finish_pack_spool_ok[OF fin ok])
  have written: "files_of sp = sp_written sp'" using finish_pack_ok[OF fin] by (auto simp: files_of_def)
  have len: "length captured = k" using k by (auto dest: list_all2_lengthD)
  have "files_of sp' = sp_written sp'" using finish_pack_ok[OF fin] by (simp add: files_of_def)
  then show ?thesis using k len ok' written by (auto simp: faithful_spool_def spool_ok_def)
qed

lemma createCaptureSpool_published:
  assumes "\<forall>f\<in>set files. 0 \<le> sf_size (se_source env (cf_path f))"
  shows "\<exists>result published. createCaptureSpool env sha server rootID files previous packBytes remainingBytes = Some (result, published)
    \<and> (\<forall>n. result = Inr n \<longrightarrow> (\<exists>j written. published = Some (j, written) \<and> length (cq_files (cj_request j)) = n))
    \<and> (\<forall>j written. published = Some (j, written) \<longrightarrow> faithful_spool env sha server rootID files previous packBytes remainingBytes j written)"
proof (cases "server = [] \<or> rootID = [] \<or> length files < 1 \<or> length files > 128 \<or> packBytes < 1 \<or> packBytes > maxPackBytes \<or> \<not> spool_paths_ok [] files \<or> se_dir env \<noteq> None")
  case True
  then show ?thesis by (auto simp: createCaptureSpool_def split: option.splits)
next
  case False
  let ?sp0 = "\<lparr>sp_packs = [], sp_written = [], sp_open = None, sp_state = Map.empty, sp_dirty = [], sp_left = remainingBytes\<rparr>"
  have inputs: "1 \<le> packBytes" "files \<noteq> []" "spool_paths_ok [] files" using False by auto
  have start: "spool_ok sha packBytes remainingBytes ?sp0" by (simp add: spool_ok_def files_of_def)
  obtain r where r: "spool_files env sha server rootID previous packBytes 0 files ?sp0 [] = Some r"
    using spool_files_returns[OF start inputs(1) assms] by fast
  show ?thesis
  proof (cases "\<exists>sp captured sp'. r = Inr (sp, captured) \<and> finish_pack env sha sp = Inr sp'")
    case True
    then obtain sp captured sp' where c: "r = Inr (sp, captured)" "finish_pack env sha sp = Inr sp'" by blast
    note faithful = finished_spool_faithful[OF r[unfolded c(1)] c(2) inputs assms]
    show ?thesis using False r c faithful by (auto simp: createCaptureSpool_def Let_def split: option.splits save_outcome.splits)
  next
    case nothing: False
    then show ?thesis using False r by (auto simp: createCaptureSpool_def split: option.splits sum.splits)
  qed
qed

text \<open>
  C11: creating a spool returns, and what it publishes is faithful.  The journal is published only after
  every pack is complete; its request is a non-empty prefix of the files asked for, in order; each
  manifest describes exactly the bytes that one reading of the file delivered, of the size observed at
  the start, with their hash, in packs that are no longer than allowed and recorded with their size and
  digest, after the extents of the previous version only if the file still begins with bytes of
  the previous hash; and the packs use no more bytes than were left.
\<close>

theorem createCaptureSpool_faithful:
  assumes "\<forall>f\<in>set files. 0 \<le> sf_size (se_source env (cf_path f))"
  shows "\<exists>result published. createCaptureSpool env sha server rootID files previous packBytes remainingBytes = Some (result, published)
    \<and> (\<forall>n. result = Inr n \<longrightarrow> (\<exists>j written. published = Some (j, written) \<and> length (cq_files (cj_request j)) = n))
    \<and> (\<forall>j written. published = Some (j, written) \<longrightarrow> faithful_spool env sha server rootID files previous packBytes remainingBytes j written)"
  using assms by (rule createCaptureSpool_published)

section \<open>Names of packs\<close>

definition number :: "string \<Rightarrow> nat" where
  "number s = foldl (\<lambda>n c. 10 * n + (of_char c - 48)) 0 s"

lemma number_digit: "d < 10 \<Longrightarrow> of_char (digit d) = 48 + d"
proof -
  have "list_all (\<lambda>d. of_char (digit d) = 48 + d) [0..<10]" by code_simp
  then show "d < 10 \<Longrightarrow> of_char (digit d) = 48 + d" by (simp add: list_all_iff)
qed

lemma number_snoc: "number (s @ [c]) = 10 * number s + (of_char c - 48)"
  by (simp add: number_def)

lemma number_show_nat: "number (show_nat n) = n"
proof (induction n rule: show_nat.induct)
  case (1 n)
  have digit: "d < 10 \<Longrightarrow> of_char (digit d) - 48 = d" for d by (simp add: number_digit)
  show ?case
  proof (cases "n < 10")
    case True
    then have "show_nat n = [digit n]" by (subst show_nat.simps) simp
    then show ?thesis using True by (simp add: number_def digit)
  next
    case False
    then have "show_nat n = show_nat (n div 10) @ [digit (n mod 10)]" by (subst show_nat.simps) simp
    then show ?thesis using 1 False by (simp add: number_snoc digit)
  qed
qed

lemma number_zeros: "number (replicate k (CHR ''0'') @ s) = number s"
  by (induction k) (simp_all add: number_def)

lemma pack_name_number: "number (drop 5 (pack_name n)) = n"
  by (simp add: pack_name_def number_zeros number_show_nat)

lemma pack_name_inj: "pack_name m = pack_name n \<Longrightarrow> m = n"
  using pack_name_number by metis

lemma pack_name_free: "c \<notin> set ''pack-'' \<Longrightarrow> c \<notin> set ''0123456789'' \<Longrightarrow> c \<notin> set (pack_name n)"
  using show_nat_free[of c n] by (simp add: pack_name_def)

lemma pack_names_distinct: "map fst written = map pack_name [0..<length written] \<Longrightarrow> distinct (map fst written)"
  using pack_name_inj by (simp add: distinct_map inj_on_def)

lemma plain_name_local:
  assumes "CHR ''/'' \<notin> set p" "p \<noteq> []" "p \<noteq> ''.''" "p \<noteq> ''..''"
  shows "is_local p \<and> base_name p = p"
proof -
  have "hd p \<noteq> CHR ''/''" using assms(1,2) hd_in_set by metis
  moreover have "\<not> has_prefix p ''../''" using assms(1) by (auto simp: has_prefix_iff)
  moreover have "last p \<noteq> CHR ''/''" using assms(1,2) last_in_set by metis
  then have "dropWhile (\<lambda>c. c = CHR ''/'') (rev p) = rev p" using assms(2) by (simp add: dropWhile_eq_self_iff hd_rev)
  ultimately show ?thesis using assms by (simp add: is_local_def base_name_def split_on_free)
qed

lemma pack_name_ok: "is_local (pack_name n) \<and> base_name (pack_name n) = pack_name n \<and> pack_name n \<noteq> ''journal.json'' \<and> \<not> has_prefix (pack_name n) ''.''"
proof -
  have free: "CHR ''/'' \<notin> set (pack_name n)" "CHR ''.'' \<notin> set (pack_name n)" by (rule pack_name_free; simp)+
  have hd: "pack_name n = CHR ''p'' # drop 1 (pack_name n)" by (simp add: pack_name_def)
  have "p \<noteq> ''journal.json'' \<and> \<not> has_prefix p ''.'' \<and> p \<noteq> [] \<and> p \<noteq> ''.'' \<and> p \<noteq> ''..''" if "p = CHR ''p'' # q" for p q :: string
    using that by simp
  from this[OF hd] show ?thesis using plain_name_local[OF free(1)] by simp
qed

section \<open>Resolved requests read back the captured bytes\<close>

lemma journal_packs_found:
  assumes "\<forall>p\<in>set ps. journal_pack_ok p" "distinct (map jp_name ps)" "\<forall>p\<in>set ps. packs (''local:'' @ jp_name p) = None"
  shows "\<exists>m. journal_packs ps packs = Inr m \<and> (\<forall>p\<in>set ps. m (''local:'' @ jp_name p) = Some p)
    \<and> (\<forall>k. k \<notin> (\<lambda>p. ''local:'' @ jp_name p) ` set ps \<longrightarrow> m k = packs k)"
  using assms
proof (induction ps arbitrary: packs)
  case (Cons p ps)
  let ?packs = "packs(''local:'' @ jp_name p \<mapsto> p)"
  have "jp_name p \<notin> jp_name ` set ps" using Cons.prems(2) by simp
  then have fresh: "\<forall>q\<in>set ps. jp_name q \<noteq> jp_name p" by (metis imageI)
  have ok: "\<forall>q\<in>set ps. journal_pack_ok q" "distinct (map jp_name ps)" using Cons.prems(1,2) by simp_all
  have none: "\<forall>q\<in>set ps. ?packs (''local:'' @ jp_name q) = None" using Cons.prems(3) fresh by auto
  from Cons.IH[OF ok none] obtain m where m: "journal_packs ps ?packs = Inr m" "\<forall>p\<in>set ps. m (''local:'' @ jp_name p) = Some p"
      "\<forall>k. k \<notin> (\<lambda>p. ''local:'' @ jp_name p) ` set ps \<longrightarrow> m k = ?packs k" by blast
  have "''local:'' @ jp_name p \<notin> (\<lambda>p. ''local:'' @ jp_name p) ` set ps" using fresh by auto
  then have found: "m (''local:'' @ jp_name p) = Some p" using m(3) by simp
  have "journal_packs (p # ps) packs = Inr m" using m(1) Cons.prems by simp
  then show ?case using m(2,3) found by (intro exI[of _ m]) simp
qed simp

definition completed :: "(string \<Rightarrow> string) \<Rightarrow> capture_journal \<Rightarrow> capture_journal" where
  "completed key j = j\<lparr>cj_packs := map (\<lambda>p. p\<lparr>jp_key := key (jp_name p), jp_complete := True\<rparr>) (cj_packs j)\<rparr>"

text \<open>What a store answers for an extent.\<close>

abbreviation fetch_extent :: "(string \<Rightarrow> int \<Rightarrow> int \<Rightarrow> bytes) \<Rightarrow> source_extent \<Rightarrow> bytes" where
  "fetch_extent fetch e \<equiv> fetch (object_key e) (offset e) (extent_length e)"

definition serves_packs :: "(string \<Rightarrow> string) \<Rightarrow> (string \<times> bytes) list \<Rightarrow> (string \<Rightarrow> int \<Rightarrow> int \<Rightarrow> bytes) \<Rightarrow> bool" where
  "serves_packs key written fetch \<longleftrightarrow> (\<forall>(name, content)\<in>set written. \<forall>off len. 0 \<le> off \<and> 0 < len \<and> off + len \<le> int (length content) \<longrightarrow>
     fetch (key name) off len = take (nat len) (drop (nat off) content))"

lemma resolve_local:
  assumes "holds written e bs" "\<forall>p\<in>set written. packs (''local:'' @ fst p) = Some ((pack_of sha p)\<lparr>jp_key := key (fst p), jp_complete := True\<rparr>)"
    and "\<forall>name. key name \<noteq> []" "serves_packs key written fetch"
  shows "\<exists>e'. resolve_extent packs e = Inr e' \<and> fetch_extent fetch e' = bs \<and> object_key e' \<noteq> [] \<and> offset e' = offset e \<and> extent_length e' = extent_length e"
proof -
  obtain name content where e: "object_key e = ''local:'' @ name" "(name, content) \<in> set written" "0 \<le> offset e" "0 < extent_length e"
    "offset e + extent_length e \<le> int (length content)" "bs = take (nat (extent_length e)) (drop (nat (offset e)) content)"
    using assms(1) by (auto simp: holds_def)
  have "packs (object_key e) = Some ((pack_of sha (name, content))\<lparr>jp_key := key name, jp_complete := True\<rparr>)"
    using assms(2) e(1,2) by force
  then have "resolve_extent packs e = Inr (e\<lparr>object_key := key name\<rparr>)"
    using e assms(3) by (simp add: resolve_extent_def pack_of_def)
  moreover have "fetch (key name) (offset e) (extent_length e) = bs"
    using assms(4) e by (auto simp: serves_packs_def)
  ultimately show ?thesis using assms(3) by auto
qed

lemma resolve_locals:
  assumes "list_all2 (holds written) es slices" "\<forall>p\<in>set written. packs (''local:'' @ fst p) = Some ((pack_of sha p)\<lparr>jp_key := key (fst p), jp_complete := True\<rparr>)"
    and "\<forall>name. key name \<noteq> []" "serves_packs key written fetch"
  shows "\<exists>es'. try_map (resolve_extent packs) es = Inr es' \<and> map (fetch_extent fetch) es' = slices
    \<and> list_all2 (\<lambda>e e'. object_key e' \<noteq> [] \<and> offset e' = offset e \<and> extent_length e' = extent_length e) es es'"
  using assms(1)
proof (induction es slices rule: list_all2_induct)
  case (Cons e es bs slices)
  obtain e' where "resolve_extent packs e = Inr e'" "fetch_extent fetch e' = bs" "object_key e' \<noteq> []" "offset e' = offset e" "extent_length e' = extent_length e"
    using resolve_local[OF Cons(1) assms(2-4)] by blast
  moreover obtain es' where "try_map (resolve_extent packs) es = Inr es'" "map (fetch_extent fetch) es' = slices"
      "list_all2 (\<lambda>e e'. object_key e' \<noteq> [] \<and> offset e' = offset e \<and> extent_length e' = extent_length e) es es'"
    using Cons(3) by blast
  ultimately show ?case by (intro exI[of _ "e' # es'"]) simp
qed simp

lemma resolve_remotes:
  "\<forall>e\<in>set es. \<not> has_prefix (object_key e) ''local:'' \<Longrightarrow> try_map (resolve_extent packs) es = Inr es"
  by (induction es) (auto simp: resolve_extent_def)

lemma try_map_append:
  "try_map f xs = Inr ys \<Longrightarrow> try_map f xs' = Inr ys' \<Longrightarrow> try_map f (xs @ xs') = Inr (ys @ ys')"
  by (induction xs arbitrary: ys) (auto split: sum.splits)

lemma extents_total: "list_all2 (holds ps) es slices \<Longrightarrow> (\<Sum>e\<leftarrow>es. extent_length e) = int (length (concat slices))"
  by (induction es slices rule: list_all2_induct) (auto simp: holds_length)

lemma holds_bounds: "holds ps e bs \<Longrightarrow> \<forall>p\<in>set ps. int (length (snd p)) \<le> limit \<Longrightarrow> object_key e \<noteq> [] \<and> 0 \<le> offset e \<and> 0 < extent_length e \<and> offset e + extent_length e \<le> limit"
  by (fastforce simp: holds_def)

definition hex_digests :: "(bytes \<Rightarrow> string) \<Rightarrow> bool" where
  "hex_digests sha \<longleftrightarrow> (\<forall>b. length (sha b) = 64 \<and> list_all (\<lambda>c. c \<in> set ''0123456789abcdef'') (sha b))"

lemma captured_from_valid:
  assumes "captured_from sha f prior ps m content" "hex_digests sha" "0 \<le> sf_size f" "sf_size f \<le> max_int64"
    and "\<forall>p\<in>set ps. int (length (snd p)) \<le> max_int64"
  shows "valid_manifest m"
proof -
  obtain old new prefix slices where e: "extents m = old @ new" "content = prefix @ concat slices" "list_all2 (holds ps) new slices"
    and old: "old = [] \<and> prefix = [] \<or> (\<exists>pm. prior = Some pm \<and> ValidateManifest pm = Inr () \<and> old = extents pm
             \<and> int (length prefix) = manifest_size pm \<and> ''sha256:'' @ sha prefix = content_hash pm)"
    and m: "manifest_format m = 1" "manifest_size m = sf_size f" "int (length content) = sf_size f" "content_hash m = ''sha256:'' @ sha content"
    using assms(1) unfolding captured_from_def by (elim conjE exE) (rule that, assumption+)
  have "(\<Sum>e\<leftarrow>old. extent_length e) = int (length prefix) \<and> (\<forall>e\<in>set old. object_key e \<noteq> [] \<and> 0 \<le> offset e \<and> 0 < extent_length e \<and> offset e + extent_length e \<le> max_int64)"
    using old
  proof
    assume "\<exists>pm. prior = Some pm \<and> ValidateManifest pm = Inr () \<and> old = extents pm
             \<and> int (length prefix) = manifest_size pm \<and> ''sha256:'' @ sha prefix = content_hash pm"
    then obtain pm where pm: "ValidateManifest pm = Inr ()" "old = extents pm" "int (length prefix) = manifest_size pm" by blast
    have "int (length prefix) \<le> max_int64" using m(3) e(2) assms(4) by simp
    then have "valid_manifest pm" using pm ValidateManifest_valid[of pm] by (simp add: int64_def)
    then show ?thesis using pm by (auto simp: valid_manifest_def)
  qed simp
  moreover have "\<forall>e\<in>set new. object_key e \<noteq> [] \<and> 0 \<le> offset e \<and> 0 < extent_length e \<and> offset e + extent_length e \<le> max_int64"
    using e(3) holds_bounds[OF _ assms(5)] by (fastforce simp: list_all2_conv_all_nth in_set_conv_nth)
  ultimately show ?thesis using extents_total[OF e(3)] e m assms(2,3) unfolding valid_manifest_def hex_digests_def
    by (auto intro: exI[of _ "sha content"])
qed

lemma valid_manifest_rekeyed:
  assumes "valid_manifest m" "list_all2 (\<lambda>e e'. object_key e' \<noteq> [] \<and> offset e' = offset e \<and> extent_length e' = extent_length e) (extents m) es"
  shows "valid_manifest (m\<lparr>extents := es\<rparr>)"
proof -
  have "(\<Sum>e\<leftarrow>es. extent_length e) = (\<Sum>e\<leftarrow>extents m. extent_length e)"
    using assms(2) by (induction rule: list_all2_induct) auto
  moreover have "\<exists>e\<in>set (extents m). object_key e' \<noteq> [] \<and> offset e' = offset e \<and> extent_length e' = extent_length e" if "e' \<in> set es" for e'
    using assms(2) that by (induction rule: list_all2_induct) auto
  then have "\<forall>e\<in>set es. object_key e \<noteq> [] \<and> 0 \<le> offset e \<and> 0 < extent_length e \<and> offset e + extent_length e \<le> max_int64"
    using assms(1) unfolding valid_manifest_def by metis
  ultimately show ?thesis using assms(1) by (simp add: valid_manifest_def)
qed

text \<open>The heads hold manifests of stored objects: their extents are remote, and the store answers them with
  the only bytes of that length that have the recorded hash.\<close>

definition earlier_stored :: "(bytes \<Rightarrow> string) \<Rightarrow> (string \<Rightarrow> int \<Rightarrow> int \<Rightarrow> bytes) \<Rightarrow> source_manifest \<Rightarrow> bool" where
  "earlier_stored sha fetch m \<longleftrightarrow> (\<forall>e\<in>set (extents m). \<not> has_prefix (object_key e) ''local:'')
    \<and> (\<forall>b. int (length b) = manifest_size m \<and> ''sha256:'' @ sha b = content_hash m \<longrightarrow> concat (map (fetch_extent fetch) (extents m)) = b)"

lemma resolve_captured:
  assumes "captured_from sha f prior written m content" "cf_source g = Some m" "\<not> cf_deleted g"
    and "hex_digests sha" "0 \<le> sf_size f" "sf_size f \<le> max_int64" "\<forall>p\<in>set written. int (length (snd p)) \<le> max_int64"
    and packs: "\<forall>p\<in>set written. packs (''local:'' @ fst p) = Some ((pack_of sha p)\<lparr>jp_key := key (fst p), jp_complete := True\<rparr>)"
    and store: "\<forall>name. key name \<noteq> []" "serves_packs key written fetch" "\<forall>pm. prior = Some pm \<longrightarrow> earlier_stored sha fetch pm"
  shows "\<exists>m'. resolve_file packs g = Inr (g\<lparr>cf_source := Some m'\<rparr>) \<and> ValidateManifest m' = Inr () \<and> manifest_size m' = sf_size f
    \<and> content_hash m' = ''sha256:'' @ sha content \<and> concat (map (fetch_extent fetch) (extents m')) = content"
proof -
  have valid: "valid_manifest m" by (rule captured_from_valid[OF assms(1,4-7)])
  obtain old new prefix slices where e: "extents m = old @ new" "content = prefix @ concat slices" "list_all2 (holds written) new slices"
    and old: "old = [] \<and> prefix = [] \<or> (\<exists>pm. prior = Some pm \<and> ValidateManifest pm = Inr () \<and> old = extents pm
             \<and> int (length prefix) = manifest_size pm \<and> ''sha256:'' @ sha prefix = content_hash pm)"
    and m: "manifest_size m = sf_size f" "content_hash m = ''sha256:'' @ sha content"
    using assms(1) unfolding captured_from_def by (elim conjE exE) (rule that, assumption+)
  have remote: "(\<forall>e\<in>set old. \<not> has_prefix (object_key e) ''local:'') \<and> concat (map (fetch_extent fetch) old) = prefix"
    using old store(3) by (auto simp: earlier_stored_def)
  obtain new' where n: "try_map (resolve_extent packs) new = Inr new'" "map (fetch_extent fetch) new' = slices"
    "list_all2 (\<lambda>e e'. object_key e' \<noteq> [] \<and> offset e' = offset e \<and> extent_length e' = extent_length e) new new'"
    using resolve_locals[OF e(3) packs store(1,2)] by blast
  have res: "try_map (resolve_extent packs) (extents m) = Inr (old @ new')"
    using try_map_append[OF resolve_remotes n(1)] remote e(1) by simp
  have same: "list_all2 (\<lambda>e e'. object_key e' \<noteq> [] \<and> offset e' = offset e \<and> extent_length e' = extent_length e) (extents m) (old @ new')"
  proof -
    have "\<forall>x\<in>set old. object_key x \<noteq> []" using valid e(1) by (auto simp: valid_manifest_def)
    then show ?thesis unfolding e(1) by (intro list_all2_appendI n(3)) (auto simp: list_all2_conv_all_nth)
  qed
  have "int64 (manifest_size m)" using m(1) assms(5,6) by (simp add: int64_def)
  then have "ValidateManifest m = Inr ()" "ValidateManifest (m\<lparr>extents := old @ new'\<rparr>) = Inr ()"
    using valid valid_manifest_rekeyed[OF valid same] ValidateManifest_valid[of m] ValidateManifest_valid[of "m\<lparr>extents := old @ new'\<rparr>"] by simp_all
  then show ?thesis using assms(2,3) res remote n(2) m e(2)
    by (intro exI[of _ "m\<lparr>extents := old @ new'\<rparr>"]) (simp add: resolve_file_def)
qed

lemma try_map_list_all2:
  assumes "list_all2 P xs ys" "\<And>x y. P x y \<Longrightarrow> x \<in> set xs \<Longrightarrow> \<exists>z. f y = Inr z \<and> Q x z"
  shows "\<exists>zs. try_map f ys = Inr zs \<and> list_all2 Q xs zs"
  using assms
proof (induction xs ys rule: list_all2_induct)
  case (Cons x xs y ys)
  then obtain z where z: "f y = Inr z" "Q x z" by force
  obtain zs where "try_map f ys = Inr zs" "list_all2 Q xs zs" using Cons by force
  with z show ?case by (intro exI[of _ "z # zs"]) simp
qed simp

text \<open>The resolved file: the asked path over the asked version, with a manifest whose extents the store
  answers with what a reading of the file delivered.\<close>

definition resolved_as_read :: "spool_env \<Rightarrow> (bytes \<Rightarrow> string) \<Rightarrow> (string \<Rightarrow> int \<Rightarrow> int \<Rightarrow> bytes) \<Rightarrow> capture_file \<Rightarrow> capture_file \<Rightarrow> bool" where
  "resolved_as_read env sha fetch asked got \<longleftrightarrow>
    cf_path got = cf_path asked \<and> cf_previous got = cf_previous asked \<and> cf_deleted got = cf_deleted asked
    \<and> (let f = se_source env (cf_path asked) in
       if cf_deleted asked then cf_source got = None
       else \<exists>m. cf_source got = Some m \<and> ValidateManifest m = Inr () \<and> manifest_size m = sf_size f
         \<and> (\<exists>delivered\<in>{fst (sf_first f), fst (sf_again f)}. concat (map (fetch_extent fetch) (extents m)) = take (nat (sf_size f)) delivered)
         \<and> content_hash m = ''sha256:'' @ sha (concat (map (fetch_extent fetch) (extents m))))"

lemma resolve_asked:
  assumes asked: "captured_as_asked env sha server rootID previous written a g"
    and "hex_digests sha" "0 \<le> sf_size (se_source env (cf_path a))" "sf_size (se_source env (cf_path a)) \<le> max_int64" "\<forall>p\<in>set written. int (length (snd p)) \<le> max_int64"
    and packs: "\<forall>p\<in>set written. packs (''local:'' @ fst p) = Some ((pack_of sha p)\<lparr>jp_key := key (fst p), jp_complete := True\<rparr>)"
    and store: "\<forall>name. key name \<noteq> []" "serves_packs key written fetch" "\<forall>h m. previous (cf_path a) = Some h \<and> lh_source h = Some m \<longrightarrow> earlier_stored sha fetch m"
  shows "\<exists>g'. resolve_file packs g = Inr g' \<and> resolved_as_read env sha fetch a g'"
proof (cases "cf_deleted a")
  case True
  then show ?thesis using asked by (auto simp: captured_as_asked_def resolve_file_def resolved_as_read_def)
next
  case False
  then obtain m content where m: "cf_source g = Some m"
    and c: "captured_from sha (se_source env (cf_path a)) (reusable server rootID a (previous (cf_path a))) written m content"
    and g: "cf_path g = cf_path a" "cf_previous g = cf_previous a" "\<not> cf_deleted g"
    using asked by (auto simp: captured_as_asked_def)
  have prior: "\<forall>pm. reusable server rootID a (previous (cf_path a)) = Some pm \<longrightarrow> earlier_stored sha fetch pm"
    using store(3) by (auto simp: reusable_def split: option.splits if_splits)
  obtain m' where r: "resolve_file packs g = Inr (g\<lparr>cf_source := Some m'\<rparr>)" "ValidateManifest m' = Inr ()" "manifest_size m' = sf_size (se_source env (cf_path a))"
      "content_hash m' = ''sha256:'' @ sha content" "concat (map (fetch_extent fetch) (extents m')) = content"
    using resolve_captured[OF c m g(3) assms(2-6) store(1,2) prior] by blast
  have "\<exists>delivered\<in>{fst (sf_first (se_source env (cf_path a))), fst (sf_again (se_source env (cf_path a)))}. content = take (nat (sf_size (se_source env (cf_path a)))) delivered"
    using c unfolding captured_from_def by (elim conjE)
  then show ?thesis using r g False by (intro exI[of _ "g\<lparr>cf_source := Some m'\<rparr>"]) (simp add: resolved_as_read_def Let_def)
qed

text \<open>
  C1: captured bytes survive the upload.  Once every pack of a published capture is complete, its
  journal resolves to a request for the same files over the same previous versions; the manifests
  pass validation, and reading their extents from a store that holds the packs under their keys
  gives exactly the bytes one reading of each file delivered, with the recorded hash.  For reused extents of an
  earlier version the store must hold the only bytes of that hash.
\<close>

theorem resolved_capture_exact:
  assumes run: "createCaptureSpool env sha server rootID files previous packBytes remainingBytes = Some (result, Some (j, written))"
    and sizes: "\<forall>f\<in>set files. 0 \<le> sf_size (se_source env (cf_path f)) \<and> sf_size (se_source env (cf_path f)) \<le> max_int64"
    and sha: "hex_digests sha" and ids: "se_capture env \<noteq> []" "\<forall>name. key name \<noteq> []"
    and store: "serves_packs key written fetch" "\<forall>p h m. previous p = Some h \<and> lh_source h = Some m \<longrightarrow> earlier_stored sha fetch m"
  shows "\<exists>req. resolvedCaptureRequest (completed key j) = Inr req \<and> cq_capture req = cq_capture (cj_request j) \<and> cq_files req \<noteq> []
    \<and> list_all2 (resolved_as_read env sha fetch) (take (length (cq_files req)) files) (cq_files req)"
proof -
  have f: "faithful_spool env sha server rootID files previous packBytes remainingBytes j written"
    using createCaptureSpool_published[of files env sha server rootID previous packBytes remainingBytes] run sizes by auto
  have inputs: "server \<noteq> []" "rootID \<noteq> []" "length files \<le> 128" "packBytes \<le> maxPackBytes"
    using run by (auto simp: createCaptureSpool_def split: if_splits)
  let ?files = "cq_files (cj_request j)" and ?done = "\<lambda>p. (pack_of sha p)\<lparr>jp_key := key (fst p), jp_complete := True\<rparr>"
  have short: "\<forall>p\<in>set written. int (length (snd p)) \<le> maxPackBytes" "\<forall>p\<in>set written. int (length (snd p)) \<le> max_int64"
    using f inputs(4) by (auto simp: faithful_spool_def maxPackBytes_def)
  have names: "\<forall>p\<in>set written. \<exists>n. fst p = pack_name n"
  proof
    fix p assume "p \<in> set written"
    then have "fst p \<in> set (map pack_name [0..<length written])" using f unfolding faithful_spool_def by (metis image_eqI set_map)
    then show "\<exists>n. fst p = pack_name n" by auto
  qed
  have packs: "cj_packs (completed key j) = map ?done written" using f by (simp add: completed_def faithful_spool_def pack_of_def comp_def)
  have ok: "\<forall>p\<in>set (map ?done written). journal_pack_ok p"
  proof
    fix q assume "q \<in> set (map ?done written)"
    then obtain p n where p: "p \<in> set written" "q = ?done p" "fst p = pack_name n" using names by auto
    then have "snd p \<noteq> []" using f by (auto simp: faithful_spool_def)
    then have "1 \<le> length (snd p)" by (cases "snd p") auto
    then show "journal_pack_ok q" using p short(1) pack_name_ok[of n] by (simp add: journal_pack_ok_def pack_of_def)
  qed
  have distinct: "distinct (map jp_name (map ?done written))"
    using pack_names_distinct[of written] f by (simp add: faithful_spool_def pack_of_def comp_def)
  obtain pm where pm: "journal_packs (map ?done written) Map.empty = Inr pm" "\<forall>p\<in>set (map ?done written). pm (''local:'' @ jp_name p) = Some p"
    using journal_packs_found[OF ok distinct, of Map.empty] by auto
  then have found: "\<forall>p\<in>set written. pm (''local:'' @ fst p) = Some (?done p)" by (simp add: pack_of_def)
  have asked: "list_all2 (captured_as_asked env sha server rootID previous written) (take (length ?files) files) ?files"
    using f by (simp add: faithful_spool_def)
  have "\<exists>zs. try_map (resolve_file pm) ?files = Inr zs \<and> list_all2 (resolved_as_read env sha fetch) (take (length ?files) files) zs"
  proof (rule try_map_list_all2[OF asked])
    fix a g assume a: "captured_as_asked env sha server rootID previous written a g" "a \<in> set (take (length ?files) files)"
    have "a \<in> set files" using a(2) by (rule in_set_takeD)
    then show "\<exists>z. resolve_file pm g = Inr z \<and> resolved_as_read env sha fetch a z"
      using sizes store(2) by (intro resolve_asked[OF a(1) sha _ _ short(2) found ids(2) store(1)]) auto
  qed
  then obtain zs where zs: "try_map (resolve_file pm) ?files = Inr zs" "list_all2 (resolved_as_read env sha fetch) (take (length ?files) files) zs" by blast
  have len: "length zs = length ?files" using try_map_length[OF zs(1)] .
  have "resolvedCaptureRequest (completed key j) = Inr ((cj_request j)\<lparr>cq_files := zs\<rparr>)"
    using f inputs ids(1) zs(1) pm(1) packs unfolding resolvedCaptureRequest_def by (auto simp: completed_def comp_def faithful_spool_def Suc_le_eq)
  then show ?thesis using f zs(2) len by (intro exI[of _ "(cj_request j)\<lparr>cq_files := zs\<rparr>"]) (auto simp: faithful_spool_def)
qed

section \<open>A concrete capture\<close>

definition sample_sha :: "bytes \<Rightarrow> string" where
  "sample_sha b = replicate 64 (if b = ''ab'' then CHR ''a'' else CHR ''b'')"

definition earlier_manifest :: source_manifest where
  "earlier_manifest = \<lparr>manifest_format = 1, content_hash = ''sha256:'' @ replicate 64 (CHR ''a''), manifest_size = 2,
     extents = [\<lparr>object_key = ''k0'', offset = 0, extent_length = 2\<rparr>]\<rparr>"

definition earlier_head :: local_head where
  "earlier_head = \<lparr>lh_server = ''s'', lh_root = ''r1'', lh_path = ''a.txt'', lh_version = \<lparr>rv_file = ''f1'', rv_version = ''v1'', rv_sequence = 1,
     rv_extraction = ''e1'', rv_work = ''w1'', rv_stage = ''index''\<rparr>, lh_source = Some earlier_manifest, lh_deleted = False,
     lh_state = \<lparr>fs_size = 2, fs_hash = content_hash earlier_manifest, fs_mtime = 0\<rparr>, lh_dirty = False\<rparr>"

definition sample_heads :: "string \<rightharpoonup> local_head" where
  "sample_heads p = (if p = ''a.txt'' then Some earlier_head else None)"

definition sample_spool_env :: spool_env where
  "sample_spool_env = \<lparr>se_dir = None, se_capture = ''c1'', se_source = (\<lambda>p. \<lparr>sf_open = None, sf_regular = True, sf_size = 5, sf_mtime = 7,
       sf_first = (''abcdef'', None), sf_seek = None, sf_again = (''abcdef'', None), sf_moved = True\<rparr>),
     se_cancelled = (\<lambda>_. None), se_create = (\<lambda>_. None), se_write = (\<lambda>_ _. None), se_finish = (\<lambda>_. None), se_save = Saved, se_parent = None\<rparr>"

definition sample_asked :: "capture_file list" where
  "sample_asked = [\<lparr>cf_path = ''a.txt'', cf_previous = ''v1'', cf_deleted = False, cf_source = None\<rparr>,
     \<lparr>cf_path = ''b.txt'', cf_previous = ''v2'', cf_deleted = True, cf_source = None\<rparr>]"

definition sample_spool :: "((spool_error + nat) \<times> (capture_journal \<times> (string \<times> bytes) list) option) option" where
  "sample_spool = createCaptureSpool sample_spool_env sample_sha ''s'' ''r1'' sample_asked sample_heads 2 3"

declare copy_loop.simps [code]

lemma sample_spool_packs: "map_option (\<lambda>(r, p). (r, map_option snd p)) sample_spool = Some (Inr 2, Some [(''pack-000000'', ''cd''), (''pack-000001'', ''e'')])"
  by code_simp

lemma sample_spool_Some:
  obtains j where "sample_spool = Some (Inr 2, Some (j, [(''pack-000000'', ''cd''), (''pack-000001'', ''e'')]))"
  using sample_spool_packs by (auto simp: map_option_case split: option.splits)

theorem createCaptureSpool_faithful_witness:
  "\<exists>j. sample_spool = Some (Inr 2, Some (j, [(''pack-000000'', ''cd''), (''pack-000001'', ''e'')]))
    \<and> faithful_spool sample_spool_env sample_sha ''s'' ''r1'' sample_asked sample_heads 2 3 j [(''pack-000000'', ''cd''), (''pack-000001'', ''e'')]"
proof -
  obtain j where j: "sample_spool = Some (Inr 2, Some (j, [(''pack-000000'', ''cd''), (''pack-000001'', ''e'')]))" by (rule sample_spool_Some)
  have "\<forall>f\<in>set sample_asked. 0 \<le> sf_size (se_source sample_spool_env (cf_path f))" by (simp add: sample_spool_env_def)
  from createCaptureSpool_faithful[OF this, of sample_sha "''s''" "''r1''" sample_heads 2 3] j show ?thesis
    unfolding sample_spool_def by auto
qed

definition sample_fetch :: "string \<Rightarrow> int \<Rightarrow> int \<Rightarrow> bytes" where
  "sample_fetch k off len = take (nat len) (drop (nat off) (if k = ''k0'' then ''ab'' else if k = ''kpack-000000'' then ''cd'' else ''e''))"

theorem resolved_capture_exact_witness:
  "\<exists>j req. sample_spool = Some (Inr 2, Some (j, [(''pack-000000'', ''cd''), (''pack-000001'', ''e'')]))
    \<and> resolvedCaptureRequest (completed (\<lambda>n. CHR ''k'' # n) j) = Inr req
    \<and> list_all2 (resolved_as_read sample_spool_env sample_sha sample_fetch) (take (length (cq_files req)) sample_asked) (cq_files req)"
proof -
  obtain j where j: "sample_spool = Some (Inr 2, Some (j, [(''pack-000000'', ''cd''), (''pack-000001'', ''e'')]))" by (rule sample_spool_Some)
  have sizes: "\<forall>f\<in>set sample_asked. 0 \<le> sf_size (se_source sample_spool_env (cf_path f)) \<and> sf_size (se_source sample_spool_env (cf_path f)) \<le> max_int64"
    by (simp add: sample_spool_env_def)
  have sha: "hex_digests sample_sha" by (simp add: hex_digests_def sample_sha_def list_all_iff)
  have served: "serves_packs (\<lambda>n. CHR ''k'' # n) [(''pack-000000'', ''cd''), (''pack-000001'', ''e'')] sample_fetch"
    by (simp add: serves_packs_def sample_fetch_def)
  have earlier: "\<forall>p h m. sample_heads p = Some h \<and> lh_source h = Some m \<longrightarrow> earlier_stored sample_sha sample_fetch m"
    by (auto simp: sample_heads_def earlier_head_def earlier_manifest_def earlier_stored_def sample_fetch_def sample_sha_def split: if_splits)
  have "se_capture sample_spool_env \<noteq> []" by (simp add: sample_spool_env_def)
  from resolved_capture_exact[OF j[unfolded sample_spool_def] sizes sha this _ served earlier] j show ?thesis by auto
qed

end
