(* ===== verification/Capture_Journal.thy ===== *)
theory Capture_Journal
  imports Capture_Spool Source_Uploads
begin

text \<open>
  Submitting a capture: \<^verbatim>\<open>capture_client.go\<close>, \<^verbatim>\<open>capture_multipart.go\<close>, the uploading half of
  \<^verbatim>\<open>capture_journal.go\<close> and \<^verbatim>\<open>capture_source_expiry.go\<close>.  What the server and the object store answer to
  the calls of one transfer is a parameter record, so a transfer is a function of the answers it gets,
  whatever other transfers do meanwhile; each transfer owns its pack.  A transfer is a step on its pack
  with the list of the events that others can see: a journal saved with the pack, bytes sent to
  the store, and a confirmation received.  JSON bodies are given as the fields the code reads.
\<close>

section \<open>Steps\<close>

datatype api_error = ApiStatus nat string "string list" | ApiFailed

datatype upload_error =
    ApiFailure api_error
  | Cancelled
  | BadPack
  | SaveFailed
  | PackFileChanged
  | BadGrant
  | GrantChanged
  | UploadStatus
  | BadCompletion
  | BadRequestID
  | CannotRestart
  | BadParts
  | BadConcurrency
  | JournalMismatch
  | JournalRejected journal_error
  | CaptureConflict string
  | BadAcceptance
  | NoRetainedPack
  | RetryExhausted
  | CaptureBusy

datatype upload_event = SavedPack journal_pack | SentBytes string int bytes | ConfirmedKey string

record upload_state =
  us_pack :: journal_pack
  us_memory :: journal_pack
  us_events :: "upload_event list"

type_synonym 'a upload_step = "upload_state \<Rightarrow> (upload_error + 'a) \<times> upload_state"

definition give :: "'a \<Rightarrow> 'a upload_step" where
  "give x s = (Inr x, s)"

definition stop :: "upload_error \<Rightarrow> 'a upload_step" where
  "stop e s = (Inl e, s)"

definition then_do :: "'a upload_step \<Rightarrow> ('a \<Rightarrow> 'b upload_step) \<Rightarrow> 'b upload_step" where
  "then_do m f s = (case m s of (Inl e, s') \<Rightarrow> (Inl e, s') | (Inr x, s') \<Rightarrow> f x s')"

definition ensure :: "bool \<Rightarrow> upload_error \<Rightarrow> unit upload_step" where
  "ensure b e = (if b then give () else stop e)"

definition get_pack :: "journal_pack upload_step" where
  "get_pack s = (Inr (us_pack s), s)"

definition set_pack :: "(journal_pack \<Rightarrow> journal_pack) \<Rightarrow> unit upload_step" where
  "set_pack f s = (Inr (), s\<lparr>us_pack := f (us_pack s)\<rparr>)"

definition emit :: "upload_event \<Rightarrow> unit upload_step" where
  "emit e s = (Inr (), s\<lparr>us_events := us_events s @ [e]\<rparr>)"

text \<open>The answers to one transfer; \<open>ua_file\<close> is the pack file if it is a regular file that can be read.\<close>

record upload_env =
  ua_cancelled :: bool
  ua_file :: "bytes option"
  ua_save :: "nat \<Rightarrow> bool"
  ua_confirm :: "api_error + string \<times> string"
  ua_init :: "api_error + string \<times> bool \<times> bool"
  ua_put :: "nat option"
  ua_complete :: "api_error + string \<times> string"
  ua_uuid :: "nat \<Rightarrow> string"
  ua_uuid_ok :: "string \<Rightarrow> bool"
  ua_minit :: "nat \<Rightarrow> api_error + multipart_init"
  ua_order :: "int list"
  ua_part :: "int \<Rightarrow> api_error + bool \<times> int"
  ua_put_part :: "int \<Rightarrow> nat option \<times> string"
  ua_mcomplete :: "api_error + string \<times> string"

text \<open>The closure \<open>save\<close> of \<^verbatim>\<open>uploadCapturePacks\<close>: the shared journal takes a copy of the pack and is written.\<close>

definition save_pack :: "upload_env \<Rightarrow> unit upload_step" where
  "save_pack env s =
    (let s' = s\<lparr>us_memory := us_pack s\<rparr> in
     if ua_save env (length (us_events s)) then emit (SavedPack (us_pack s)) s' else (Inl SaveFailed, s'))"

section \<open>Packs sent in one request\<close>

text \<open>The answer to the request for an upload: the key, whether a URL was given, and whether the upload may
  not replace an object.\<close>

definition initSourcePack :: "api_error + string \<times> bool \<times> bool \<Rightarrow> int \<Rightarrow> string \<Rightarrow> string upload_step" where
  "initSourcePack answer sz existingKey =
    then_do (ensure (\<not> (sz < 1 \<or> sz > maxPackBytes)) BadPack) (\<lambda>_.
      case answer of
        Inl e \<Rightarrow> stop (ApiFailure e)
      | Inr (key, hasURL, immutable) \<Rightarrow>
         then_do (ensure (key \<noteq> [] \<and> hasURL \<and> immutable) BadGrant) (\<lambda>_.
         then_do (ensure (existingKey = [] \<or> key = existingKey) GrantChanged) (\<lambda>_. give key)))"

definition putSourcePack :: "nat option \<Rightarrow> string \<Rightarrow> bytes \<Rightarrow> int \<Rightarrow> unit upload_step" where
  "putSourcePack status key file sz =
    then_do (ensure (\<not> (sz < 1 \<or> sz > maxPackBytes)) BadPack) (\<lambda>_.
    then_do (emit (SentBytes key 0 (take (nat sz) file))) (\<lambda>_.
      case status of
        None \<Rightarrow> stop (ApiFailure ApiFailed)
      | Some n \<Rightarrow> ensure (n = 412 \<or> 200 \<le> n \<and> n < 300) UploadStatus))"

definition completeSourcePack :: "api_error + string \<times> string \<Rightarrow> string \<Rightarrow> unit upload_step" where
  "completeSourcePack answer key = (case answer of
      Inl e \<Rightarrow> stop (ApiFailure e)
    | Inr (k, status) \<Rightarrow> then_do (ensure (k = key \<and> status = ''complete'') BadCompletion) (\<lambda>_. emit (ConfirmedKey key)))"

section \<open>Packs sent in parts\<close>

definition fresh_multipart :: "string \<Rightarrow> journal_multipart" where
  "fresh_multipart uuid = \<lparr>jm_request = uuid, jm_upload = [], jm_part_size = 0, jm_parts = []\<rparr>"

definition expired :: "api_error \<Rightarrow> bool" where
  "expired e \<longleftrightarrow> (\<exists>keys. e = ApiStatus 409 ''source_multipart_expired'' keys)"

lemma expired_code [code]: "expired e = (case e of ApiStatus n c _ \<Rightarrow> n = 409 \<and> c = ''source_multipart_expired'' | ApiFailed \<Rightarrow> False)"
  by (auto simp: expired_def split: api_error.splits)

text \<open>The two attempts to open a session.\<close>

definition multipart_session :: "upload_env \<Rightarrow> multipart_init upload_step" where
  "multipart_session env = (case ua_minit env 0 of
      Inr i \<Rightarrow> give i
    | Inl e \<Rightarrow>
       if \<not> expired e then stop (ApiFailure e)
       else then_do get_pack (\<lambda>p.
         then_do (ensure (\<not> jp_complete p) CannotRestart) (\<lambda>_.
         then_do (set_pack (\<lambda>p. p\<lparr>jp_key := [], jp_multipart := Some (fresh_multipart (ua_uuid env 1))\<rparr>)) (\<lambda>_.
         then_do (save_pack env) (\<lambda>_.
           case ua_minit env 1 of Inr i \<Rightarrow> give i | Inl e \<Rightarrow> stop (ApiFailure e))))))"

definition session_valid :: "int \<Rightarrow> multipart_init \<Rightarrow> bool" where
  "session_valid sz i \<longleftrightarrow> mi_key i \<noteq> [] \<and> mi_upload i \<noteq> [] \<and> mi_part_size i = capturePartSize \<and> mi_parts i = part_count sz (mi_part_size i)
     \<and> 1 \<le> mi_parts i \<and> mi_parts i \<le> 8"

definition session_same :: "journal_pack \<Rightarrow> journal_multipart \<Rightarrow> multipart_init \<Rightarrow> bool" where
  "session_same p m i \<longleftrightarrow> \<not> ((jp_key p \<noteq> [] \<and> jp_key p \<noteq> mi_key i) \<or> (jm_upload m \<noteq> [] \<and> jm_upload m \<noteq> mi_upload i)
     \<or> (jm_part_size m \<noteq> 0 \<and> jm_part_size m \<noteq> mi_part_size i))"

definition parts_valid :: "journal_multipart \<Rightarrow> multipart_init \<Rightarrow> bool" where
  "parts_valid m i \<longleftrightarrow> int (length (jm_parts m)) \<le> mi_parts i \<and> distinct (map fst (jm_parts m))
     \<and> list_all (\<lambda>(n, etag). 1 \<le> n \<and> n \<le> mi_parts i \<and> etag \<noteq> []) (jm_parts m)"

definition putCapturedPart :: "nat option \<times> string \<Rightarrow> string \<Rightarrow> bytes \<Rightarrow> int \<Rightarrow> int \<Rightarrow> string upload_step" where
  "putCapturedPart answer key file off sz =
    then_do (ensure (\<not> (off < 0 \<or> sz < 1 \<or> sz > capturePartSize)) BadParts) (\<lambda>_.
    then_do (emit (SentBytes key off (take (nat sz) (drop (nat off) file)))) (\<lambda>_.
      case answer of
        (None, _) \<Rightarrow> stop (ApiFailure ApiFailed)
      | (Some n, etag) \<Rightarrow> then_do (ensure (200 \<le> n \<and> n < 300) UploadStatus) (\<lambda>_.
          then_do (ensure (\<not> (etag = [] \<or> length etag > 1024)) BadParts) (\<lambda>_. give etag))))"

definition add_part :: "int \<Rightarrow> string \<Rightarrow> journal_pack \<Rightarrow> journal_pack" where
  "add_part n etag p = p\<lparr>jp_multipart := map_option (\<lambda>m. m\<lparr>jm_parts := sort_key fst (jm_parts m @ [(n, etag)])\<rparr>) (jp_multipart p)\<rparr>"

definition upload_part :: "upload_env \<Rightarrow> bytes \<Rightarrow> int \<Rightarrow> int \<Rightarrow> unit upload_step" where
  "upload_part env file partSize n =
    then_do get_pack (\<lambda>p.
      let off = (n - 1) * partSize; sz = min partSize (jp_size p - off) in
      case ua_part env n of
        Inl e \<Rightarrow> stop (ApiFailure e)
      | Inr (hasURL, granted) \<Rightarrow>
         then_do (ensure (hasURL \<and> granted = sz) BadParts) (\<lambda>_.
         then_do (putCapturedPart (ua_put_part env n) (jp_key p) file off sz) (\<lambda>etag.
         then_do (set_pack (add_part n etag)) (\<lambda>_. save_pack env))))"

text \<open>The parts in the order in which they end; the first error is reported at the end.\<close>

fun upload_parts :: "upload_env \<Rightarrow> bytes \<Rightarrow> int \<Rightarrow> upload_error option \<Rightarrow> int list \<Rightarrow> unit upload_step" where
  "upload_parts env file partSize err [] s = (case err of None \<Rightarrow> (Inr (), s) | Some e \<Rightarrow> (Inl e, s))"
| "upload_parts env file partSize err (n # ns) s = (case upload_part env file partSize n s of
      (Inl e, s') \<Rightarrow> upload_parts env file partSize (case err of None \<Rightarrow> Some e | Some e0 \<Rightarrow> Some e0) ns s'
    | (Inr _, s') \<Rightarrow> upload_parts env file partSize err ns s')"

definition missing_parts :: "journal_multipart \<Rightarrow> multipart_init \<Rightarrow> int list" where
  "missing_parts m i = filter (\<lambda>n. n \<notin> fst ` set (jm_parts m)) [1..mi_parts i]"

definition send_missing :: "upload_env \<Rightarrow> bytes \<Rightarrow> journal_multipart \<Rightarrow> multipart_init \<Rightarrow> unit upload_step" where
  "send_missing env file m i =
    (let missing = missing_parts m i; ended = filter (\<lambda>n. n \<in> set missing) (remdups (ua_order env)) in
     upload_parts env file (mi_part_size i) (if set missing \<subseteq> set ended then None else Some Cancelled) ended)"

definition complete_multipart :: "upload_env \<Rightarrow> unit upload_step" where
  "complete_multipart env = then_do get_pack (\<lambda>p. case ua_mcomplete env of
      Inl e \<Rightarrow> stop (ApiFailure e)
    | Inr (k, status) \<Rightarrow> then_do (ensure (k = jp_key p \<and> status = ''complete'') BadCompletion) (\<lambda>_.
        then_do (emit (ConfirmedKey (jp_key p))) (\<lambda>_.
        then_do (set_pack (\<lambda>p. p\<lparr>jp_complete := True\<rparr>)) (\<lambda>_. save_pack env))))"

definition open_session :: "upload_env \<Rightarrow> multipart_init \<Rightarrow> journal_multipart \<Rightarrow> unit upload_step" where
  "open_session env i m =
    then_do (set_pack (\<lambda>p. p\<lparr>jp_key := mi_key i, jp_complete := mi_complete i,
       jp_multipart := Some (m\<lparr>jm_upload := mi_upload i, jm_part_size := mi_part_size i\<rparr>)\<rparr>)) (\<lambda>_.
    then_do (if mi_complete i then emit (ConfirmedKey (mi_key i)) else give ()) (\<lambda>_. save_pack env))"

definition uploadJournalMultipart :: "upload_env \<Rightarrow> bytes \<Rightarrow> unit upload_step" where
  "uploadJournalMultipart env file =
    then_do get_pack (\<lambda>p.
    then_do (if jp_multipart p = None then then_do (set_pack (\<lambda>p. p\<lparr>jp_multipart := Some (fresh_multipart (ua_uuid env 0))\<rparr>)) (\<lambda>_. save_pack env)
             else give ()) (\<lambda>_.
    then_do get_pack (\<lambda>p.
    then_do (ensure (case jp_multipart p of Some m \<Rightarrow> ua_uuid_ok env (jm_request m) | None \<Rightarrow> False) BadRequestID) (\<lambda>_.
    then_do (multipart_session env) (\<lambda>i.
    then_do get_pack (\<lambda>p.
      let m = (case jp_multipart p of Some m \<Rightarrow> m | None \<Rightarrow> fresh_multipart []) in
      then_do (ensure (session_valid (jp_size p) i) BadGrant) (\<lambda>_.
      then_do (ensure (session_same p m i) GrantChanged) (\<lambda>_.
      then_do (ensure (parts_valid m i) BadParts) (\<lambda>_.
      then_do (open_session env i m) (\<lambda>_.
        if mi_complete i then give ()
        else then_do (send_missing env file m i) (\<lambda>_. complete_multipart env)))))))))))"

section \<open>One transfer\<close>

definition uploadJournalPack :: "(bytes \<Rightarrow> string) \<Rightarrow> upload_env \<Rightarrow> bytes \<Rightarrow> unit upload_step" where
  "uploadJournalPack sha env file =
    then_do get_pack (\<lambda>p.
    then_do (ensure (int (length file) = jp_size p) PackFileChanged) (\<lambda>_.
    then_do (ensure (''sha256:'' @ sha file = jp_digest p) PackFileChanged) (\<lambda>_.
      if jp_multipart p \<noteq> None \<or> (jp_key p = [] \<and> jp_size p \<ge> 33554432) then uploadJournalMultipart env file
      else then_do (initSourcePack (ua_init env) (jp_size p) (jp_key p)) (\<lambda>key.
        then_do (set_pack (\<lambda>p. p\<lparr>jp_key := key\<rparr>)) (\<lambda>_.
        then_do (save_pack env) (\<lambda>_.
        then_do (putSourcePack (ua_put env) key file (jp_size p)) (\<lambda>_.
        then_do (completeSourcePack (ua_complete env) key) (\<lambda>_.
        then_do (set_pack (\<lambda>p. p\<lparr>jp_complete := True\<rparr>)) (\<lambda>_. save_pack env))))))))) "

definition retiredPackKeys :: "upload_error \<Rightarrow> string list" where
  "retiredPackKeys e = (case e of
      ApiFailure (ApiStatus n code keys) \<Rightarrow> if n = 409 \<and> code = ''source_pack_reupload_required'' then keys else []
    | _ \<Rightarrow> [])"

definition conflicting :: "upload_error \<Rightarrow> bool" where
  "conflicting e = (case e of ApiFailure (ApiStatus n code keys) \<Rightarrow> n = 409 | _ \<Rightarrow> False)"

text \<open>The closure of \<^verbatim>\<open>uploadCapturePacks\<close>: an earlier upload whose answer was lost is confirmed first.\<close>

definition transfer_pack :: "(bytes \<Rightarrow> string) \<Rightarrow> upload_env \<Rightarrow> unit upload_step" where
  "transfer_pack sha env =
    (if ua_cancelled env then stop Cancelled
     else then_do get_pack (\<lambda>p.
       then_do (ensure (journal_pack_ok p) BadPack) (\<lambda>_.
         let send = (case ua_file env of None \<Rightarrow> stop PackFileChanged | Some file \<Rightarrow> uploadJournalPack sha env file) in
         if jp_key p \<noteq> [] \<and> jp_multipart p = None then
           (\<lambda>s. case completeSourcePack (ua_confirm env) (jp_key p) s of
              (Inr _, s') \<Rightarrow> then_do (set_pack (\<lambda>p. p\<lparr>jp_complete := True\<rparr>)) (\<lambda>_. save_pack env) s'
            | (Inl e, s') \<Rightarrow> if \<not> conflicting e \<or> retiredPackKeys e \<noteq> [] then (Inl e, s') else send s')
         else send)))"

definition start_transfer :: "journal_pack \<Rightarrow> upload_state" where
  "start_transfer p = \<lparr>us_pack = p, us_memory = p, us_events = []\<rparr>"

definition transfer_result :: "(bytes \<Rightarrow> string) \<Rightarrow> upload_env \<Rightarrow> journal_pack \<Rightarrow> (upload_error + unit) \<times> upload_state" where
  "transfer_result sha env p = (if jp_complete p then (Inr (), start_transfer p) else transfer_pack sha env (start_transfer p))"

text \<open>All transfers, with the order in which they end: the group reports the first error.\<close>

definition uploadCapturePacks ::
  "(bytes \<Rightarrow> string) \<Rightarrow> bool \<Rightarrow> nat list \<Rightarrow> (nat \<Rightarrow> upload_env) \<Rightarrow> capture_journal \<Rightarrow> upload_error option \<times> capture_journal" where
  "uploadCapturePacks sha concurrencyOk order envs j =
    (if \<not> concurrencyOk then (Some BadConcurrency, j)
     else let results = map (\<lambda>(i, p). transfer_result sha (envs i) p) (enumerate 0 (cj_packs j));
              errors = List.map_filter (\<lambda>i. if i < length results then (case fst (results ! i) of Inl e \<Rightarrow> Some e | Inr _ \<Rightarrow> None) else None)
                (order @ [0..<length results])
       in (case errors of [] \<Rightarrow> None | e # _ \<Rightarrow> Some e, j\<lparr>cj_packs := map (\<lambda>r. us_memory (snd r)) results\<rparr>))"

section \<open>Resuming a capture\<close>

definition pack_matches :: "string \<Rightarrow> string \<Rightarrow> journal_pack \<Rightarrow> bool" where
  "pack_matches rootID key p \<longleftrightarrow>
    (if jp_key p = [] then (case jp_multipart p of
         None \<Rightarrow> False
       | Some m \<Rightarrow> (case split_on (CHR ''/'') key of
            [a, b, c, d, e] \<Rightarrow> a = ''sources'' \<and> c = rootID \<and> d = ''multipart'' \<and> e = jm_request m
          | _ \<Rightarrow> False))
     else jp_key p = key)"

definition first_match :: "string \<Rightarrow> journal_pack list \<Rightarrow> string \<Rightarrow> nat option" where
  "first_match rootID packs key = find (\<lambda>i. pack_matches rootID key (packs ! i)) [0..<length packs]"

definition reset_pack :: "journal_pack \<Rightarrow> journal_pack" where
  "reset_pack p = p\<lparr>jp_key := [], jp_complete := False, jp_multipart := None\<rparr>"

definition resetRetiredCapturePacks :: "bool \<Rightarrow> capture_journal \<Rightarrow> upload_error \<Rightarrow> (upload_error + bool) \<times> capture_journal" where
  "resetRetiredCapturePacks saved j cause =
    (let keys = retiredPackKeys cause; found = map (first_match (cj_root j) (cj_packs j)) keys in
     if keys = [] \<or> cj_accepted j \<noteq> None then (Inr False, j)
     else if None \<in> set found then (Inl NoRetainedPack, j)
     else let j' = j\<lparr>cj_packs := map (\<lambda>(i, p). if Some i \<in> set found then reset_pack p else p) (enumerate 0 (cj_packs j))\<rparr> in
       (if saved then Inr True else Inl SaveFailed, j'))"

definition version_accepted :: "registered_version \<Rightarrow> bool" where
  "version_accepted v \<longleftrightarrow> rv_file v \<noteq> [] \<and> rv_version v \<noteq> [] \<and> rv_sequence v \<ge> 1 \<and> rv_extraction v \<noteq> [] \<and> rv_work v \<noteq> []
     \<and> (rv_stage v = ''transform'' \<or> rv_stage v = ''index'')"

definition registerCapturedVersions :: "(capture_request \<Rightarrow> api_error + capture_accepted) \<Rightarrow> capture_request \<Rightarrow> upload_error + capture_accepted" where
  "registerCapturedVersions server input = (case server input of
      Inl e \<Rightarrow> (case e of
          ApiStatus n code _ \<Rightarrow> if n = 409 \<and> code = ''capture_version_conflict'' then Inl (CaptureConflict (cq_capture input)) else Inl (ApiFailure e)
        | ApiFailed \<Rightarrow> Inl (ApiFailure e))
    | Inr a \<Rightarrow> if ca_capture a \<noteq> cq_capture input \<or> length (ca_versions a) \<noteq> length (cq_files input) then Inl BadAcceptance
        else if \<not> list_all version_accepted (ca_versions a) then Inl BadAcceptance else Inr a)"

record resume_env =
  re_lock :: bool
  re_journal :: "capture_journal option"
  re_base :: string
  re_concurrency :: bool
  re_order :: "nat \<Rightarrow> nat list"
  re_uploads :: "nat \<Rightarrow> nat \<Rightarrow> upload_env"
  re_register :: "nat \<Rightarrow> capture_request \<Rightarrow> api_error + capture_accepted"
  re_reset_saved :: bool
  re_saved :: "nat \<Rightarrow> bool"

text \<open>One attempt: upload, resolve, register.\<close>

definition submit_attempt :: "(bytes \<Rightarrow> string) \<Rightarrow> resume_env \<Rightarrow> nat \<Rightarrow> capture_journal \<Rightarrow> (upload_error + capture_accepted) \<times> capture_journal" where
  "submit_attempt sha env k j = (case uploadCapturePacks sha (re_concurrency env) (re_order env k) (re_uploads env k) j of
      (Some e, j') \<Rightarrow> (Inl e, j')
    | (None, j') \<Rightarrow>
       (case resolvedCaptureRequest j' of
          Inl e \<Rightarrow> (Inl (JournalRejected e), j')
        | Inr request \<Rightarrow> (registerCapturedVersions (re_register env k) request, j')))"

definition accept_capture :: "resume_env \<Rightarrow> nat \<Rightarrow> capture_accepted \<Rightarrow> capture_journal \<Rightarrow> (upload_error + capture_accepted) \<times> capture_journal" where
  "accept_capture env k a j = (if re_saved env k then Inr a else Inl SaveFailed, j\<lparr>cj_accepted := Some a\<rparr>)"

text \<open>The journal is the one in memory when the function returns.\<close>

definition resumeCaptureJournal :: "(bytes \<Rightarrow> string) \<Rightarrow> resume_env \<Rightarrow> (upload_error + capture_accepted) \<times> capture_journal option" where
  "resumeCaptureJournal sha env =
    (if \<not> re_lock env then (Inl CaptureBusy, None)
     else case re_journal env of
        None \<Rightarrow> (Inl JournalMismatch, None)
      | Some j \<Rightarrow>
         if cj_server j \<noteq> re_base env \<or> cj_format j \<noteq> 1 \<or> cj_root j = [] then (Inl JournalMismatch, Some j)
         else (case cj_accepted j of
             Some a \<Rightarrow>
               if ca_capture a \<noteq> cq_capture (cj_request j) \<or> length (ca_versions a) \<noteq> length (cq_files (cj_request j)) then (Inl BadAcceptance, Some j)
               else (case resolvedCaptureRequest j of Inl e \<Rightarrow> (Inl (JournalRejected e), Some j) | Inr _ \<Rightarrow> (Inr a, Some j))
           | None \<Rightarrow>
              (case submit_attempt sha env 0 j of
                 (Inr a, j1) \<Rightarrow> apsnd Some (accept_capture env 0 a j1)
               | (Inl e, j1) \<Rightarrow>
                  (case resetRetiredCapturePacks (re_reset_saved env) j1 e of
                     (Inl e', j2) \<Rightarrow> (Inl e', Some j2)
                   | (Inr False, j2) \<Rightarrow> (Inl e, Some j2)
                   | (Inr True, j2) \<Rightarrow>
                      (case submit_attempt sha env 1 j2 of
                         (Inr a, j3) \<Rightarrow> apsnd Some (accept_capture env 1 a j3)
                       | (Inl e', j3) \<Rightarrow> (Inl e', Some j3))))))"

section \<open>The order of a transfer\<close>

text \<open>
  What may happen next after the events so far, for the pack \<open>p0\<close> of the journal: a saved pack
  keeps its name, size and digest and is complete only with a confirmed key; bytes are sent only
  under a key that a journal already holds, and they are bytes of the file with the recorded digest.
\<close>

definition same_pack :: "journal_pack \<Rightarrow> journal_pack \<Rightarrow> bool" where
  "same_pack p q \<longleftrightarrow> jp_name q = jp_name p \<and> jp_size q = jp_size p \<and> jp_digest q = jp_digest p"

definition persisted :: "journal_pack \<Rightarrow> upload_event list \<Rightarrow> string \<Rightarrow> bool" where
  "persisted p0 evs k \<longleftrightarrow> k = jp_key p0 \<or> (\<exists>p. SavedPack p \<in> set evs \<and> jp_key p = k)"

definition verified :: "(bytes \<Rightarrow> string) \<Rightarrow> upload_env \<Rightarrow> journal_pack \<Rightarrow> bytes \<Rightarrow> bool" where
  "verified sha env p0 b \<longleftrightarrow> ua_file env = Some b \<and> int (length b) = jp_size p0 \<and> ''sha256:'' @ sha b = jp_digest p0"

fun allowed :: "(bytes \<Rightarrow> string) \<Rightarrow> upload_env \<Rightarrow> journal_pack \<Rightarrow> upload_event list \<Rightarrow> upload_event \<Rightarrow> bool" where
  "allowed sha env p0 before (SavedPack p) \<longleftrightarrow> same_pack p0 p \<and> (jp_complete p \<longrightarrow> jp_key p \<noteq> [] \<and> ConfirmedKey (jp_key p) \<in> set before)"
| "allowed sha env p0 before (SentBytes k off x) \<longleftrightarrow> persisted p0 before k \<and> (\<exists>b. verified sha env p0 b \<and> x = take (length x) (drop (nat off) b))"
| "allowed sha env p0 before (ConfirmedKey k) \<longleftrightarrow> k \<noteq> []"

definition orderly :: "(bytes \<Rightarrow> string) \<Rightarrow> upload_env \<Rightarrow> journal_pack \<Rightarrow> upload_event list \<Rightarrow> bool" where
  "orderly sha env p0 evs \<longleftrightarrow> (\<forall>i<length evs. allowed sha env p0 (take i evs) (evs ! i))"

lemma orderly_Nil [simp]: "orderly sha env p0 []"
  by (simp add: orderly_def)

lemma orderly_snoc: "orderly sha env p0 (evs @ [e]) \<longleftrightarrow> orderly sha env p0 evs \<and> allowed sha env p0 evs e"
  by (auto simp: orderly_def nth_append less_Suc_eq)

text \<open>What holds whenever a transfer stops.\<close>

definition safe :: "(bytes \<Rightarrow> string) \<Rightarrow> upload_env \<Rightarrow> journal_pack \<Rightarrow> upload_state \<Rightarrow> bool" where
  "safe sha env p0 s \<longleftrightarrow> orderly sha env p0 (us_events s) \<and> same_pack p0 (us_memory s)
     \<and> (jp_complete (us_memory s) \<longrightarrow> jp_key (us_memory s) \<noteq> [] \<and> ConfirmedKey (jp_key (us_memory s)) \<in> set (us_events s))"

text \<open>Between two steps the pack, the keys that a journal holds and the confirmed keys are known.\<close>

definition at_pack :: "(bytes \<Rightarrow> string) \<Rightarrow> upload_env \<Rightarrow> journal_pack \<Rightarrow> journal_pack \<Rightarrow> string set \<Rightarrow> string set \<Rightarrow> upload_state \<Rightarrow> bool" where
  "at_pack sha env p0 p K C s \<longleftrightarrow> safe sha env p0 s \<and> us_pack s = p \<and> same_pack p0 p \<and> (jp_complete p \<longrightarrow> jp_key p \<noteq> [] \<and> jp_key p \<in> C)
     \<and> (\<forall>k\<in>K. persisted p0 (us_events s) k) \<and> (\<forall>k\<in>C. ConfirmedKey k \<in> set (us_events s))"

text \<open>A step from a state with \<open>P\<close> either stops safely or gives a result with \<open>Q\<close>.\<close>

definition spec :: "(upload_state \<Rightarrow> bool) \<Rightarrow> (upload_state \<Rightarrow> bool) \<Rightarrow> 'a upload_step \<Rightarrow> ('a \<Rightarrow> upload_state \<Rightarrow> bool) \<Rightarrow> bool" where
  "spec S P m Q \<longleftrightarrow> (\<forall>s. P s \<longrightarrow> (case m s of (Inl e, s') \<Rightarrow> S s' | (Inr x, s') \<Rightarrow> Q x s'))"

lemma then_do_simps [simp]:
  "then_do (give x) f = f x"
  "then_do get_pack g s = g (us_pack s) s"
  "then_do (ensure b e) h s = (if b then h () s else (Inl e, s))"
  by (auto simp: then_do_def give_def get_pack_def ensure_def stop_def fun_eq_iff)

lemma spec_then_do: "spec S P m Q \<Longrightarrow> (\<And>x. spec S (Q x) (f x) R) \<Longrightarrow> spec S P (then_do m f) R"
  unfolding spec_def then_do_def by (fastforce split: prod.splits sum.splits)

lemma spec_weaken: "spec S P m Q \<Longrightarrow> (\<And>s. P' s \<Longrightarrow> P s) \<Longrightarrow> (\<And>x s. Q x s \<Longrightarrow> Q' x s) \<Longrightarrow> spec S P' m Q'"
  unfolding spec_def by (fastforce split: prod.splits sum.splits)

lemma spec_pre: "(b \<Longrightarrow> spec S P m Q) \<Longrightarrow> spec S (\<lambda>s. b \<and> P s) m Q"
  by (auto simp: spec_def)

lemma spec_give: "(\<And>s. P s \<Longrightarrow> Q x s) \<Longrightarrow> spec S P (give x) Q"
  by (simp add: spec_def give_def)

lemma at_pack_safe: "at_pack sha env p0 p K C s \<Longrightarrow> safe sha env p0 s"
  by (simp add: at_pack_def)

lemma spec_stop: "(\<And>s. P s \<Longrightarrow> S s) \<Longrightarrow> spec S P (stop e) Q"
  by (simp add: spec_def stop_def)

lemma spec_ensure: "(\<And>s. P s \<Longrightarrow> S s) \<Longrightarrow> spec S P (ensure b e) (\<lambda>_ s. b \<and> P s)"
  by (simp add: spec_def ensure_def give_def stop_def)

lemma spec_ex: "(\<And>q. spec S (P q) m Q) \<Longrightarrow> spec S (\<lambda>s. \<exists>q. P q s) m Q"
  unfolding spec_def by meson

lemma spec_if: "(c \<Longrightarrow> spec S P m Q) \<Longrightarrow> (\<not> c \<Longrightarrow> spec S P n Q) \<Longrightarrow> spec S P (if c then m else n) Q"
  by simp

lemma spec_check: "(\<And>s. P s \<Longrightarrow> S s) \<Longrightarrow> (\<And>s. P s \<Longrightarrow> Q () s) \<Longrightarrow> spec S P (ensure b e) Q"
  by (simp add: spec_def ensure_def give_def stop_def)

lemma spec_get_pack: "spec S (at_pack sha env p0 p K C) get_pack (\<lambda>q s. q = p \<and> at_pack sha env p0 p K C s)"
  by (auto simp: spec_def get_pack_def at_pack_def)

lemma spec_set_pack:
  assumes "same_pack p (f p)" "jp_complete (f p) \<Longrightarrow> jp_key (f p) \<noteq> [] \<and> jp_key (f p) \<in> C"
  shows "spec S (at_pack sha env p0 p K C) (set_pack f) (\<lambda>_. at_pack sha env p0 (f p) K C)"
  using assms by (auto simp: spec_def set_pack_def at_pack_def safe_def same_pack_def)

lemma persisted_snoc: "persisted p0 evs k \<Longrightarrow> persisted p0 (evs @ [e]) k"
  by (auto simp: persisted_def)

lemma spec_emit_confirmed: "k \<noteq> [] \<Longrightarrow> spec S (at_pack sha env p0 p K C) (emit (ConfirmedKey k)) (\<lambda>_. at_pack sha env p0 p K (insert k C))"
  by (auto simp: spec_def emit_def at_pack_def safe_def orderly_snoc persisted_snoc)

lemma spec_emit_sent:
  assumes "k \<in> K" "verified sha env p0 b" "x = take (length x) (drop (nat off) b)"
  shows "spec S (at_pack sha env p0 p K C) (emit (SentBytes k off x)) (\<lambda>_. at_pack sha env p0 p K C)"
  using assms by (auto simp: spec_def emit_def at_pack_def safe_def orderly_snoc persisted_snoc)

lemma spec_save_pack:
  assumes "\<And>s. at_pack sha env p0 p K C s \<Longrightarrow> S s"
  shows "spec S (at_pack sha env p0 p K C) (save_pack env)
    (\<lambda>_ s. at_pack sha env p0 p (insert (jp_key p) K) C s \<and> us_memory s = p \<and> SavedPack p \<in> set (us_events s))"
proof -
  have "persisted p0 (evs @ [SavedPack p]) (jp_key p)" for evs by (auto simp: persisted_def)
  moreover have "at_pack sha env p0 p K C (s\<lparr>us_memory := p\<rparr>)" if "at_pack sha env p0 p K C s" for s
    using that by (auto simp: at_pack_def safe_def)
  ultimately show ?thesis
    using assms by (auto simp: spec_def save_pack_def emit_def at_pack_def safe_def orderly_snoc persisted_snoc Let_def)
qed

lemmas ensured = spec_then_do[OF spec_ensure spec_pre]

lemmas got_pack = spec_then_do[OF spec_get_pack spec_pre]

lemma initSourcePack_spec: "spec (safe sha env p0) (at_pack sha env p0 p K C) (initSourcePack answer sz k) (\<lambda>key s. key \<noteq> [] \<and> at_pack sha env p0 p K C s)"
  unfolding initSourcePack_def
  by (rule ensured) (auto split: sum.splits intro!: spec_stop ensured spec_give dest: at_pack_safe)

lemma putSourcePack_spec:
  assumes "k \<in> K" "verified sha env p0 b"
  shows "spec (safe sha env p0) (at_pack sha env p0 p K C) (putSourcePack status k b sz) (\<lambda>_. at_pack sha env p0 p K C)"
  unfolding putSourcePack_def
  by (intro ensured spec_then_do[OF spec_emit_sent[OF assms]])
     (auto simp: min_def split: option.splits intro!: spec_stop spec_check dest: at_pack_safe)

lemma completeSourcePack_spec:
  assumes "k \<noteq> []"
  shows "spec (safe sha env p0) (at_pack sha env p0 p K C) (completeSourcePack answer k) (\<lambda>_. at_pack sha env p0 p K (insert k C))"
  unfolding completeSourcePack_def
  by (auto split: sum.splits intro!: spec_stop ensured spec_emit_confirmed assms dest: at_pack_safe)

text \<open>The last steps of every transfer.\<close>

definition finished :: "(bytes \<Rightarrow> string) \<Rightarrow> upload_env \<Rightarrow> journal_pack \<Rightarrow> upload_state \<Rightarrow> bool" where
  "finished sha env p0 s \<longleftrightarrow> safe sha env p0 s \<and> jp_complete (us_memory s) \<and> SavedPack (us_memory s) \<in> set (us_events s)"

lemma save_finished:
  assumes "jp_complete p"
  shows "spec (safe sha env p0) (at_pack sha env p0 p K C) (save_pack env) (\<lambda>_. finished sha env p0)"
  by (rule spec_weaken[OF spec_save_pack]) (use assms in \<open>auto simp: finished_def dest: at_pack_safe\<close>)

lemma complete_finished:
  assumes "jp_key p \<noteq> []" "jp_key p \<in> C"
  shows "spec (safe sha env p0) (at_pack sha env p0 p K C) (then_do (set_pack (\<lambda>p. p\<lparr>jp_complete := True\<rparr>)) (\<lambda>_. save_pack env)) (\<lambda>_. finished sha env p0)"
  by (rule spec_then_do[OF spec_set_pack save_finished]) (use assms in \<open>auto simp: same_pack_def\<close>)

section \<open>Transfers in parts\<close>

text \<open>The pack while its parts are sent: its key is in a journal and it is not complete.\<close>

definition sending :: "(bytes \<Rightarrow> string) \<Rightarrow> upload_env \<Rightarrow> journal_pack \<Rightarrow> string \<Rightarrow> upload_state \<Rightarrow> bool" where
  "sending sha env p0 k s \<longleftrightarrow> (\<exists>p K. k \<in> K \<and> jp_key p = k \<and> \<not> jp_complete p \<and> at_pack sha env p0 p K {} s)"

definition idle :: "(bytes \<Rightarrow> string) \<Rightarrow> upload_env \<Rightarrow> journal_pack \<Rightarrow> upload_state \<Rightarrow> bool" where
  "idle sha env p0 s \<longleftrightarrow> (\<exists>p K. \<not> jp_complete p \<and> at_pack sha env p0 p K {} s)"

lemma spec_sending: "(\<And>p K. k \<in> K \<Longrightarrow> jp_key p = k \<Longrightarrow> \<not> jp_complete p \<Longrightarrow> spec S (at_pack sha env p0 p K {}) m Q) \<Longrightarrow> spec S (sending sha env p0 k) m Q"
  unfolding sending_def by (intro spec_ex spec_pre)

lemma spec_idle: "(\<And>p K. \<not> jp_complete p \<Longrightarrow> spec S (at_pack sha env p0 p K {}) m Q) \<Longrightarrow> spec S (idle sha env p0) m Q"
  unfolding idle_def by (intro spec_ex spec_pre)

lemma at_sending: "k \<in> K \<Longrightarrow> jp_key p = k \<Longrightarrow> \<not> jp_complete p \<Longrightarrow> at_pack sha env p0 p K {} s \<Longrightarrow> sending sha env p0 k s"
  unfolding sending_def by blast

lemma at_idle: "\<not> jp_complete p \<Longrightarrow> at_pack sha env p0 p K {} s \<Longrightarrow> idle sha env p0 s"
  unfolding idle_def by blast

lemma idle_safe: "idle sha env p0 s \<Longrightarrow> safe sha env p0 s" and sending_safe: "sending sha env p0 k s \<Longrightarrow> safe sha env p0 s"
  by (auto simp: idle_def sending_def dest: at_pack_safe)

lemma upload_part_spec:
  assumes "verified sha env p0 b"
  shows "spec (sending sha env p0 k) (sending sha env p0 k) (upload_part env b partSize n) (\<lambda>_. sending sha env p0 k)"
proof (rule spec_sending)
  fix p :: journal_pack and K assume p: "k \<in> K" "jp_key p = k" "\<not> jp_complete p"
  let ?at = "at_pack sha env p0 p K {}"
  have s: "?at s \<Longrightarrow> sending sha env p0 k s" for s by (rule at_sending[OF p])
  have put: "spec (sending sha env p0 k) ?at (putCapturedPart (ua_put_part env n) k b off sz) (\<lambda>_. ?at)" for off sz
    unfolding putCapturedPart_def
    by (intro ensured spec_then_do[OF spec_emit_sent[OF p(1) assms]])
       (auto simp: min_def s split: option.splits prod.splits intro!: spec_stop ensured spec_give)
  have added: "spec (sending sha env p0 k) ?at (then_do (set_pack (add_part n etag)) (\<lambda>_. save_pack env)) (\<lambda>_. sending sha env p0 k)" for etag
  proof (rule spec_then_do[OF spec_set_pack])
    have q: "jp_key (add_part n etag p) = k" "\<not> jp_complete (add_part n etag p)" using p by (simp_all add: add_part_def)
    show "spec (sending sha env p0 k) (at_pack sha env p0 (add_part n etag p) K {}) (save_pack env) (\<lambda>_. sending sha env p0 k)"
      using at_sending[OF p(1) q, of sha env p0] at_sending[of k "insert (jp_key (add_part n etag p)) K", OF _ q, of sha env p0] p(1)
      by (intro spec_weaken[OF spec_save_pack]) auto
  qed (use p in \<open>auto simp: same_pack_def add_part_def\<close>)
  show "spec (sending sha env p0 k) ?at (upload_part env b partSize n) (\<lambda>_. sending sha env p0 k)"
    unfolding upload_part_def Let_def
    by (rule got_pack) (auto simp: p(2) s split: sum.splits intro!: spec_stop ensured spec_then_do[OF put] added)
qed

lemma upload_parts_spec:
  assumes "verified sha env p0 b" "sending sha env p0 k s"
  shows "sending sha env p0 k (snd (upload_parts env b partSize err ns s))"
  using assms(2)
proof (induction ns arbitrary: err s)
  case (Cons n ns)
  have "sending sha env p0 k (snd (upload_part env b partSize n s))"
    using upload_part_spec[OF assms(1), of k partSize n] Cons.prems
    by (cases "upload_part env b partSize n s") (auto simp: spec_def split: sum.splits)
  then show ?case using Cons.IH by (auto split: prod.splits sum.splits)
qed (auto split: option.splits)

lemma send_missing_spec:
  assumes "verified sha env p0 b"
  shows "spec (safe sha env p0) (sending sha env p0 k) (send_missing env b m i) (\<lambda>_. sending sha env p0 k)"
  using upload_parts_spec[OF assms] sending_safe unfolding spec_def send_missing_def Let_def
  by (metis (no_types, lifting) case_prodI2 prod.sel(2) sum.case_eq_if)

lemma save_idle:
  assumes "\<not> jp_complete p"
  shows "spec (safe sha env p0) (at_pack sha env p0 p K {}) (save_pack env) (\<lambda>_. idle sha env p0)"
  using at_idle[OF assms, of sha env p0 "insert (jp_key p) K"] by (intro spec_weaken[OF spec_save_pack]) (auto dest: at_pack_safe)

lemma multipart_session_spec: "spec (safe sha env p0) (idle sha env p0) (multipart_session env) (\<lambda>_. idle sha env p0)"
proof (rule spec_idle)
  fix p :: journal_pack and K assume p: "\<not> jp_complete p"
  let ?at = "at_pack sha env p0 p K {}"
  have "spec (safe sha env p0) ?at (then_do (set_pack (\<lambda>p. p\<lparr>jp_key := [], jp_multipart := Some (fresh_multipart (ua_uuid env 1))\<rparr>)) (\<lambda>_.
         then_do (save_pack env) (\<lambda>_. case ua_minit env 1 of Inr i \<Rightarrow> give i | Inl e \<Rightarrow> stop (ApiFailure e)))) (\<lambda>_. idle sha env p0)"
    by (rule spec_then_do[OF spec_set_pack spec_then_do[OF save_idle]])
       (use p in \<open>auto simp: same_pack_def split: sum.splits intro!: spec_give spec_stop dest: idle_safe\<close>)
  then show "spec (safe sha env p0) ?at (multipart_session env) (\<lambda>_. idle sha env p0)"
    unfolding multipart_session_def using p
    by (auto split: sum.splits intro!: spec_give spec_stop got_pack ensured intro: at_idle dest: at_pack_safe)
qed

lemma open_session_spec:
  assumes "mi_key i \<noteq> []"
  shows "spec (safe sha env p0) (at_pack sha env p0 p K {}) (open_session env i m)
    (\<lambda>_ s. if mi_complete i then finished sha env p0 s else sending sha env p0 (mi_key i) s)"
proof (cases "mi_complete i")
  case True
  have "spec (safe sha env p0) (at_pack sha env p0 p K {}) (open_session env i m) (\<lambda>_. finished sha env p0)"
    unfolding spec_def
  proof (intro allI impI)
    fix s assume at: "at_pack sha env p0 p K {} s"
    let ?q = "p\<lparr>jp_key := mi_key i, jp_complete := True, jp_multipart := Some (m\<lparr>jm_upload := mi_upload i, jm_part_size := mi_part_size i\<rparr>)\<rparr>"
    let ?s = "s\<lparr>us_pack := ?q, us_events := us_events s @ [ConfirmedKey (mi_key i)]\<rparr>"
    have "at_pack sha env p0 ?q K {mi_key i} ?s"
      using at assms by (auto simp: at_pack_def safe_def same_pack_def orderly_snoc persisted_snoc)
    moreover have "open_session env i m s = save_pack env ?s"
      using True at by (simp add: open_session_def then_do_def set_pack_def emit_def at_pack_def)
    ultimately show "case open_session env i m s of (Inl e, s') \<Rightarrow> safe sha env p0 s' | (Inr x, s') \<Rightarrow> finished sha env p0 s'"
      using save_finished[of ?q sha env p0 K "{mi_key i}"] by (simp add: spec_def)
  qed
  then show ?thesis using True by simp
next
  case False
  let ?f = "\<lambda>p. p\<lparr>jp_key := mi_key i, jp_complete := mi_complete i, jp_multipart := Some (m\<lparr>jm_upload := mi_upload i, jm_part_size := mi_part_size i\<rparr>)\<rparr>"
  have "spec (safe sha env p0) (at_pack sha env p0 (?f p) K {}) (save_pack env) (\<lambda>_. sending sha env p0 (mi_key i))"
    using False at_sending[of "mi_key i" "insert (jp_key (?f p)) K" "?f p" sha env p0] by (intro spec_weaken[OF spec_save_pack]) (auto dest: at_pack_safe)
  then show ?thesis using False unfolding open_session_def by (auto intro!: spec_then_do[OF spec_set_pack] simp: same_pack_def)
qed

lemma complete_multipart_spec:
  assumes "k \<noteq> []"
  shows "spec (safe sha env p0) (sending sha env p0 k) (complete_multipart env) (\<lambda>_. finished sha env p0)"
proof (rule spec_sending)
  fix p :: journal_pack and K assume p: "k \<in> K" "jp_key p = k" "\<not> jp_complete p"
  show "spec (safe sha env p0) (at_pack sha env p0 p K {}) (complete_multipart env) (\<lambda>_. finished sha env p0)"
    unfolding complete_multipart_def
    by (rule got_pack) (auto split: sum.splits intro!: spec_stop ensured spec_then_do[OF spec_emit_confirmed complete_finished]
      simp: p assms dest: at_pack_safe)
qed

lemma uploadJournalMultipart_spec:
  assumes "verified sha env p0 b"
  shows "spec (safe sha env p0) (idle sha env p0) (uploadJournalMultipart env b) (\<lambda>_. finished sha env p0)"
proof (rule spec_idle)
  fix p :: journal_pack and K assume p: "\<not> jp_complete p"
  have named: "spec (safe sha env p0) (at_pack sha env p0 p K {}) (if jp_multipart p = None then then_do (set_pack (\<lambda>p. p\<lparr>jp_multipart := Some (fresh_multipart (ua_uuid env 0))\<rparr>)) (\<lambda>_. save_pack env)
             else give ()) (\<lambda>_. idle sha env p0)"
    using p at_idle[OF p, of sha env p0 K]
    by (auto intro!: spec_then_do[OF spec_set_pack save_idle] spec_give simp: same_pack_def)
  have opened: "spec (safe sha env p0) (idle sha env p0) (then_do get_pack (\<lambda>p.
      let m = (case jp_multipart p of Some m \<Rightarrow> m | None \<Rightarrow> fresh_multipart []) in
      then_do (ensure (session_valid (jp_size p) i) BadGrant) (\<lambda>_.
      then_do (ensure (session_same p m i) GrantChanged) (\<lambda>_.
      then_do (ensure (parts_valid m i) BadParts) (\<lambda>_.
      then_do (open_session env i m) (\<lambda>_.
        if mi_complete i then give () else then_do (send_missing env b m i) (\<lambda>_. complete_multipart env))))))) (\<lambda>_. finished sha env p0)" for i
  proof (rule spec_idle)
    fix q :: journal_pack and L assume q: "\<not> jp_complete q"
    have "spec (safe sha env p0) (at_pack sha env p0 q L {}) (then_do (open_session env i m) (\<lambda>_.
        if mi_complete i then give () else then_do (send_missing env b m i) (\<lambda>_. complete_multipart env))) (\<lambda>_. finished sha env p0)"
      if "session_valid (jp_size q) i" for m
    proof -
      have k: "mi_key i \<noteq> []" using that by (simp add: session_valid_def)
      show ?thesis
        by (rule spec_then_do[OF open_session_spec[OF k]])
           (auto intro!: spec_give spec_then_do[OF send_missing_spec[OF assms] complete_multipart_spec[OF k]])
    qed
    then show "spec (safe sha env p0) (at_pack sha env p0 q L {}) (then_do get_pack (\<lambda>p.
      let m = (case jp_multipart p of Some m \<Rightarrow> m | None \<Rightarrow> fresh_multipart []) in
      then_do (ensure (session_valid (jp_size p) i) BadGrant) (\<lambda>_.
      then_do (ensure (session_same p m i) GrantChanged) (\<lambda>_.
      then_do (ensure (parts_valid m i) BadParts) (\<lambda>_.
      then_do (open_session env i m) (\<lambda>_.
        if mi_complete i then give () else then_do (send_missing env b m i) (\<lambda>_. complete_multipart env))))))) (\<lambda>_. finished sha env p0)"
      unfolding Let_def by (intro got_pack ensured) (auto dest: at_pack_safe)
  qed
  have rest: "spec (safe sha env p0) (idle sha env p0) (then_do get_pack (\<lambda>p. then_do (ensure (okay p) BadRequestID) (\<lambda>_. then_do (multipart_session env) f))) (\<lambda>_. finished sha env p0)"
    if "\<And>i. spec (safe sha env p0) (idle sha env p0) (f i) (\<lambda>_. finished sha env p0)" for okay f
  proof (rule spec_idle)
    fix q :: journal_pack and L assume q: "\<not> jp_complete q"
    have "spec (safe sha env p0) (at_pack sha env p0 q L {}) (then_do (multipart_session env) f) (\<lambda>_. finished sha env p0)"
      by (rule spec_weaken[OF spec_then_do[OF multipart_session_spec that]]) (auto intro: at_idle[OF q])
    then show "spec (safe sha env p0) (at_pack sha env p0 q L {}) (then_do get_pack (\<lambda>p. then_do (ensure (okay p) BadRequestID) (\<lambda>_. then_do (multipart_session env) f))) (\<lambda>_. finished sha env p0)"
      by (intro got_pack ensured) (auto dest: at_pack_safe)
  qed
  show "spec (safe sha env p0) (at_pack sha env p0 p K {}) (uploadJournalMultipart env b) (\<lambda>_. finished sha env p0)"
    unfolding uploadJournalMultipart_def by (rule got_pack, hypsubst, rule spec_then_do[OF named rest[OF opened]])
qed

section \<open>One transfer is safe and ends complete\<close>

lemma uploadJournalPack_spec:
  assumes "ua_file env = Some b" "\<not> jp_complete p"
  shows "spec (safe sha env p0) (at_pack sha env p0 p K {}) (uploadJournalPack sha env b) (\<lambda>_. finished sha env p0)"
proof -
  have single: "spec (safe sha env p0) (at_pack sha env p0 p K {}) (then_do (initSourcePack (ua_init env) (jp_size p) (jp_key p)) (\<lambda>key.
        then_do (set_pack (\<lambda>p. p\<lparr>jp_key := key\<rparr>)) (\<lambda>_.
        then_do (save_pack env) (\<lambda>_.
        then_do (putSourcePack (ua_put env) key b (jp_size p)) (\<lambda>_.
        then_do (completeSourcePack (ua_complete env) key) (\<lambda>_.
        then_do (set_pack (\<lambda>p. p\<lparr>jp_complete := True\<rparr>)) (\<lambda>_. save_pack env))))))) (\<lambda>_. finished sha env p0)"
    if v: "verified sha env p0 b"
  proof (rule spec_then_do[OF initSourcePack_spec spec_pre])
    fix key :: string assume key: "key \<noteq> []"
    let ?p = "p\<lparr>jp_key := key\<rparr>"
    have put: "spec (safe sha env p0) (at_pack sha env p0 ?p (insert key K) {}) (then_do (putSourcePack (ua_put env) key b (jp_size p)) (\<lambda>_.
        then_do (completeSourcePack (ua_complete env) key) (\<lambda>_. then_do (set_pack (\<lambda>p. p\<lparr>jp_complete := True\<rparr>)) (\<lambda>_. save_pack env)))) (\<lambda>_. finished sha env p0)"
      by (rule spec_then_do[OF putSourcePack_spec[OF _ v] spec_then_do[OF completeSourcePack_spec[OF key] complete_finished]]) (use key in simp_all)
    have save: "spec (safe sha env p0) (at_pack sha env p0 ?p K {}) (save_pack env) (\<lambda>_. at_pack sha env p0 ?p (insert key K) {})"
      by (rule spec_weaken[OF spec_save_pack]) (auto dest: at_pack_safe)
    show "spec (safe sha env p0) (at_pack sha env p0 p K {}) (then_do (set_pack (\<lambda>p. p\<lparr>jp_key := key\<rparr>)) (\<lambda>_.
        then_do (save_pack env) (\<lambda>_.
        then_do (putSourcePack (ua_put env) key b (jp_size p)) (\<lambda>_.
        then_do (completeSourcePack (ua_complete env) key) (\<lambda>_.
        then_do (set_pack (\<lambda>p. p\<lparr>jp_complete := True\<rparr>)) (\<lambda>_. save_pack env)))))) (\<lambda>_. finished sha env p0)"
      by (rule spec_then_do[OF spec_set_pack[of p "\<lambda>p. p\<lparr>jp_key := key\<rparr>"]], use assms(2) in \<open>simp_all add: same_pack_def\<close>)
         (rule spec_then_do[OF save put])
  qed
  have multi: "spec (safe sha env p0) (at_pack sha env p0 p K {}) (uploadJournalMultipart env b) (\<lambda>_. finished sha env p0)" if "verified sha env p0 b"
    using at_idle[OF assms(2)] by (rule spec_weaken[OF uploadJournalMultipart_spec[OF that]])
  have v: "verified sha env p0 b" if "int (length b) = jp_size p" "''sha256:'' @ sha b = jp_digest p" "at_pack sha env p0 p K {} s" for s
    using that assms(1) by (auto simp: verified_def at_pack_def same_pack_def)
  show ?thesis unfolding spec_def
  proof (intro allI impI)
    fix s assume at: "at_pack sha env p0 p K {} s"
    show "case uploadJournalPack sha env b s of (Inl e, s') \<Rightarrow> safe sha env p0 s' | (Inr x, s') \<Rightarrow> finished sha env p0 s'"
    proof (cases "int (length b) = jp_size p \<and> ''sha256:'' @ sha b = jp_digest p")
      case True
      then have ok: "verified sha env p0 b" using v at by blast
      have p: "us_pack s = p" using at by (simp add: at_pack_def)
      show ?thesis
        using True single[OF ok, unfolded spec_def, rule_format, OF at] multi[OF ok, unfolded spec_def, rule_format, OF at]
        by (simp add: uploadJournalPack_def p)
    next
      case False
      then show ?thesis using at_pack_safe[OF at] at
        by (auto simp: uploadJournalPack_def at_pack_def)
    qed
  qed
qed

lemma transfer_pack_spec:
  assumes "\<not> jp_complete p0"
  shows "spec (safe sha env p0) (at_pack sha env p0 p0 {jp_key p0} {}) (transfer_pack sha env) (\<lambda>_. finished sha env p0)"
proof -
  let ?at = "at_pack sha env p0 p0 {jp_key p0} {}"
  define send where "send = (case ua_file env of None \<Rightarrow> stop PackFileChanged | Some file \<Rightarrow> uploadJournalPack sha env file)"
  have send: "spec (safe sha env p0) ?at send (\<lambda>_. finished sha env p0)"
    unfolding send_def using uploadJournalPack_spec[OF _ assms] by (auto split: option.splits intro!: spec_stop dest: at_pack_safe)
  have confirm: "spec (safe sha env p0) ?at (\<lambda>s. case completeSourcePack (ua_confirm env) (jp_key p0) s of
              (Inr _, s') \<Rightarrow> then_do (set_pack (\<lambda>p. p\<lparr>jp_complete := True\<rparr>)) (\<lambda>_. save_pack env) s'
            | (Inl e, s') \<Rightarrow> if \<not> conflicting e \<or> retiredPackKeys e \<noteq> [] then (Inl e, s') else send s') (\<lambda>_. finished sha env p0)"
    if key: "jp_key p0 \<noteq> []"
    unfolding spec_def
  proof (intro allI impI)
    fix s assume at: "?at s"
    obtain r s' where c: "completeSourcePack (ua_confirm env) (jp_key p0) s = (r, s')" by fastforce
    show "case case completeSourcePack (ua_confirm env) (jp_key p0) s of
              (Inr _, s') \<Rightarrow> then_do (set_pack (\<lambda>p. p\<lparr>jp_complete := True\<rparr>)) (\<lambda>_. save_pack env) s'
            | (Inl e, s') \<Rightarrow> if \<not> conflicting e \<or> retiredPackKeys e \<noteq> [] then (Inl e, s') else send s' of
          (Inl e, s') \<Rightarrow> safe sha env p0 s' | (Inr x, s') \<Rightarrow> finished sha env p0 s'"
    proof (cases r)
      case (Inl e)
      have "s' = s" using c Inl unfolding completeSourcePack_def
        by (auto simp: stop_def then_do_def ensure_def give_def emit_def split: sum.splits if_splits)
      then show ?thesis using c Inl send at at_pack_safe[OF at] by (auto simp: spec_def)
    next
      case (Inr x)
      have "at_pack sha env p0 p0 {jp_key p0} {jp_key p0} s'"
        using completeSourcePack_spec[OF key, of sha env p0 p0 "{jp_key p0}" "{}" "ua_confirm env"] at c Inr by (auto simp: spec_def)
      then show ?thesis using c Inr complete_finished[of p0 "{jp_key p0}" sha env p0 "{jp_key p0}"] key by (simp add: spec_def)
    qed
  qed
  show ?thesis
  proof (cases "ua_cancelled env")
    case True
    then show ?thesis unfolding transfer_pack_def by (auto intro!: spec_stop dest: at_pack_safe)
  next
    case False
    then have body: "transfer_pack sha env = then_do get_pack (\<lambda>p. then_do (ensure (journal_pack_ok p) BadPack) (\<lambda>_.
        if jp_key p \<noteq> [] \<and> jp_multipart p = None then (\<lambda>s. case completeSourcePack (ua_confirm env) (jp_key p) s of
              (Inr _, s') \<Rightarrow> then_do (set_pack (\<lambda>p. p\<lparr>jp_complete := True\<rparr>)) (\<lambda>_. save_pack env) s'
            | (Inl e, s') \<Rightarrow> if \<not> conflicting e \<or> retiredPackKeys e \<noteq> [] then (Inl e, s') else send s') else send))"
      by (simp only: transfer_pack_def Let_def send_def[symmetric] if_False)
    show ?thesis unfolding body
    proof (rule got_pack)
      fix p :: journal_pack assume p: "p = p0"
      show "spec (safe sha env p0) ?at (then_do (ensure (journal_pack_ok p) BadPack) (\<lambda>_.
        if jp_key p \<noteq> [] \<and> jp_multipart p = None then (\<lambda>s. case completeSourcePack (ua_confirm env) (jp_key p) s of
              (Inr _, s') \<Rightarrow> then_do (set_pack (\<lambda>p. p\<lparr>jp_complete := True\<rparr>)) (\<lambda>_. save_pack env) s'
            | (Inl e, s') \<Rightarrow> if \<not> conflicting e \<or> retiredPackKeys e \<noteq> [] then (Inl e, s') else send s') else send)) (\<lambda>_. finished sha env p0)"
        unfolding p by (rule ensured[OF at_pack_safe spec_if[OF confirm send]]) auto
    qed
  qed
qed

lemma start_at: "\<not> jp_complete p0 \<Longrightarrow> at_pack sha env p0 p0 {jp_key p0} {} (start_transfer p0)"
  by (auto simp: at_pack_def safe_def start_transfer_def same_pack_def persisted_def)

lemma transfer_result_safe:
  assumes "transfer_result sha env p0 = (r, s)" "\<not> jp_complete p0"
  shows "safe sha env p0 s \<and> (\<forall>x. r = Inr x \<longrightarrow> finished sha env p0 s)"
  using transfer_pack_spec[OF assms(2), of sha env] start_at[OF assms(2), of sha env] assms
  by (cases r) (auto simp: spec_def transfer_result_def finished_def)

text \<open>
  C6: an upload is written ahead and completed only on confirmation.  Whatever the server and the
  store answer, and wherever the transfer stops: bytes are sent only under a key that a saved journal
  already holds, and they are bytes of the pack file of the recorded size and digest; a journal that
  calls the pack complete is saved only after a confirmation of exactly its key; name, size and
  digest of the pack never change; and a transfer that reports success has saved a complete pack.
\<close>

theorem transfer_written_ahead:
  assumes "transfer_result sha env p0 = (r, s)" "\<not> jp_complete p0"
  shows "(\<forall>i<length (us_events s). case us_events s ! i of
      SavedPack p \<Rightarrow> same_pack p0 p \<and> (jp_complete p \<longrightarrow> jp_key p \<noteq> [] \<and> ConfirmedKey (jp_key p) \<in> set (take i (us_events s)))
    | SentBytes k off x \<Rightarrow> (k = jp_key p0 \<or> (\<exists>p. SavedPack p \<in> set (take i (us_events s)) \<and> jp_key p = k))
        \<and> (\<exists>b. ua_file env = Some b \<and> int (length b) = jp_size p0 \<and> ''sha256:'' @ sha b = jp_digest p0 \<and> x = take (length x) (drop (nat off) b))
    | ConfirmedKey k \<Rightarrow> k \<noteq> [])
    \<and> (r = Inr () \<longrightarrow> SavedPack (us_memory s) \<in> set (us_events s) \<and> jp_complete (us_memory s))"
proof (intro conjI allI impI)
  fix i assume "i < length (us_events s)"
  then have "allowed sha env p0 (take i (us_events s)) (us_events s ! i)"
    using transfer_result_safe[OF assms] by (simp add: safe_def orderly_def)
  then show "case us_events s ! i of
      SavedPack p \<Rightarrow> same_pack p0 p \<and> (jp_complete p \<longrightarrow> jp_key p \<noteq> [] \<and> ConfirmedKey (jp_key p) \<in> set (take i (us_events s)))
    | SentBytes k off x \<Rightarrow> (k = jp_key p0 \<or> (\<exists>p. SavedPack p \<in> set (take i (us_events s)) \<and> jp_key p = k))
        \<and> (\<exists>b. ua_file env = Some b \<and> int (length b) = jp_size p0 \<and> ''sha256:'' @ sha b = jp_digest p0 \<and> x = take (length x) (drop (nat off) b))
    | ConfirmedKey k \<Rightarrow> k \<noteq> []"
    by (cases "us_events s ! i") (auto simp: persisted_def verified_def)
qed (use transfer_result_safe[OF assms] in \<open>auto simp: finished_def\<close>)

section \<open>Resuming keeps the capture\<close>

definition same_capture_journal :: "capture_journal \<Rightarrow> capture_journal \<Rightarrow> bool" where
  "same_capture_journal j j' \<longleftrightarrow> cj_format j' = cj_format j \<and> cj_server j' = cj_server j \<and> cj_root j' = cj_root j \<and> cj_request j' = cj_request j
     \<and> cj_state j' = cj_state j \<and> cj_dirty j' = cj_dirty j \<and> list_all2 same_pack (cj_packs j) (cj_packs j')"

lemma same_pack_refl [simp]: "same_pack p p"
  by (simp add: same_pack_def)

lemma same_pack_trans: "same_pack p q \<Longrightarrow> same_pack q r \<Longrightarrow> same_pack p r"
  by (simp add: same_pack_def)

lemma same_capture_journal_refl [simp]: "same_capture_journal j j"
  by (simp add: same_capture_journal_def list.rel_refl)

lemma same_capture_journal_trans: "same_capture_journal i j \<Longrightarrow> same_capture_journal j k \<Longrightarrow> same_capture_journal i k"
  unfolding same_capture_journal_def by (auto intro: list_all2_trans[OF same_pack_trans])

lemma transfer_result_same: "same_pack p (us_memory (snd (transfer_result sha env p)))"
proof (cases "jp_complete p")
  case True
  then show ?thesis by (simp add: transfer_result_def start_transfer_def)
next
  case False
  then show ?thesis using transfer_result_safe[of sha env p] by (cases "transfer_result sha env p") (auto simp: safe_def)
qed

lemma uploadCapturePacks_same:
  assumes "uploadCapturePacks sha ok order envs j = (e, j')"
  shows "same_capture_journal j j' \<and> cj_accepted j' = cj_accepted j"
  using assms transfer_result_same
  by (auto simp: uploadCapturePacks_def same_capture_journal_def Let_def list_all2_conv_all_nth nth_enumerate_eq list.rel_refl split: if_splits list.splits)

lemma reset_same:
  assumes "resetRetiredCapturePacks saved j cause = (r, j')"
  shows "same_capture_journal j j' \<and> cj_accepted j' = cj_accepted j"
proof -
  have "same_pack p (reset_pack p)" for p by (simp add: same_pack_def reset_pack_def)
  then show ?thesis using assms
    by (auto simp: resetRetiredCapturePacks_def same_capture_journal_def Let_def list_all2_conv_all_nth nth_enumerate_eq list.rel_refl split: if_splits)
qed

lemma resolved_unaccepted [simp]: "resolvedCaptureRequest (j\<lparr>cj_accepted := a\<rparr>) = resolvedCaptureRequest j"
  by (simp add: resolvedCaptureRequest_def)

lemma submit_attempt_same:
  assumes "submit_attempt sha env k j = (r, j')"
  shows "same_capture_journal j j' \<and> cj_accepted j' = cj_accepted j"
  using assms uploadCapturePacks_same
  by (auto simp: submit_attempt_def split: prod.splits option.splits sum.splits)

lemma registerCapturedVersions_Inr:
  assumes "registerCapturedVersions server input = Inr a"
  shows "server input = Inr a \<and> ca_capture a = cq_capture input \<and> length (ca_versions a) = length (cq_files input) \<and> list_all version_accepted (ca_versions a)"
  using assms by (auto simp: registerCapturedVersions_def split: sum.splits api_error.splits if_splits)

lemma resolved_request:
  assumes "resolvedCaptureRequest j = Inr req"
  shows "cq_capture req = cq_capture (cj_request j) \<and> length (cq_files req) = length (cq_files (cj_request j))"
  using assms by (auto simp: resolvedCaptureRequest_def try_then_Inr_iff dest: try_map_length split: if_splits)

text \<open>The acceptance of a journal: the stored one, or the answer to a registration of the resolved request.\<close>

definition acceptance_of :: "resume_env \<Rightarrow> capture_journal \<Rightarrow> capture_journal \<Rightarrow> capture_accepted \<Rightarrow> bool" where
  "acceptance_of env j j' a \<longleftrightarrow> ca_capture a = cq_capture (cj_request j) \<and> length (ca_versions a) = length (cq_files (cj_request j)) \<and> cj_accepted j' = Some a
     \<and> (\<exists>req. resolvedCaptureRequest j' = Inr req \<and> (cj_accepted j = Some a \<or> (\<exists>k<2. re_register env k req = Inr a)))"

lemma accept_capture_of:
  assumes "submit_attempt sha env k j = (Inr a, j1)" "same_capture_journal i j" "k < 2" "cj_accepted j = None"
  shows "same_capture_journal i (snd (accept_capture env k a j1)) \<and> acceptance_of env i (snd (accept_capture env k a j1)) a"
proof -
  obtain req where req: "resolvedCaptureRequest j1 = Inr req" "registerCapturedVersions (re_register env k) req = Inr a"
    using assms(1) by (auto simp: submit_attempt_def split: prod.splits option.splits sum.splits)
  have same: "same_capture_journal i j1" using submit_attempt_same[OF assms(1)] same_capture_journal_trans[OF assms(2)] by blast
  then have "cj_request j1 = cj_request i" by (simp add: same_capture_journal_def)
  then have "ca_capture a = cq_capture (cj_request i) \<and> length (ca_versions a) = length (cq_files (cj_request i)) \<and> re_register env k req = Inr a"
    using registerCapturedVersions_Inr[OF req(2)] resolved_request[OF req(1)] by simp
  then show ?thesis using same req(1) assms(3)
    by (auto simp: accept_capture_def acceptance_of_def same_capture_journal_def)
qed

lemma resume_keeps:
  assumes "resumeCaptureJournal sha env = (r, Some j')" "re_journal env = Some j"
  shows "same_capture_journal j j' \<and> (\<forall>a. r = Inr a \<longrightarrow> acceptance_of env j j' a)"
proof (cases "cj_accepted j")
  case (Some a)
  then show ?thesis using assms
    by (auto simp: resumeCaptureJournal_def acceptance_of_def split: if_splits sum.splits)
next
  case None
  show ?thesis
  proof (cases "cj_server j \<noteq> re_base env \<or> cj_format j \<noteq> 1 \<or> cj_root j = []")
    case True
    then show ?thesis using assms by (auto simp: resumeCaptureJournal_def split: if_splits)
  next
    case False
    obtain r1 j1 where s1: "submit_attempt sha env 0 j = (r1, j1)" by fastforce
    have same1: "same_capture_journal j j1" "cj_accepted j1 = None" using submit_attempt_same[OF s1] None by simp_all
    show ?thesis
    proof (cases r1)
      case (Inr a)
      then have "(r, j') = accept_capture env 0 a j1" using assms False None s1
        by (auto simp: resumeCaptureJournal_def accept_capture_def split: if_splits)
      then show ?thesis using accept_capture_of[OF s1[unfolded Inr] same_capture_journal_refl _ None]
        by (auto simp: accept_capture_def split: if_splits)
    next
      case (Inl e)
      obtain r2 j2 where s2: "resetRetiredCapturePacks (re_reset_saved env) j1 e = (r2, j2)" by fastforce
      have same2: "same_capture_journal j j2" "cj_accepted j2 = None"
        using reset_same[OF s2] same1 same_capture_journal_trans by auto
      obtain r3 j3 where s3: "submit_attempt sha env 1 j2 = (r3, j3)" by fastforce
      have same3: "same_capture_journal j j3" using submit_attempt_same[OF s3] same2 same_capture_journal_trans by blast
      have run: "(r, j') = (case r2 of Inl e' \<Rightarrow> (Inl e', j2) | Inr again \<Rightarrow> if again then (case r3 of Inr a \<Rightarrow> accept_capture env 1 a j3 | Inl e' \<Rightarrow> (Inl e', j3)) else (Inl e, j2))"
        using assms False None s1 Inl s2 s3 by (auto simp: resumeCaptureJournal_def accept_capture_def split: if_splits sum.splits bool.splits)
      show ?thesis
      proof (cases "\<exists>a. r2 = Inr True \<and> r3 = Inr a")
        case True
        then obtain a where a: "r2 = Inr True" "r3 = Inr a" by blast
        then have "(r, j') = accept_capture env 1 a j3" using run by simp
        then show ?thesis using accept_capture_of[OF s3[unfolded a(2)] same2(1) _ same2(2)] by (auto simp: accept_capture_def split: if_splits)
      next
        case False
        then show ?thesis using run same2 same3 by (auto split: sum.splits if_splits)
      qed
    qed
  qed
qed

text \<open>
  C10: resuming a capture never changes what was captured.  Whatever is answered, the request, the source
  state and the names, sizes and digests of the packs stay as the journal had them; an accepted
  capture is the stored acceptance, or the server's answer to a registration of the
  resolved request, for which every pack that an extent names is complete; at most two registrations are attempted.
\<close>

theorem resumeCaptureJournal_keeps:
  assumes "resumeCaptureJournal sha env = (r, Some j')" "re_journal env = Some j"
  shows "same_capture_journal j j' \<and> (\<forall>a. r = Inr a \<longrightarrow> acceptance_of env j j' a)"
  using assms by (rule resume_keeps)

section \<open>A concrete submission\<close>

definition sample_upload :: upload_env where
  "sample_upload = \<lparr>ua_cancelled = False, ua_file = Some ''cd'', ua_save = (\<lambda>_. True), ua_confirm = Inl ApiFailed, ua_init = Inr (''k1'', True, True),
     ua_put = Some 200, ua_complete = Inr (''k1'', ''complete''), ua_uuid = (\<lambda>_. ''u''), ua_uuid_ok = (\<lambda>_. True), ua_minit = (\<lambda>_. Inl ApiFailed),
     ua_order = [], ua_part = (\<lambda>_. Inl ApiFailed), ua_put_part = (\<lambda>_. (None, [])), ua_mcomplete = Inl ApiFailed\<rparr>"

definition local_pack :: journal_pack where
  "local_pack = pack_of sample_sha (''pack-000000'', ''cd'')"

definition accepted_version :: registered_version where
  "accepted_version = \<lparr>rv_file = ''f1'', rv_version = ''v2'', rv_sequence = 2, rv_extraction = ''e2'', rv_work = ''w2'', rv_stage = ''index''\<rparr>"

definition local_journal :: capture_journal where
  "local_journal = \<lparr>cj_format = 1, cj_server = ''s'', cj_root = ''r1'', cj_request = \<lparr>cq_capture = ''c1'', cq_files =
      [\<lparr>cf_path = ''a.txt'', cf_previous = ''v1'', cf_deleted = False, cf_source = Some \<lparr>manifest_format = 1, content_hash = ''sha256:'' @ sample_sha ''cd'',
         manifest_size = 2, extents = [\<lparr>object_key = ''local:pack-000000'', offset = 0, extent_length = 2\<rparr>]\<rparr>\<rparr>]\<rparr>,
    cj_packs = [local_pack], cj_state = Map.empty, cj_dirty = [], cj_accepted = None\<rparr>"

definition sample_resume :: resume_env where
  "sample_resume = \<lparr>re_lock = True, re_journal = Some local_journal, re_base = ''s'', re_concurrency = True, re_order = (\<lambda>_. []),
     re_uploads = (\<lambda>_ _. sample_upload), re_register = (\<lambda>_ q. Inr \<lparr>ca_capture = cq_capture q, ca_versions = [accepted_version]\<rparr>),
     re_reset_saved = True, re_saved = (\<lambda>_. True)\<rparr>"

theorem transfer_written_ahead_witness:
  "\<exists>s. transfer_result sample_sha sample_upload local_pack = (Inr (), s)
    \<and> us_events s = [SavedPack (local_pack\<lparr>jp_key := ''k1''\<rparr>), SentBytes ''k1'' 0 ''cd'', ConfirmedKey ''k1'', SavedPack (local_pack\<lparr>jp_key := ''k1'', jp_complete := True\<rparr>)]
    \<and> SavedPack (us_memory s) \<in> set (us_events s)"
proof -
  obtain r s where run: "transfer_result sample_sha sample_upload local_pack = (r, s)" by fastforce
  have ok: "fst (transfer_result sample_sha sample_upload local_pack) = Inr ()" by code_simp
  have events: "us_events (snd (transfer_result sample_sha sample_upload local_pack)) =
      [SavedPack (local_pack\<lparr>jp_key := ''k1''\<rparr>), SentBytes ''k1'' 0 ''cd'', ConfirmedKey ''k1'', SavedPack (local_pack\<lparr>jp_key := ''k1'', jp_complete := True\<rparr>)]"
    by code_simp
  have "\<not> jp_complete local_pack" by (simp add: local_pack_def pack_of_def)
  from transfer_written_ahead[OF run this] run ok events show ?thesis by (intro exI[of _ s]) simp
qed

theorem resumeCaptureJournal_keeps_witness:
  "\<exists>a j'. resumeCaptureJournal sample_sha sample_resume = (Inr a, Some j') \<and> same_capture_journal local_journal j' \<and> acceptance_of sample_resume local_journal j' a"
proof -
  obtain r j where run: "resumeCaptureJournal sample_sha sample_resume = (r, j)" by fastforce
  have "is_ok (fst (resumeCaptureJournal sample_sha sample_resume))" "snd (resumeCaptureJournal sample_sha sample_resume) \<noteq> None" by code_simp+
  then obtain a j' where out: "r = Inr a" "j = Some j'" using run by (auto simp: is_ok_iff)
  have "re_journal sample_resume = Some local_journal" by (simp add: sample_resume_def)
  from resumeCaptureJournal_keeps[OF run[unfolded out(2)] this] run out show ?thesis by auto
qed

end
