(* ===== verification/Capture_Retention.thy ===== *)
theory Capture_Retention
  imports Capture_Journal
begin

text \<open>
  What the client keeps of its captures: the local heads of \<^verbatim>\<open>capture_heads.go\<close>, the cleanup of
  \<^verbatim>\<open>capture_retention.go\<close> and the archive of \<^verbatim>\<open>capture_conflict.go\<close>.  The heads directory is a map from file
  names to what reading the file gives; \<open>sha\<close> is the hexadecimal SHA-256 that names a head.  A directory of a
  capture is its journal with the other files in it.  Functions \<open>fails\<close> and \<open>saved\<close> say which operations
  of the file system fail.
\<close>

section \<open>Local heads\<close>

datatype retention_error =
    HeadUnreadable
  | HeadInvalid
  | AcceptanceMissing
  | AcceptedJournal journal_error
  | AcceptedIdentity
  | MetadataMismatch
  | HeadsBusy
  | SequenceConflict
  | HeadSaveFailed
  | UnexpectedEntry
  | JournalUnreadable
  | WrongOwner
  | HeadsNotDurable
  | AcceptedPackChanged
  | RemoveFailed
  | SpoolLimitExceeded
  | SpoolIsFull
  | NeedsForce
  | NotTheConflict
  | Unselected string
  | ArchiveExists

datatype head_file = HeadData local_head | HeadGarbage

type_synonym head_store = "string \<rightharpoonup> head_file"

definition capturedHeadName :: "(string \<Rightarrow> string) \<Rightarrow> string \<Rightarrow> string \<Rightarrow> string \<Rightarrow> string" where
  "capturedHeadName sha server rootID path = sha (server @ [CHR 0x00] @ rootID @ [CHR 0x00] @ path) @ ''.json''"

definition loadCapturedHead :: "(string \<Rightarrow> string) \<Rightarrow> head_store \<Rightarrow> string \<Rightarrow> string \<Rightarrow> string \<Rightarrow> retention_error + local_head option" where
  "loadCapturedHead sha st server rootID path = (case st (capturedHeadName sha server rootID path) of
      None \<Rightarrow> Inr None
    | Some HeadGarbage \<Rightarrow> Inl HeadUnreadable
    | Some (HeadData h) \<Rightarrow>
       if lh_server h \<noteq> server \<or> lh_root h \<noteq> rootID \<or> lh_path h \<noteq> path \<or> rv_version (lh_version h) = [] \<or> rv_sequence (lh_version h) < 1
       then Inl HeadInvalid else Inr (Some h))"

fun accepted_heads :: "capture_journal \<Rightarrow> string list \<Rightarrow> (capture_file \<times> registered_version) list \<Rightarrow> retention_error + local_head list" where
  "accepted_heads j seen [] = Inr []"
| "accepted_heads j seen ((f, v) # rest) =
    (if cf_path f = [] \<or> cf_path f \<in> set seen \<or> \<not> version_accepted v then Inl AcceptedIdentity
     else let state = cj_state j (cf_path f) in
       if \<not> cf_deleted f \<and> (case (state, cf_source f) of (Some x, Some m) \<Rightarrow> fs_hash x \<noteq> content_hash m \<or> fs_size x \<noteq> manifest_size m | _ \<Rightarrow> False)
       then Inl MetadataMismatch
       else try_then (accepted_heads j (cf_path f # seen) rest) (\<lambda>hs.
         Inr (\<lparr>lh_server = cj_server j, lh_root = cj_root j, lh_path = cf_path f, lh_version = v, lh_source = cf_source f, lh_deleted = cf_deleted f,
            lh_state = (case state of Some x \<Rightarrow> x | None \<Rightarrow> \<lparr>fs_size = 0, fs_hash = [], fs_mtime = 0\<rparr>),
            lh_dirty = (\<not> cf_deleted f \<and> (state = None \<or> cf_path f \<in> set (cj_dirty j)))\<rparr> # hs)))"

definition acceptedCaptureHeads :: "capture_journal \<Rightarrow> retention_error + local_head list" where
  "acceptedCaptureHeads j = (case cj_accepted j of
      None \<Rightarrow> Inl AcceptanceMissing
    | Some a \<Rightarrow>
       if ca_capture a \<noteq> cq_capture (cj_request j) \<or> length (ca_versions a) \<noteq> length (cq_files (cj_request j)) then Inl AcceptanceMissing
       else (case resolvedCaptureRequest j of
           Inl e \<Rightarrow> Inl (AcceptedJournal e)
         | Inr request \<Rightarrow> accepted_heads j [] (zip (cq_files request) (ca_versions a))))"

text \<open>Installing the heads one after the other; \<open>saved\<close> says which writes succeed.\<close>

fun install_heads :: "(string \<Rightarrow> string) \<Rightarrow> (nat \<Rightarrow> bool) \<Rightarrow> nat \<Rightarrow> local_head list \<Rightarrow> head_store \<Rightarrow> (retention_error + unit) \<times> head_store" where
  "install_heads sha saved i [] st = (Inr (), st)"
| "install_heads sha saved i (h # hs) st =
    (case loadCapturedHead sha st (lh_server h) (lh_root h) (lh_path h) of
       Inl e \<Rightarrow> (Inl e, st)
     | Inr current \<Rightarrow>
        (let newer = (case current of None \<Rightarrow> False | Some c \<Rightarrow> rv_sequence (lh_version c) \<ge> rv_sequence (lh_version h)) in
         if (case current of None \<Rightarrow> False
             | Some c \<Rightarrow> rv_sequence (lh_version c) = rv_sequence (lh_version h) \<and> rv_version (lh_version c) \<noteq> rv_version (lh_version h))
         then (Inl SequenceConflict, st)
         else if newer then install_heads sha saved (i + 1) hs st
         else if \<not> saved i then (Inl HeadSaveFailed, st)
         else install_heads sha saved (i + 1) hs (st(capturedHeadName sha (lh_server h) (lh_root h) (lh_path h) \<mapsto> HeadData h))))"

definition saveAcceptedCaptureHeads :: "(string \<Rightarrow> string) \<Rightarrow> bool \<Rightarrow> (nat \<Rightarrow> bool) \<Rightarrow> capture_journal \<Rightarrow> head_store \<Rightarrow> (retention_error + unit) \<times> head_store" where
  "saveAcceptedCaptureHeads sha lock saved j st = (case acceptedCaptureHeads j of
      Inl e \<Rightarrow> (Inl e, st)
    | Inr heads \<Rightarrow> if \<not> lock then (Inl HeadsBusy, st) else install_heads sha saved 0 heads st)"

text \<open>\<^verbatim>\<open>submitCapture\<close> reads the journal again, which is the one that was accepted.\<close>

definition submitCapture ::
  "(bytes \<Rightarrow> string) \<Rightarrow> resume_env \<Rightarrow> bool \<Rightarrow> bool \<Rightarrow> (nat \<Rightarrow> bool) \<Rightarrow> head_store \<Rightarrow> (upload_error + (retention_error + unit) \<times> capture_accepted) \<times> head_store" where
  "submitCapture sha env readable lock saved st = (case resumeCaptureJournal sha env of
      (Inl e, _) \<Rightarrow> (Inl e, st)
    | (Inr a, None) \<Rightarrow> (Inr (Inl JournalUnreadable, a), st)
    | (Inr a, Some j) \<Rightarrow>
       if \<not> readable then (Inr (Inl JournalUnreadable, a), st)
       else (case saveAcceptedCaptureHeads sha lock saved j st of (r, st') \<Rightarrow> (Inr (r, a), st')))"

section \<open>Cleaning up\<close>

datatype journal_file = NoJournal | BadJournal | JournalData capture_journal

record spool_dir =
  sd_name :: string
  sd_is_dir :: bool
  sd_journal :: journal_file
  sd_files :: "(string \<times> bool \<times> int) list"
  sd_modified :: int

definition captureJournalReserve :: int where "captureJournalReserve = 4194304"

definition captureSpoolLimit :: "string \<Rightarrow> (string \<Rightarrow> int option) \<Rightarrow> int option" where
  "captureSpoolLimit setting parse_int =
    (if setting = [] then Some 2147483648
     else case parse_int setting of None \<Rightarrow> None | Some limit \<Rightarrow> if limit < 8388608 then None else Some limit)"

fun heads_durable :: "(string \<Rightarrow> string) \<Rightarrow> head_store \<Rightarrow> string \<Rightarrow> string \<Rightarrow> local_head list \<Rightarrow> retention_error option" where
  "heads_durable sha st server rootID [] = None"
| "heads_durable sha st server rootID (h # hs) =
    (case loadCapturedHead sha st server rootID (lh_path h) of
       Inl e \<Rightarrow> Some e
     | Inr None \<Rightarrow> Some HeadsNotDurable
     | Inr (Some c) \<Rightarrow>
        if rv_sequence (lh_version c) < rv_sequence (lh_version h)
          \<or> (rv_sequence (lh_version c) = rv_sequence (lh_version h) \<and> rv_version (lh_version c) \<noteq> rv_version (lh_version h))
        then Some HeadsNotDurable else heads_durable sha st server rootID hs)"

fun release_packs :: "(string \<Rightarrow> bool) \<Rightarrow> journal_pack list \<Rightarrow> (string \<times> bool \<times> int) list \<Rightarrow> int \<Rightarrow> retention_error option \<times> (string \<times> bool \<times> int) list \<times> int" where
  "release_packs fails [] files released = (None, files, released)"
| "release_packs fails (p # ps) files released = (case map_of files (jp_name p) of
      None \<Rightarrow> release_packs fails ps files released
    | Some (regular, sz) \<Rightarrow>
       if \<not> regular \<or> sz \<noteq> jp_size p then (Some AcceptedPackChanged, files, released)
       else if fails (jp_name p) then (Some RemoveFailed, files, released)
       else release_packs fails ps (filter (\<lambda>f. fst f \<noteq> jp_name p) files) (released + sz))"

text \<open>One entry of the directory of completed captures: the error, what is left of the entry and the bytes
  released so far.\<close>

definition retain_entry :: "(string \<Rightarrow> string) \<Rightarrow> head_store \<Rightarrow> string \<Rightarrow> string \<Rightarrow> (string \<Rightarrow> string \<Rightarrow> bool) \<Rightarrow> spool_dir \<Rightarrow> int
    \<Rightarrow> retention_error option \<times> spool_dir option \<times> int" where
  "retain_entry sha st server rootID fails d released =
    (if \<not> sd_is_dir d \<or> \<not> has_prefix (sd_name d) ''capture-'' then (Some UnexpectedEntry, Some d, released)
     else case sd_journal d of
        BadJournal \<Rightarrow> (Some JournalUnreadable, Some d, released)
      | NoJournal \<Rightarrow> if sd_files d = [] \<and> \<not> fails (sd_name d) [] then (None, None, released) else (Some JournalUnreadable, Some d, released)
      | JournalData j \<Rightarrow>
         if cj_server j \<noteq> server \<or> cj_root j \<noteq> rootID then (Some WrongOwner, Some d, released)
         else (case acceptedCaptureHeads j of
             Inl e \<Rightarrow> (Some e, Some d, released)
           | Inr heads \<Rightarrow>
              (case heads_durable sha st server rootID heads of
                 Some e \<Rightarrow> (Some e, Some d, released)
               | None \<Rightarrow>
                  (case release_packs (fails (sd_name d)) (cj_packs j) (sd_files d) released of
                     (e, files, released') \<Rightarrow> (e, Some (d\<lparr>sd_files := files\<rparr>), released')))))"

fun retain_entries :: "(string \<Rightarrow> string) \<Rightarrow> head_store \<Rightarrow> string \<Rightarrow> string \<Rightarrow> (string \<Rightarrow> string \<Rightarrow> bool) \<Rightarrow> spool_dir list \<Rightarrow> int
    \<Rightarrow> retention_error option \<times> spool_dir list \<times> int" where
  "retain_entries sha st server rootID fails [] released = (None, [], released)"
| "retain_entries sha st server rootID fails (d # ds) released =
    (case retain_entry sha st server rootID fails d released of
       (Some e, kept, released') \<Rightarrow> (Some e, (case kept of None \<Rightarrow> [] | Some x \<Rightarrow> [x]) @ ds, released')
     | (None, kept, released') \<Rightarrow>
        (case retain_entries sha st server rootID fails ds released' of
           (e, rest, total_released) \<Rightarrow> (e, (case kept of None \<Rightarrow> [] | Some x \<Rightarrow> [x]) @ rest, total_released)))"

text \<open>The lock is removed first and the journal last, then the directory.\<close>

definition removeCaptureReceipt :: "(string \<Rightarrow> string \<Rightarrow> bool) \<Rightarrow> spool_dir \<Rightarrow> retention_error option \<times> spool_dir option" where
  "removeCaptureReceipt fails d =
    (if list_ex (\<lambda>(n, regular, _). \<not> regular \<or> n \<noteq> ''.lock'') (sd_files d) then (Some UnexpectedEntry, Some d)
     else if fails (sd_name d) ''.lock'' then (Some RemoveFailed, Some d)
     else if fails (sd_name d) ''journal.json'' then (Some RemoveFailed, Some (d\<lparr>sd_files := []\<rparr>))
     else if fails (sd_name d) [] then (Some RemoveFailed, Some (d\<lparr>sd_files := [], sd_journal := NoJournal\<rparr>))
     else (None, None))"

fun remove_receipts :: "(string \<Rightarrow> string \<Rightarrow> bool) \<Rightarrow> spool_dir list \<Rightarrow> retention_error option \<times> spool_dir list" where
  "remove_receipts fails [] = (None, [])"
| "remove_receipts fails (d # ds) = (case removeCaptureReceipt fails d of
      (Some e, Some d') \<Rightarrow> (Some e, d' # ds)
    | (Some e, None) \<Rightarrow> (Some e, ds)
    | (None, _) \<Rightarrow> remove_receipts fails ds)"

text \<open>The receipts are the entries whose packs were released; the newest 64 of them are kept.\<close>

definition retainCaptureSpools :: "(string \<Rightarrow> string) \<Rightarrow> head_store \<Rightarrow> string \<Rightarrow> string \<Rightarrow> (string \<Rightarrow> string \<Rightarrow> bool) \<Rightarrow> spool_dir list
    \<Rightarrow> retention_error option \<times> spool_dir list \<times> int" where
  "retainCaptureSpools sha st server rootID fails dirs =
    (case retain_entries sha st server rootID fails dirs 0 of
       (Some e, left, released) \<Rightarrow> (Some e, left, released)
     | (None, left, released) \<Rightarrow>
        (let receipts = rev (sort_key sd_modified left) in
         case remove_receipts fails (drop 64 receipts) of (e, old) \<Rightarrow> (e, take 64 receipts @ old, released)))"

fun spool_used :: "int \<Rightarrow> int \<Rightarrow> (bool \<times> int) list \<Rightarrow> retention_error + int" where
  "spool_used limit used [] = Inr used"
| "spool_used limit used ((regular, sz) # fs) =
    (if \<not> regular then Inl UnexpectedEntry
     else if sz > limit - used then Inl SpoolLimitExceeded
     else spool_used limit (used + sz) fs)"

definition remainingCaptureSpoolBytes :: "(bool \<times> int) list \<Rightarrow> int \<Rightarrow> retention_error + int" where
  "remainingCaptureSpoolBytes files limit = try_then (spool_used limit 0 files) (\<lambda>used.
     if limit - used \<le> captureJournalReserve then Inl SpoolIsFull else Inr (limit - used - captureJournalReserve))"

text \<open>Captures whose journal was never published.\<close>

fun discard_files :: "(string \<Rightarrow> bool) \<Rightarrow> (string \<times> bool \<times> int) list \<Rightarrow> int \<Rightarrow> retention_error option \<times> (string \<times> bool \<times> int) list \<times> int" where
  "discard_files fails [] released = (None, [], released)"
| "discard_files fails ((n, regular, sz) # fs) released =
    (if fails n then (Some RemoveFailed, (n, regular, sz) # fs, released) else discard_files fails fs (released + sz))"

fun discardIncompleteCaptures :: "(string \<Rightarrow> string \<Rightarrow> bool) \<Rightarrow> spool_dir list \<Rightarrow> int \<Rightarrow> retention_error option \<times> spool_dir list \<times> int" where
  "discardIncompleteCaptures fails [] released = (None, [], released)"
| "discardIncompleteCaptures fails (d # ds) released =
    (if \<not> sd_is_dir d \<or> \<not> has_prefix (sd_name d) ''capture-'' then (Some UnexpectedEntry, d # ds, released)
     else if sd_journal d \<noteq> NoJournal then
       (case discardIncompleteCaptures fails ds released of (e, rest, n) \<Rightarrow> (e, d # rest, n))
     else if list_ex (\<lambda>(n, regular, _). \<not> regular \<or> (\<not> has_prefix n ''pack-'' \<and> \<not> has_prefix n ''.journal-'')) (sd_files d)
       then (Some UnexpectedEntry, d # ds, released)
     else (case discard_files (fails (sd_name d)) (sd_files d) released of
         (Some e, files, n) \<Rightarrow> (Some e, d\<lparr>sd_files := files\<rparr> # ds, n)
       | (None, _, n) \<Rightarrow> if fails (sd_name d) [] then (Some RemoveFailed, d\<lparr>sd_files := []\<rparr> # ds, n)
           else discardIncompleteCaptures fails ds n))"

section \<open>Conflicts\<close>

text \<open>The archive of a rejected capture: the answer is whether the directory may be moved.\<close>

definition retainConflictedCapture ::
  "bool \<Rightarrow> string \<Rightarrow> string \<Rightarrow> (string \<Rightarrow> bool) option \<Rightarrow> string option \<Rightarrow> bool \<Rightarrow> journal_file \<Rightarrow> bool \<Rightarrow> retention_error option" where
  "retainConflictedCapture force server rootID select conflict lock journal free =
    (case conflict of
       None \<Rightarrow> Some NeedsForce
     | Some captureID \<Rightarrow>
        if \<not> force then Some NeedsForce
        else if \<not> lock then Some HeadsBusy
        else (case journal of
            JournalData j \<Rightarrow>
              if cj_accepted j \<noteq> None \<or> cj_server j \<noteq> server \<or> cj_root j \<noteq> rootID \<or> cq_capture (cj_request j) \<noteq> captureID then Some NotTheConflict
              else (case resolvedCaptureRequest j of
                  Inl e \<Rightarrow> Some (AcceptedJournal e)
                | Inr request \<Rightarrow>
                   (case select of
                      Some sel \<Rightarrow> (case find (\<lambda>f. \<not> sel (cf_path f)) (cq_files request) of
                           Some f \<Rightarrow> Some (Unselected (cf_path f))
                         | None \<Rightarrow> if free then None else Some ArchiveExists)
                    | None \<Rightarrow> if free then None else Some ArchiveExists))
          | _ \<Rightarrow> Some JournalUnreadable))"

section \<open>Heads never go back\<close>

definition head_seq :: "head_store \<Rightarrow> string \<Rightarrow> int" where
  "head_seq st n = (case st n of Some (HeadData h) \<Rightarrow> rv_sequence (lh_version h) | _ \<Rightarrow> 0)"

text \<open>The stored head of a version is at least as new as the version, and is the version if it is not newer.\<close>

definition head_covers :: "(string \<Rightarrow> string) \<Rightarrow> head_store \<Rightarrow> local_head \<Rightarrow> bool" where
  "head_covers sha st h \<longleftrightarrow> (\<exists>c. loadCapturedHead sha st (lh_server h) (lh_root h) (lh_path h) = Inr (Some c)
     \<and> (rv_sequence (lh_version h) < rv_sequence (lh_version c)
        \<or> rv_sequence (lh_version h) = rv_sequence (lh_version c) \<and> rv_version (lh_version h) = rv_version (lh_version c)))"

abbreviation name_of :: "(string \<Rightarrow> string) \<Rightarrow> local_head \<Rightarrow> string" where
  "name_of sha h \<equiv> capturedHeadName sha (lh_server h) (lh_root h) (lh_path h)"

abbreviation good_head :: "local_head \<Rightarrow> bool" where
  "good_head h \<equiv> rv_version (lh_version h) \<noteq> [] \<and> 1 \<le> rv_sequence (lh_version h)"

lemma head_covers_stored: "good_head h \<Longrightarrow> st (name_of sha h) = Some (HeadData h) \<Longrightarrow> head_covers sha st h"
  by (simp add: head_covers_def loadCapturedHead_def)

lemma load_stored:
  assumes "loadCapturedHead sha st server rootID path = Inr (Some c)"
  shows "st (capturedHeadName sha server rootID path) = Some (HeadData c) \<and> lh_server c = server \<and> lh_root c = rootID \<and> lh_path c = path"
  using assms by (auto simp: loadCapturedHead_def split: option.splits head_file.splits if_splits)

text \<open>One installed head keeps every other covered version covered.\<close>

lemma head_covers_update:
  assumes "head_covers sha st h" "good_head g" "loadCapturedHead sha st (lh_server g) (lh_root g) (lh_path g) = Inr current"
    and "\<And>c. current = Some c \<Longrightarrow> rv_sequence (lh_version c) < rv_sequence (lh_version g)"
  shows "head_covers sha (st(name_of sha g \<mapsto> HeadData g)) h"
proof (cases "name_of sha g = name_of sha h")
  case False
  then show ?thesis using assms(1) by (simp add: head_covers_def loadCapturedHead_def)
next
  case True
  obtain c where c: "loadCapturedHead sha st (lh_server h) (lh_root h) (lh_path h) = Inr (Some c)" "rv_sequence (lh_version h) \<le> rv_sequence (lh_version c)"
    using assms(1) by (auto simp: head_covers_def)
  note at = load_stored[OF c(1)]
  have "st (name_of sha g) = Some (HeadData c)" unfolding True using at by blast
  then have cur: "current = Some c" using assms(3) by (simp add: loadCapturedHead_def split: if_splits)
  then have same: "lh_server g = lh_server h" "lh_root g = lh_root h" "lh_path g = lh_path h"
    using load_stored[OF assms(3)[unfolded cur]] at by simp_all
  have "rv_sequence (lh_version c) < rv_sequence (lh_version g)" using assms(4)[OF cur] .
  then show ?thesis using c(2) assms(2) unfolding head_covers_def loadCapturedHead_def by (simp add: same)
qed

lemma install_heads_covers:
  assumes "install_heads sha saved i hs st = (r, st')" "\<forall>h\<in>set hs. good_head h"
  shows "(\<forall>h. head_covers sha st h \<longrightarrow> head_covers sha st' h) \<and> (r = Inr () \<longrightarrow> (\<forall>h\<in>set hs. head_covers sha st' h))"
  using assms
proof (induction sha saved i hs st rule: install_heads.induct)
  case (2 sha saved i h hs st)
  show ?case
  proof (cases "loadCapturedHead sha st (lh_server h) (lh_root h) (lh_path h)")
    case (Inl e)
    then show ?thesis using "2.prems" by auto
  next
    case (Inr current)
    consider (conflict) "r = Inl SequenceConflict" "st' = st"
      | (keep) c where "current = Some c" "rv_sequence (lh_version c) \<ge> rv_sequence (lh_version h)"
          "rv_sequence (lh_version c) = rv_sequence (lh_version h) \<Longrightarrow> rv_version (lh_version c) = rv_version (lh_version h)"
          "install_heads sha saved (i + 1) hs st = (r, st')"
      | (failed) "r = Inl HeadSaveFailed" "st' = st"
      | (stored_now) "\<And>c. current = Some c \<Longrightarrow> rv_sequence (lh_version c) < rv_sequence (lh_version h)"
          "install_heads sha saved (i + 1) hs (st(name_of sha h \<mapsto> HeadData h)) = (r, st')" "saved i"
      using "2.prems"(1) Inr by (auto simp: Let_def not_le split: if_splits option.splits)
    then show ?thesis
    proof cases
      case keep
      have covered: "head_covers sha st h" unfolding head_covers_def using Inr keep(1-3) by fastforce
      have "(\<forall>h. head_covers sha st h \<longrightarrow> head_covers sha st' h) \<and> (r = Inr () \<longrightarrow> (\<forall>h\<in>set hs. head_covers sha st' h))"
        by (rule "2.IH"(1)[OF Inr]) (use keep "2.prems" in auto)
      then show ?thesis using covered by auto
    next
      case stored_now
      have g: "good_head h" using "2.prems"(2) by simp
      have step: "head_covers sha (st(name_of sha h \<mapsto> HeadData h)) x" if "head_covers sha st x" for x
        by (rule head_covers_update[OF that g Inr stored_now(1)])
      have covered: "head_covers sha (st(name_of sha h \<mapsto> HeadData h)) h" by (rule head_covers_stored[OF g]) simp
      have "(\<forall>x. head_covers sha (st(name_of sha h \<mapsto> HeadData h)) x \<longrightarrow> head_covers sha st' x) \<and> (r = Inr () \<longrightarrow> (\<forall>h\<in>set hs. head_covers sha st' h))"
        by (rule "2.IH"(2)[OF Inr refl]) (use stored_now "2.prems"(2) in \<open>force split: option.splits\<close>)+
      then show ?thesis using covered step by auto
    qed auto
  qed
qed auto

lemma accepted_heads_good: "accepted_heads j seen fvs = Inr hs \<Longrightarrow> \<forall>h\<in>set hs. good_head h \<and> lh_server h = cj_server j \<and> lh_root h = cj_root j"
proof (induction j seen fvs arbitrary: hs rule: accepted_heads.induct)
  case (2 j seen f v rest)
  then show ?case by (fastforce simp: Let_def try_then_Inr_iff version_accepted_def split: if_splits)
qed simp

lemma acceptedCaptureHeads_good: "acceptedCaptureHeads j = Inr hs \<Longrightarrow> \<forall>h\<in>set hs. good_head h \<and> lh_server h = cj_server j \<and> lh_root h = cj_root j"
  using accepted_heads_good by (auto simp: acceptedCaptureHeads_def split: option.splits if_splits sum.splits)

lemma saveAcceptedCaptureHeads_covers:
  assumes "saveAcceptedCaptureHeads sha lock saved j st = (r, st')"
  shows "(\<forall>h. head_covers sha st h \<longrightarrow> head_covers sha st' h)
    \<and> (\<forall>hs. r = Inr () \<and> acceptedCaptureHeads j = Inr hs \<longrightarrow> (\<forall>h\<in>set hs. head_covers sha st' h))"
proof (cases "acceptedCaptureHeads j")
  case (Inl e)
  then show ?thesis using assms by (auto simp: saveAcceptedCaptureHeads_def)
next
  case (Inr hs)
  then show ?thesis using assms install_heads_covers[of sha saved 0 hs st r st'] acceptedCaptureHeads_good[OF Inr]
    by (auto simp: saveAcceptedCaptureHeads_def split: if_splits)
qed

text \<open>Any sequence of further installations, complete or cut short.\<close>

inductive heads_run :: "(string \<Rightarrow> string) \<Rightarrow> head_store \<Rightarrow> head_store \<Rightarrow> bool" for sha where
  no_install: "heads_run sha st st"
| install: "heads_run sha st st1 \<Longrightarrow> saveAcceptedCaptureHeads sha lock saved j st1 = (r, st2) \<Longrightarrow> heads_run sha st st2"

lemma heads_run_covers: "heads_run sha st st' \<Longrightarrow> head_covers sha st h \<Longrightarrow> head_covers sha st' h"
  by (induction rule: heads_run.induct) (use saveAcceptedCaptureHeads_covers in blast)+

text \<open>
  C19: local heads never go back.  Once the heads of an accepted capture are installed, every later
  sequence of installations of any journals, also ones that stop part of the way and are repeated,
  leaves for each of its paths a readable head that is this version or a newer one.
\<close>

theorem accepted_heads_never_regress:
  assumes "saveAcceptedCaptureHeads sha lock saved j st = (Inr (), st1)" "heads_run sha st1 st2"
    and "acceptedCaptureHeads j = Inr hs" "h \<in> set hs"
  shows "\<exists>c. loadCapturedHead sha st2 (cj_server j) (cj_root j) (lh_path h) = Inr (Some c)
     \<and> (rv_sequence (lh_version h) < rv_sequence (lh_version c)
        \<or> rv_sequence (lh_version h) = rv_sequence (lh_version c) \<and> rv_version (lh_version h) = rv_version (lh_version c))"
proof -
  have "head_covers sha st1 h" using saveAcceptedCaptureHeads_covers[OF assms(1)] assms(3,4) by blast
  from heads_run_covers[OF assms(2) this] show ?thesis
    using acceptedCaptureHeads_good[OF assms(3)] assms(4) by (auto simp: head_covers_def)
qed

section \<open>Cleaning up loses no capture\<close>

text \<open>An accepted capture whose versions, or newer ones, are in the local heads.\<close>

definition capture_durable :: "(string \<Rightarrow> string) \<Rightarrow> head_store \<Rightarrow> string \<Rightarrow> string \<Rightarrow> spool_dir \<Rightarrow> bool" where
  "capture_durable sha st server rootID d \<longleftrightarrow> (\<exists>j hs. sd_journal d = JournalData j \<and> cj_server j = server \<and> cj_root j = rootID
     \<and> acceptedCaptureHeads j = Inr hs \<and> (\<forall>h\<in>set hs. head_covers sha st h))"

lemma heads_durable_iff:
  assumes "\<forall>h\<in>set hs. lh_server h = server \<and> lh_root h = rootID"
  shows "heads_durable sha st server rootID hs = None \<longleftrightarrow> (\<forall>h\<in>set hs. head_covers sha st h)"
  using assms
proof (induction hs)
  case (Cons h hs)
  have own: "lh_server h = server" "lh_root h = rootID" using Cons.prems by simp_all
  have ih: "heads_durable sha st server rootID hs = None \<longleftrightarrow> (\<forall>h\<in>set hs. head_covers sha st h)" by (rule Cons.IH) (use Cons.prems in simp)
  show ?case
  proof (cases "\<exists>c. loadCapturedHead sha st server rootID (lh_path h) = Inr (Some c)")
    case True
    then obtain c where c: "loadCapturedHead sha st server rootID (lh_path h) = Inr (Some c)" by blast
    have order: "(x < y \<or> x = y \<and> v = w) \<longleftrightarrow> \<not> (y < x \<or> (y = x \<and> w \<noteq> v))" for x y :: int and v w :: string
      by (cases x y rule: linorder_cases) auto
    have "head_covers sha st h \<longleftrightarrow> \<not> (rv_sequence (lh_version c) < rv_sequence (lh_version h)
          \<or> (rv_sequence (lh_version c) = rv_sequence (lh_version h) \<and> rv_version (lh_version c) \<noteq> rv_version (lh_version h)))"
      unfolding order[symmetric] head_covers_def own c by simp
    then show ?thesis using c ih by auto
  next
    case False
    then have "\<not> head_covers sha st h" "heads_durable sha st server rootID (h # hs) \<noteq> None"
      unfolding head_covers_def own by (auto split: sum.splits option.splits)
    then show ?thesis by simp
  qed
qed simp

lemma retain_entry_durable:
  assumes "retain_entry sha st server rootID fails d released = (e, kept, released')"
  shows "(kept = Some d \<or> capture_durable sha st server rootID d \<or> sd_journal d = NoJournal \<and> sd_files d = [])
    \<and> (e = None \<longrightarrow> (\<forall>x. kept = Some x \<longrightarrow> capture_durable sha st server rootID x))"
proof (cases "\<exists>j hs. sd_is_dir d \<and> has_prefix (sd_name d) ''capture-'' \<and> sd_journal d = JournalData j \<and> cj_server j = server \<and> cj_root j = rootID \<and> acceptedCaptureHeads j = Inr hs
    \<and> heads_durable sha st server rootID hs = None")
  case True
  then obtain j hs where j: "sd_journal d = JournalData j" "cj_server j = server" "cj_root j = rootID" "acceptedCaptureHeads j = Inr hs"
    "heads_durable sha st server rootID hs = None" "sd_is_dir d" "has_prefix (sd_name d) ''capture-''" by blast
  have "\<forall>h\<in>set hs. head_covers sha st h" using heads_durable_iff[of hs server rootID sha st] acceptedCaptureHeads_good[OF j(4)] j(2,3,5) by simp
  then have "capture_durable sha st server rootID d" "\<And>fs. capture_durable sha st server rootID (d\<lparr>sd_files := fs\<rparr>)"
    using j(1-4) by (auto simp: capture_durable_def)
  then show ?thesis using assms j by (auto simp: retain_entry_def split: prod.splits)
next
  case False
  then show ?thesis using assms by (auto simp: retain_entry_def split: if_splits journal_file.splits sum.splits option.splits prod.splits)
qed

lemma retain_entries_durable:
  assumes "retain_entries sha st server rootID fails ds released = (e, left, released')"
  shows "(\<forall>d\<in>set ds. d \<in> set left \<or> capture_durable sha st server rootID d \<or> sd_journal d = NoJournal \<and> sd_files d = [])
    \<and> (e = None \<longrightarrow> (\<forall>d\<in>set left. capture_durable sha st server rootID d))"
  using assms
proof (induction sha st server rootID fails ds released arbitrary: left e released' rule: retain_entries.induct)
  case (2 sha st server rootID fails d ds released)
  obtain e1 kept released1 where entry: "retain_entry sha st server rootID fails d released = (e1, kept, released1)" by (metis prod_cases3)
  note d = retain_entry_durable[OF entry]
  show ?case
  proof (cases e1)
    case (Some e1)
    then show ?thesis using "2.prems" entry d by (auto split: option.splits)
  next
    case None
    obtain e2 rest released2 where rest: "retain_entries sha st server rootID fails ds released1 = (e2, rest, released2)" by (metis prod_cases3)
    note ih = "2.IH"[OF entry[symmetric] None refl rest]
    have out: "e = e2" "left = (case kept of None \<Rightarrow> [] | Some x \<Rightarrow> [x]) @ rest" using "2.prems" entry rest None by auto
    show ?thesis using d ih None unfolding out by (auto split: option.splits)
  qed
qed simp

lemma discard_keeps:
  assumes "discardIncompleteCaptures fails ds released = (e, left, released')" "d \<in> set ds" "sd_journal d \<noteq> NoJournal"
  shows "d \<in> set left"
  using assms
  by (induction fails ds released arbitrary: e left released' rule: discardIncompleteCaptures.induct)
     (auto split: if_splits prod.splits option.splits)

text \<open>
  C9: cleaning up loses no capture.  The bytes of a completed capture are released, and its receipt
  removed, only if the journal is accepted and for every path of it the local heads hold the accepted version or a
  newer one; every other completed capture stays as it is, whatever fails on the way.  A pending
  capture with a published journal is never discarded.
\<close>

theorem cleanup_keeps_captures:
  assumes "retainCaptureSpools sha st server rootID fails completed_dirs = (e1, kept, released)"
    and "discardIncompleteCaptures fails pending_dirs start = (e2, waiting, discarded)"
  shows "(\<forall>d\<in>set completed_dirs. d \<in> set kept \<or> capture_durable sha st server rootID d \<or> sd_journal d = NoJournal \<and> sd_files d = [])
    \<and> (\<forall>d\<in>set pending_dirs. d \<in> set waiting \<or> sd_journal d = NoJournal)"
proof -
  obtain e left n where entries: "retain_entries sha st server rootID fails completed_dirs 0 = (e, left, n)" by (metis prod_cases3)
  note r = retain_entries_durable[OF entries]
  have "\<forall>d\<in>set completed_dirs. d \<in> set kept \<or> capture_durable sha st server rootID d \<or> sd_journal d = NoJournal \<and> sd_files d = []"
  proof (cases e)
    case None
    then show ?thesis using r by blast
  next
    case (Some x)
    then have "kept = left" using assms(1) entries by (simp add: retainCaptureSpools_def)
    then show ?thesis using r by blast
  qed
  then show ?thesis using discard_keeps[OF assms(2)] by blast
qed

lemma spool_used_sum: "spool_used limit used files = Inr n \<Longrightarrow> n = used + (\<Sum>f\<leftarrow>files. snd f)"
  by (induction limit used files rule: spool_used.induct) (auto split: if_splits)

text \<open>
  C40: captures stay within the spool limit.  A capture that is created with the bytes left over by the
  pending, completed and conflicting captures brings the whole spool to at most the limit, with room
  for the journal.
\<close>

theorem capture_within_spool_limit:
  assumes "remainingCaptureSpoolBytes files limit = Inr available"
    and "createCaptureSpool env sha server rootID asked previous packBytes available = Some (result, Some (j, written))"
    and "\<forall>f\<in>set asked. 0 \<le> sf_size (se_source env (cf_path f))"
  shows "(\<Sum>f\<leftarrow>files. snd f) + file_bytes written + captureJournalReserve \<le> limit"
proof -
  have "(\<Sum>f\<leftarrow>files. snd f) + available + captureJournalReserve = limit" "0 < available"
    using assms(1) by (auto simp: remainingCaptureSpoolBytes_def try_then_Inr_iff dest!: spool_used_sum split: if_splits)
  moreover have "file_bytes written \<le> max 0 available"
    using createCaptureSpool_published[OF assms(3), of sha server rootID previous packBytes available] assms(2) by (auto simp: faithful_spool_def)
  ultimately show ?thesis by simp
qed

text \<open>A submission that reports success has installed heads that cover the accepted versions.\<close>

lemma submitCapture_covers:
  assumes "submitCapture sha env readable lock saved st = (Inr (Inr (), a), st')" "re_journal env = Some j"
  shows "\<exists>j'. same_capture_journal j j' \<and> cj_accepted j' = Some a \<and> (\<forall>hs. acceptedCaptureHeads j' = Inr hs \<longrightarrow> (\<forall>h\<in>set hs. head_covers sha st' h))"
proof -
  obtain j' where j': "resumeCaptureJournal sha env = (Inr a, Some j')" "saveAcceptedCaptureHeads sha lock saved j' st = (Inr (), st')"
    using assms(1) by (auto simp: submitCapture_def split: prod.splits sum.splits option.splits if_splits)
  have "cj_accepted j' = Some a" "same_capture_journal j j'" using resume_keeps[OF j'(1) assms(2)] by (simp_all add: acceptance_of_def)
  then show ?thesis using saveAcceptedCaptureHeads_covers[OF j'(2)] by blast
qed

section \<open>Concrete captures\<close>

definition accepted_journal :: capture_journal where
  "accepted_journal = local_journal\<lparr>cj_packs := [local_pack\<lparr>jp_key := ''k1'', jp_complete := True\<rparr>],
     cj_accepted := Some \<lparr>ca_capture = ''c1'', ca_versions = [accepted_version]\<rparr>\<rparr>"

abbreviation sample_head_sha :: "string \<Rightarrow> string" where
  "sample_head_sha \<equiv> \<lambda>_. ''n''"

definition installed_heads :: head_store where
  "installed_heads = snd (saveAcceptedCaptureHeads sample_head_sha True (\<lambda>_. True) accepted_journal Map.empty)"

lemma installed_heads_ok: "fst (saveAcceptedCaptureHeads sample_head_sha True (\<lambda>_. True) accepted_journal Map.empty) = Inr ()"
  by code_simp

theorem accepted_heads_never_regress_witness:
  "\<exists>c. loadCapturedHead sample_head_sha installed_heads ''s'' ''r1'' ''a.txt'' = Inr (Some c) \<and> 2 \<le> rv_sequence (lh_version c)"
proof -
  have run: "saveAcceptedCaptureHeads sample_head_sha True (\<lambda>_. True) accepted_journal Map.empty = (Inr (), installed_heads)"
    using installed_heads_ok by (simp add: installed_heads_def prod_eq_iff)
  have "map_sum id (map (\<lambda>h. (lh_path h, rv_sequence (lh_version h)))) (acceptedCaptureHeads accepted_journal) = Inr [(''a.txt'', 2)]" by code_simp
  then obtain h where hs: "acceptedCaptureHeads accepted_journal = Inr [h]" "lh_path h = ''a.txt''" "rv_sequence (lh_version h) = 2"
    by (cases "acceptedCaptureHeads accepted_journal") auto
  have "cj_server accepted_journal = ''s''" "cj_root accepted_journal = ''r1''" by (simp_all add: accepted_journal_def local_journal_def)
  with accepted_heads_never_regress[OF run no_install hs(1), of h] hs(2,3) show ?thesis by fastforce
qed

definition finished_dir :: spool_dir where
  "finished_dir = \<lparr>sd_name = ''capture-1'', sd_is_dir = True, sd_journal = JournalData accepted_journal, sd_files = [(''pack-000000'', True, 2)], sd_modified = 0\<rparr>"

definition pending_dir :: spool_dir where
  "pending_dir = \<lparr>sd_name = ''capture-2'', sd_is_dir = True, sd_journal = JournalData local_journal, sd_files = [(''pack-000000'', True, 2)], sd_modified = 0\<rparr>"

theorem cleanup_keeps_captures_witness:
  "\<exists>kept waiting n m. retainCaptureSpools sample_head_sha installed_heads ''s'' ''r1'' (\<lambda>_ _. False) [finished_dir] = (None, kept, n)
    \<and> discardIncompleteCaptures (\<lambda>_ _. False) [pending_dir] 0 = (None, waiting, m) \<and> n = 2
    \<and> capture_durable sample_head_sha installed_heads ''s'' ''r1'' finished_dir \<and> pending_dir \<in> set waiting"
proof -
  obtain e1 kept n where run1: "retainCaptureSpools sample_head_sha installed_heads ''s'' ''r1'' (\<lambda>_ _. False) [finished_dir] = (e1, kept, n)" by (metis prod_cases3)
  obtain e2 waiting m where run2: "discardIncompleteCaptures (\<lambda>_ _. False) [pending_dir] 0 = (e2, waiting, m)" by (metis prod_cases3)
  have "fst (retainCaptureSpools sample_head_sha installed_heads ''s'' ''r1'' (\<lambda>_ _. False) [finished_dir]) = None"
    "snd (snd (retainCaptureSpools sample_head_sha installed_heads ''s'' ''r1'' (\<lambda>_ _. False) [finished_dir])) = 2"
    "map sd_files (fst (snd (retainCaptureSpools sample_head_sha installed_heads ''s'' ''r1'' (\<lambda>_ _. False) [finished_dir]))) = [[]]" by code_simp+
  then have out1: "e1 = None" "n = 2" "map sd_files kept = [[]]" using run1 by simp_all
  have out2: "e2 = None" using run2 by (auto simp: pending_dir_def has_prefix_def)
  have "finished_dir \<notin> set kept" using out1(3) by (auto simp: finished_dir_def)
  moreover have "sd_journal finished_dir \<noteq> NoJournal" "sd_journal pending_dir \<noteq> NoJournal" by (simp_all add: finished_dir_def pending_dir_def)
  ultimately show ?thesis using cleanup_keeps_captures[OF run1 run2] run1 run2 out1 out2 by auto
qed

theorem capture_within_spool_limit_witness:
  "(\<Sum>f\<leftarrow>[(True, 5::int)]. snd f) + file_bytes [(''pack-000000'', ''cd''), (''pack-000001'', ''e'')] + captureJournalReserve \<le> 4194312"
proof -
  obtain j where j: "sample_spool = Some (Inr 2, Some (j, [(''pack-000000'', ''cd''), (''pack-000001'', ''e'')]))" by (rule sample_spool_Some)
  have "remainingCaptureSpoolBytes [(True, 5)] 4194312 = Inr 3" by (simp add: remainingCaptureSpoolBytes_def captureJournalReserve_def)
  moreover have "\<forall>f\<in>set sample_asked. 0 \<le> sf_size (se_source sample_spool_env (cf_path f))" by (simp add: sample_spool_env_def)
  ultimately show ?thesis using capture_within_spool_limit[of "[(True, 5)]" 4194312 3] j unfolding sample_spool_def by blast
qed

end
