(* ===== verification/Spec2Isabelle.thy ===== *)
theory Spec2Isabelle
  imports Source_Uploads Catalog_Client File_Reads Email_Login Capture_Retention
begin

text \<open>
  A verification development for pufferfs, a service that captures files into immutable
  source packs, keeps a versioned catalog of them and serves search over the extracted
  content.
\<close>

end
